(* ===== verification/Prelude.thy ===== *)
theory Prelude
  imports Complex_Main "HOL-Library.List_Lexorder" "HOL-Library.Char_ord" "HOL-Library.Product_Lexorder"
begin

text \<open>
  What every component of the development shares: the collections its facts are gathered
  in, the error/state monad the store code is written in (one \<^theory_text>\<open>bindM\<close> per
  \<open>if err != nil { return err }\<close> of the Go source), tables as lists of rows with a key,
  pages (\<open>ORDER BY id LIMIT n\<close>) of a list of rows, and 64-bit range checks.
\<close>

named_theorems query_simps "success of a single SQL statement"
named_theorems stmt_defs "definitions of the SQL statements"
named_theorems frame_simps "what an operation leaves alone"

section \<open>Results and the state monad\<close>

type_synonym ('w, 'e, 'a) action = "'w \<Rightarrow> ('e + 'a) \<times> 'w"

definition returnM :: "'a \<Rightarrow> ('w, 'e, 'a) action" where
  "returnM a w = (Inr a, w)"

definition failM :: "'e \<Rightarrow> ('w, 'e, 'a) action" where
  "failM e w = (Inl e, w)"

definition bindM :: "('w, 'e, 'a) action \<Rightarrow> ('a \<Rightarrow> ('w, 'e, 'b) action) \<Rightarrow> ('w, 'e, 'b) action" where
  "bindM f g w = (case f w of (Inl e, w1) \<Rightarrow> (Inl e, w1) | (Inr a, w1) \<Rightarrow> g a w1)"

text \<open>
  \<open>catchM\<close> hands the result, error or value, to the continuation: the places where the
  source looks at \<open>err\<close> before it decides (\<open>errors.Is\<close>).
\<close>

definition catchM :: "('w, 'e, 'a) action \<Rightarrow> ('e + 'a \<Rightarrow> ('w, 'f, 'b) action) \<Rightarrow> ('w, 'f, 'b) action" where
  "catchM f g w = (case f w of (r, w1) \<Rightarrow> g r w1)"

lemma returnM_apply [simp]: "returnM a w = (Inr a, w)"
  by (simp add: returnM_def)

lemma failM_apply [simp]: "failM e w = (Inl e, w)"
  by (simp add: failM_def)

lemma bindM_Inr_iff:
  "bindM f g w = (Inr b, w') \<longleftrightarrow> (\<exists>a w1. f w = (Inr a, w1) \<and> g a w1 = (Inr b, w'))"
  by (auto simp: bindM_def split: prod.splits sum.splits)

lemma bindM_Inl_iff:
  "bindM f g w = (Inl e, w') \<longleftrightarrow>
     f w = (Inl e, w') \<or> (\<exists>a w1. f w = (Inr a, w1) \<and> g a w1 = (Inl e, w'))"
  by (auto simp: bindM_def split: prod.splits sum.splits)

lemma bindM_Inr_eq [simp]: "f w = (Inr a, w1) \<Longrightarrow> bindM f g w = g a w1"
  by (simp add: bindM_def)

lemma bindM_Inl_eq [simp]: "f w = (Inl e, w1) \<Longrightarrow> bindM f g w = (Inl e, w1)"
  by (simp add: bindM_def)

lemma bindM_return [simp]: "bindM (returnM a) g = g a"
  by (simp add: bindM_def fun_eq_iff)

lemma bindM_assoc: "bindM (bindM f g) h = bindM f (\<lambda>a. bindM (g a) h)"
  by (auto simp: bindM_def fun_eq_iff split: prod.splits sum.splits)

lemma catchM_iff: "catchM f g w = x \<longleftrightarrow> (\<exists>r w1. f w = (r, w1) \<and> g r w1 = x)"
  by (auto simp: catchM_def split: prod.splits)

lemma catchM_eq [simp]: "f w = (r, w1) \<Longrightarrow> catchM f g w = g r w1"
  by (simp add: catchM_def)

text \<open>A \<open>for range\<close> loop whose body returns at the first error.\<close>

fun for_each :: "('x \<Rightarrow> ('w, 'e, 'a) action) \<Rightarrow> 'x list \<Rightarrow> ('w, 'e, 'a list) action" where
  "for_each f [] = returnM []"
| "for_each f (x # xs) = bindM (f x) (\<lambda>a. bindM (for_each f xs) (\<lambda>as. returnM (a # as)))"

lemma for_each_length: "for_each f xs w = (Inr as, w') \<Longrightarrow> length as = length xs"
  by (induction xs arbitrary: as w) (auto simp: bindM_Inr_iff)

text \<open>
  A relation between the world before and after that each round of the loop establishes,
  and that is reflexive and transitive, holds for the whole loop.
\<close>

lemma for_each_rel:
  assumes "for_each f xs w = (Inr as, w')"
    and "\<And>w. R w w"
    and "\<And>u v w. R u v \<Longrightarrow> R v w \<Longrightarrow> R u w"
    and "\<And>x a u v. x \<in> set xs \<Longrightarrow> f x u = (Inr a, v) \<Longrightarrow> R u v"
  shows "R w w'"
  using assms(1,4)
proof (induction xs arbitrary: as w)
  case Nil
  then show ?case by (simp add: assms(2))
next
  case (Cons x xs)
  from Cons.prems(1) obtain a w1 as' where
    "f x w = (Inr a, w1)" and rest: "for_each f xs w1 = (Inr as', w')"
    by (auto simp: bindM_Inr_iff)
  with Cons.prems(2) [of x w a w1] have "R w w1" by simp
  moreover have "R w1 w'"
    by (rule Cons.IH [OF rest]) (rule Cons.prems(2), auto)
  ultimately show ?case by (rule assms(3))
qed

section \<open>64-bit integers\<close>

definition max_bigint :: int where
  "max_bigint = 9223372036854775807"

definition min_bigint :: int where
  "min_bigint = - 9223372036854775808"

definition in_bigint :: "int \<Rightarrow> bool" where
  "in_bigint v \<longleftrightarrow> min_bigint \<le> v \<and> v \<le> max_bigint"

lemma in_bigint_intro: "0 \<le> v \<Longrightarrow> v \<le> max_bigint \<Longrightarrow> in_bigint v"
  by (simp add: in_bigint_def min_bigint_def)

lemma in_bigint_1 [simp]: "in_bigint 1"
  by (simp add: in_bigint_def min_bigint_def max_bigint_def)

section \<open>Tables as lists of rows\<close>

text \<open>The row with a key, a row's replacement or insertion, and its removal.\<close>

definition row_at :: "('r \<Rightarrow> 'k) \<Rightarrow> 'k \<Rightarrow> 'r list \<Rightarrow> 'r option" where
  "row_at key k rows = find (\<lambda>r. key r = k) rows"

definition put_row :: "('r \<Rightarrow> 'k) \<Rightarrow> 'r \<Rightarrow> 'r list \<Rightarrow> 'r list" where
  "put_row key r rows =
     (if key r \<in> key ` set rows then map (\<lambda>x. if key x = key r then r else x) rows else rows @ [r])"

definition drop_row :: "('r \<Rightarrow> 'k) \<Rightarrow> 'k \<Rightarrow> 'r list \<Rightarrow> 'r list" where
  "drop_row key k rows = filter (\<lambda>r. key r \<noteq> k) rows"

lemma row_at_None: "row_at key k rows = None \<longleftrightarrow> k \<notin> key ` set rows"
  by (auto simp: row_at_def find_None_iff)

lemma row_at_SomeD: "row_at key k rows = Some r \<Longrightarrow> r \<in> set rows \<and> key r = k"
  by (auto simp: row_at_def find_Some_iff)

lemma row_at_SomeI:
  "distinct (map key rows) \<Longrightarrow> r \<in> set rows \<Longrightarrow> row_at key (key r) rows = Some r"
  by (induction rows) (auto simp: row_at_def)

lemma row_at_Cons: "row_at key k (r # rows) = (if key r = k then Some r else row_at key k rows)"
  by (simp add: row_at_def)

lemma row_at_Nil [simp]: "row_at key k [] = None"
  by (simp add: row_at_def)

lemma row_at_append:
  "row_at key k (xs @ ys) = (case row_at key k xs of None \<Rightarrow> row_at key k ys | Some r \<Rightarrow> Some r)"
  by (induction xs) (auto simp: row_at_Cons)

lemma row_at_map_replace:
  "row_at key k (map (\<lambda>x. if key x = key r then r else x) rows) =
     (if k = key r then (if key r \<in> key ` set rows then Some r else None) else row_at key k rows)"
  by (induction rows) (auto simp: row_at_Cons)

lemma row_at_put_row:
  "row_at key k (put_row key r rows) = (if k = key r then Some r else row_at key k rows)"
proof (cases "key r \<in> key ` set rows")
  case True
  then show ?thesis by (simp add: put_row_def row_at_map_replace)
next
  case False
  then have "row_at key (key r) rows = None" by (simp add: row_at_None)
  with False show ?thesis
    by (auto simp: put_row_def row_at_append row_at_Cons split: option.splits)
qed

lemma row_at_drop_row:
  "row_at key k (drop_row key k' rows) = (if k = k' then None else row_at key k rows)"
  by (induction rows) (auto simp: drop_row_def row_at_Cons)

lemma keys_put_row: "key ` set (put_row key r rows) = insert (key r) (key ` set rows)"
  by (auto simp: put_row_def image_iff)

lemma keys_drop_row: "key ` set (drop_row key k rows) = key ` set rows - {k}"
  by (auto simp: drop_row_def)

lemma map_key_replace: "map key (map (\<lambda>x. if key x = key r then r else x) rows) = map key rows"
  by (induction rows) auto

lemma distinct_put_row: "distinct (map key rows) \<Longrightarrow> distinct (map key (put_row key r rows))"
  by (auto simp: put_row_def map_key_replace simp del: map_map)

lemma distinct_drop_row: "distinct (map key rows) \<Longrightarrow> distinct (map key (drop_row key k rows))"
  by (simp add: drop_row_def distinct_map_filter)

lemma set_put_row_subset: "set (put_row key r rows) \<subseteq> insert r (set rows)"
  by (auto simp: put_row_def)

lemma distinct_map_snoc:
  "distinct (map f (xs @ [x])) \<longleftrightarrow> distinct (map f xs) \<and> f x \<notin> f ` set xs"
  by auto

lemma filter_unique_key:
  "distinct (map f xs) \<Longrightarrow> x \<in> set xs \<Longrightarrow> filter (\<lambda>y. f y = f x) xs = [x]"
  by (induction xs) (auto simp: filter_empty_conv image_iff)

lemma map_of_eqI_set:
  "distinct (map fst xs) \<Longrightarrow> distinct (map fst ys) \<Longrightarrow> set xs = set ys \<Longrightarrow> map_of xs = map_of ys"
  by (metis map_of_eq_Some_iff map_of_inject_set)

section \<open>Pages of a table: \<open>ORDER BY id LIMIT n\<close>\<close>

definition page_asc :: "('r \<Rightarrow> int) \<Rightarrow> int \<Rightarrow> 'r list \<Rightarrow> 'r list" where
  "page_asc ident limit rows = take (nat limit) (sort_key ident rows)"

definition page_desc :: "('r \<Rightarrow> int) \<Rightarrow> int \<Rightarrow> 'r list \<Rightarrow> 'r list" where
  "page_desc ident limit rows = take (nat limit) (rev (sort_key ident rows))"

lemma set_page_asc: "set (page_asc ident limit rows) \<subseteq> set rows"
  by (auto simp: page_asc_def dest: in_set_takeD)

lemma set_page_desc: "set (page_desc ident limit rows) \<subseteq> set rows"
  by (auto simp: page_desc_def dest: in_set_takeD)

lemma length_page_asc: "length (page_asc ident limit rows) = min (nat limit) (length rows)"
  by (simp add: page_asc_def min.commute)

lemma length_page_desc: "length (page_desc ident limit rows) = min (nat limit) (length rows)"
  by (simp add: page_desc_def min.commute)

lemma sorted_page_asc: "sorted (map ident (page_asc ident limit rows))"
  by (simp add: page_asc_def take_map [symmetric] sorted_wrt_take)

lemma distinct_sort_key_map:
  "distinct (map f rows) \<Longrightarrow> distinct (map f (sort_key g rows))"
proof -
  assume "distinct (map f rows)"
  then have "distinct rows" and inj: "inj_on f (set rows)"
    by (auto simp: distinct_map)
  then show ?thesis by (simp add: distinct_map)
qed

lemma distinct_page_asc:
  "distinct (map f rows) \<Longrightarrow> distinct (map f (page_asc ident limit rows))"
  by (simp add: page_asc_def take_map [symmetric] distinct_sort_key_map del: distinct_map)

lemma strict_page_asc:
  "distinct (map ident rows) \<Longrightarrow> sorted_wrt (<) (map ident (page_asc ident limit rows))"
  by (simp add: strict_sorted_iff sorted_page_asc distinct_page_asc)

lemma strict_page_desc:
  assumes "distinct (map ident rows)"
  shows "sorted_wrt (>) (map ident (page_desc ident limit rows))"
proof -
  have "sorted_wrt (<) (map ident (sort_key ident rows))"
    using assms by (simp add: strict_sorted_iff distinct_sort_key_map)
  then have "sorted_wrt (>) (rev (map ident (sort_key ident rows)))"
    by (simp add: sorted_wrt_rev)
  then show ?thesis
    by (simp add: page_desc_def take_map [symmetric] rev_map sorted_wrt_take)
qed

text \<open>
  A page is complete up to its last row: a row of the table that is not on the page comes
  after every row that is, and then the page is full.
\<close>

lemma not_in_take_length: "x \<in> set xs \<Longrightarrow> x \<notin> set (take n xs) \<Longrightarrow> n < length xs"
  by (metis linorder_not_le take_all)

lemma sorted_take_rest:
  assumes "sorted (map f xs)" "x \<in> set xs" "x \<notin> set (take n xs)" "y \<in> set (take n xs)"
  shows "f y \<le> f x"
proof -
  have "x \<in> set (drop n xs)"
    using assms(2,3) by (metis append_take_drop_id set_append Un_iff)
  moreover have "sorted (map f (take n xs) @ map f (drop n xs))"
    using assms(1) by (simp flip: map_append)
  ultimately show ?thesis
    using assms(4) by (auto simp: sorted_append)
qed

lemma page_asc_complete:
  assumes "r \<in> set rows" "r \<notin> set (page_asc ident limit rows)"
  shows "length (page_asc ident limit rows) = nat limit"
    and "y \<in> set (page_asc ident limit rows) \<Longrightarrow> ident y \<le> ident r"
proof -
  have "nat limit < length rows"
    using assms not_in_take_length [of r "sort_key ident rows" "nat limit"]
    by (simp add: page_asc_def)
  then show "length (page_asc ident limit rows) = nat limit"
    by (simp add: length_page_asc)
  show "y \<in> set (page_asc ident limit rows) \<Longrightarrow> ident y \<le> ident r"
    using assms sorted_take_rest [of ident "sort_key ident rows" r "nat limit" y]
    by (simp add: page_asc_def)
qed

lemma page_desc_complete:
  assumes "r \<in> set rows" "r \<notin> set (page_desc ident limit rows)"
  shows "length (page_desc ident limit rows) = nat limit"
    and "y \<in> set (page_desc ident limit rows) \<Longrightarrow> ident r \<le> ident y"
proof -
  have "nat limit < length rows"
    using assms not_in_take_length [of r "rev (sort_key ident rows)" "nat limit"]
    by (simp add: page_desc_def)
  then show "length (page_desc ident limit rows) = nat limit"
    by (simp add: length_page_desc)
  have "sorted_wrt (\<ge>) (map ident (rev (sort_key ident rows)))"
    by (simp add: rev_map [symmetric] sorted_wrt_rev)
  then have srt: "sorted (map (\<lambda>x. - ident x) (rev (sort_key ident rows)))"
    by (simp add: sorted_wrt_map)
  show "y \<in> set (page_desc ident limit rows) \<Longrightarrow> ident r \<le> ident y"
    using assms sorted_take_rest [OF srt, of r "nat limit" y]
    by (simp add: page_desc_def)
qed

end
