(* ===== verification/Json.thy ===== *)
theory Json
  imports Prelude "HOL-Library.Multiset"
begin

text \<open>
  JSON values as the program handles them: what a column of type \<open>jsonb\<close> keeps of a
  document (\<open>jsonb_norm\<close>: of two members with one name the last, members in jsonb's key
  order), and the comparison \<open>jsonEqual\<close> of \<open>internal/config_store.go\<close>, which goes
  through Go's generic decoding and encoding (\<open>go_canonical\<close>). A JSON text that does not
  parse is \<open>None\<close>. Numerals are exact rationals; the rounding of Go's \<open>float64\<close> is the
  parameter \<open>f64\<close>.
\<close>

datatype json =
    JNull
  | JBool bool
  | JNum rat
  | JStr string
  | JArr "json list"
  | JObj "(string \<times> json) list"

section \<open>Members of an object\<close>

fun last_wins :: "('k \<times> 'v) list \<Rightarrow> ('k \<times> 'v) list" where
  "last_wins [] = []"
| "last_wins ((k, v) # kvs) = (if k \<in> fst ` set kvs then last_wins kvs else (k, v) # last_wins kvs)"

lemma set_last_wins: "set (last_wins kvs) \<subseteq> set kvs"
  by (induction kvs rule: last_wins.induct) auto

lemma keys_last_wins: "fst ` set (last_wins kvs) = fst ` set kvs"
  by (induction kvs rule: last_wins.induct) (auto simp: image_iff)

lemma distinct_last_wins: "distinct (map fst (last_wins kvs))"
  by (induction kvs rule: last_wins.induct) (auto simp: keys_last_wins)

lemma last_wins_distinct: "distinct (map fst kvs) \<Longrightarrow> last_wins kvs = kvs"
  by (induction kvs rule: last_wins.induct) auto

lemma last_wins_map: "last_wins (map (map_prod id f) kvs) = map (map_prod id f) (last_wins kvs)"
  by (induction kvs rule: last_wins.induct) (auto simp: image_iff)

lemma insort_key_map_commute:
  "insort_key g (h x) (map h xs) = map h (insort_key (\<lambda>a. g (h a)) x xs)"
  by (induction xs) auto

lemma sort_key_map_commute: "sort_key g (map h xs) = map h (sort_key (\<lambda>a. g (h a)) xs)"
  by (induction xs) (simp_all add: insort_key_map_commute)

lemma sort_key_sorted: "sorted (map f xs) \<Longrightarrow> sort_key f xs = xs"
  by (simp add: sorted_sort_id sort_key_id_if_sorted)

section \<open>What a jsonb column keeps\<close>

definition jsonb_members :: "(string \<times> 'v) list \<Rightarrow> (string \<times> 'v) list" where
  "jsonb_members kvs = sort_key (\<lambda>kv. (length (fst kv), fst kv)) (last_wins kvs)"

primrec jsonb_norm :: "json \<Rightarrow> json" where
  "jsonb_norm JNull = JNull"
| "jsonb_norm (JBool b) = JBool b"
| "jsonb_norm (JNum q) = JNum q"
| "jsonb_norm (JStr s) = JStr s"
| "jsonb_norm (JArr js) = JArr (map jsonb_norm js)"
| "jsonb_norm (JObj kvs) = JObj (jsonb_members (map (map_prod id jsonb_norm) kvs))"

lemma jsonb_members_map:
  "jsonb_members (map (map_prod id f) kvs) = map (map_prod id f) (jsonb_members kvs)"
  by (simp add: jsonb_members_def last_wins_map sort_key_map_commute comp_def)

lemma set_jsonb_members: "set (jsonb_members kvs) \<subseteq> set kvs"
  using set_last_wins by (simp add: jsonb_members_def)

lemma jsonb_members_idem: "jsonb_members (jsonb_members kvs) = jsonb_members kvs"
proof -
  have "last_wins (jsonb_members kvs) = jsonb_members kvs"
    by (rule last_wins_distinct)
      (simp add: jsonb_members_def distinct_sort_key_map distinct_last_wins del: distinct_map)
  then show ?thesis
    by (simp add: jsonb_members_def [of "jsonb_members kvs"]) (simp add: jsonb_members_def sort_key_sorted)
qed

lemma jsonb_norm_idem [simp]: "jsonb_norm (jsonb_norm j) = jsonb_norm j"
proof (induction j)
  case (JObj kvs)
  then have "map (map_prod id jsonb_norm) (map (map_prod id jsonb_norm) kvs) = map (map_prod id jsonb_norm) kvs"
    by auto
  then show ?case
    by (simp add: jsonb_members_map [symmetric] jsonb_members_idem del: map_map)
qed auto

section \<open>Go's canonical form and \<open>jsonEqual\<close>\<close>

definition go_members :: "(string \<times> 'v) list \<Rightarrow> (string \<times> 'v) list" where
  "go_members kvs = sort_key fst (last_wins kvs)"

primrec go_canonical :: "(rat \<Rightarrow> rat) \<Rightarrow> json \<Rightarrow> json" where
  "go_canonical f64 JNull = JNull"
| "go_canonical f64 (JBool b) = JBool b"
| "go_canonical f64 (JNum q) = JNum (f64 q)"
| "go_canonical f64 (JStr s) = JStr s"
| "go_canonical f64 (JArr js) = JArr (map (go_canonical f64) js)"
| "go_canonical f64 (JObj kvs) = JObj (go_members (map (map_prod id (go_canonical f64)) kvs))"

definition jsonEqual :: "(rat \<Rightarrow> rat) \<Rightarrow> json option \<Rightarrow> json option \<Rightarrow> bool option" where
  "jsonEqual f64 a b =
     (case a of None \<Rightarrow> None
      | Some av \<Rightarrow>
        (case b of None \<Rightarrow> None
         | Some bv \<Rightarrow> Some (go_canonical f64 av = go_canonical f64 bv)))"

text \<open>
  Storing a document as jsonb drops nothing that \<open>jsonEqual\<close> looks at: a specification
  compared with its own stored form matches.
\<close>

lemma go_members_jsonb_members: "go_members (jsonb_members kvs) = go_members kvs"
proof -
  have lw: "last_wins (jsonb_members kvs) = jsonb_members kvs"
    by (rule last_wins_distinct)
      (simp add: jsonb_members_def distinct_sort_key_map distinct_last_wins del: distinct_map)
  have "inj_on fst (set (jsonb_members kvs))"
    using distinct_last_wins [of kvs] by (simp add: jsonb_members_def distinct_map)
  then have "sort_key fst (jsonb_members kvs) = sort_key fst (last_wins kvs)"
    by (intro sort_key_inj_key_eq) (auto simp: jsonb_members_def)
  then show ?thesis
    unfolding go_members_def lw .
qed

lemma go_canonical_jsonb_norm: "go_canonical f64 (jsonb_norm j) = go_canonical f64 j"
proof (induction j)
  case (JObj kvs)
  then have "map (map_prod id (go_canonical f64)) (map (map_prod id jsonb_norm) kvs) =
      map (map_prod id (go_canonical f64)) kvs"
    by auto
  then have "go_members (map (map_prod id (go_canonical f64)) (jsonb_members (map (map_prod id jsonb_norm) kvs))) =
      go_members (map (map_prod id (go_canonical f64)) kvs)"
    by (simp add: jsonb_members_map [symmetric] go_members_jsonb_members del: map_map)
  then show ?case by simp
qed auto

lemma jsonEqual_stored: "jsonEqual f64 (Some j) (Some (jsonb_norm j)) = Some True"
  by (simp add: jsonEqual_def go_canonical_jsonb_norm)

lemma jsonEqual_sym: "jsonEqual f64 a b = jsonEqual f64 b a"
  by (auto simp: jsonEqual_def split: option.splits)

lemma jsonEqual_trans:
  "jsonEqual f64 a b = Some True \<Longrightarrow> jsonEqual f64 b c = Some True \<Longrightarrow> jsonEqual f64 a c = Some True"
  by (auto simp: jsonEqual_def split: option.splits)

end
