(* ===== verification/Database.thy ===== *)
theory Database
  imports Json
begin

text \<open>
  The database as the generated query code of \<open>postgres/\<close> sees it: one record per table
  (\<open>postgres/models.go\<close>), the whole database as a record of tables, and the world a call
  runs in. A query of \<open>postgres/queries.sql.go\<close> is an action on the world; the statements
  that several components share (users, id counters, notifications) are here, the others in
  the theory of their component.

  What the world holds besides the tables is what the program does not decide: the wall clock,
  the server's transaction timestamp, its collation and calendar, and at which statements the
  connection fails. Each statement and each clock reading moves the position by one, so the
  theorems, which hold for all these parameters, cover every failure at every statement.
\<close>

section \<open>Rows and tables\<close>

datatype user_kind = UserKindUser | UserKindUnit | UserKindOrg

datatype event_type = EventTypeUpdate | EventTypeDelete

datatype resource_kind = ResourceKindDocument | ResourceKindProperty

datatype schema_usage = SchemaUsageSettings | SchemaUsageMessages

record user_row =
  u_created :: int
  u_kind :: user_kind

record message_row =
  m_recipient :: string
  m_id :: int
  m_type :: "string option"
  m_created :: int
  m_created_by :: string
  m_doc_uuid :: "string option"
  m_doc_type :: "string option"
  m_payload :: json

record inbox_row =
  im_id :: int
  im_uuid :: string
  im_recipient :: string
  im_created :: int
  im_created_by :: string
  im_payload :: json

record inbox_state_row =
  ims_is_read :: bool
  ims_hidden :: bool
  ims_updated :: int

record document_row =
  d_owner :: string
  d_application :: string
  d_type :: string
  d_key :: string
  d_version :: int
  d_schema_version :: string
  d_title :: string
  d_created :: int
  d_updated :: int
  d_updated_by :: string
  d_payload :: json

record property_row =
  p_owner :: string
  p_application :: string
  p_key :: string
  p_value :: string
  p_created :: int
  p_updated :: int

record event_row =
  ev_id :: int
  ev_owner :: string
  ev_type :: event_type
  ev_resource_kind :: resource_kind
  ev_application :: string
  ev_document_type :: "string option"
  ev_key :: string
  ev_version :: "int option"
  ev_updated_by :: string
  ev_created :: int
  ev_payload :: "json option"

record schema_row =
  ds_name :: string
  ds_version :: string
  ds_spec :: json
  ds_usage :: schema_usage

record generation_row =
  cg_id :: int
  cg_identity_hash :: string
  cg_description :: string
  cg_created_at :: int
  cg_activated_at :: "int option"
  cg_active :: bool

record generation_schema_row =
  cgs_generation_id :: int
  cgs_name :: string
  cgs_version :: string
  cgs_ordinal :: int

record deprecation_row =
  dep_label :: string
  dep_enforced :: bool

section \<open>Notifications\<close>

text \<open>
  The payloads of \<open>pg_notify\<close>, one constructor per event type of the source, and the
  channel each is published on. The JSON encoding of these structs loses nothing, so the
  queue holds the structs.
\<close>

record message_event =
  me_ID :: int
  me_Recipient :: string

record inbox_state_event =
  ise_ID :: int
  ise_Recipient :: string
  ise_Subject :: string
  ise_CreatedBy :: string

record event_log_event =
  ele_ID :: int
  ele_Owner :: string

datatype notify_channel =
    NotifyChannelMessageUpdate
  | NotifyChannelInboxMessageUpdate
  | NotifyChannelInboxStateUpdate
  | NotifyChannelEventLogUpdate
  | NotifyChannelSchemaUpdate
  | NotifyChannelDeprecationUpdate

datatype event =
    MessageEvent message_event
  | InboxStateEvent inbox_state_event
  | EventLogEvent event_log_event
  | SchemaEvent string
  | DeprecationEvent string

section \<open>The database and the world\<close>

record db =
  users :: "string \<rightharpoonup> user_row"
  messages :: "message_row list"
  write_locks :: "string \<times> string \<rightharpoonup> int"
  inbox :: "inbox_row list"
  inbox_states :: "int \<times> string \<rightharpoonup> inbox_state_row"
  counters :: "string \<rightharpoonup> int"
  documents :: "document_row list"
  properties :: "property_row list"
  eventlog :: "event_row list"
  schemas :: "schema_row list"
  generations :: "generation_row list"
  generation_schemas :: "generation_schema_row list"
  deprecations :: "deprecation_row list"
  generation_seq :: int
  outbox :: "(notify_channel \<times> event) list"

text \<open>The database the migrations of \<open>schema/\<close> leave: empty tables and two counters at 0.\<close>

definition empty_db :: db where
  "empty_db = \<lparr>users = Map.empty, messages = [], write_locks = Map.empty, inbox = [],
     inbox_states = Map.empty, counters = [''eventlog'' \<mapsto> 0, ''inbox'' \<mapsto> 0],
     documents = [], properties = [], eventlog = [], schemas = [], generations = [],
     generation_schemas = [], deprecations = [], generation_seq = 0, outbox = []\<rparr>"

datatype store_error =
    DbFault
  | TxFault
  | ErrNoRows
  | NumericOutOfRange
  | NegativeLimit
  | UniqueViolation string
  | FkViolation string
  | ErrInboxMessageConflict
  | ErrInboxMessageNotFound
  | ErrInboxMessageExists int
  | ErrDocNotFound
  | ErrGenerationNotFound
  | ErrSchemaNotFound
  | ErrSchemaMismatch
  | ErrSchemaSpecMissing
  | ErrBadJson
  | ErrBadSchema
  | ErrNoActiveSchema schema_usage

record world =
  db :: db
  sql_now :: int
  clock :: "nat \<Rightarrow> int"
  fault :: "nat \<Rightarrow> bool"
  pos :: nat
  collate :: "string \<Rightarrow> string"
  two_weeks_before :: "int \<Rightarrow> int"
  six_months_before :: "int \<Rightarrow> int"

type_synonym 'a query = "(world, store_error, 'a) action"
type_synonym 'a stmt = "world \<Rightarrow> store_error + 'a \<times> db"

definition step_to :: "db \<Rightarrow> world \<Rightarrow> world" where
  "step_to d w = w\<lparr>db := d, pos := Suc (pos w)\<rparr>"

lemma step_to_simps [simp]:
  "db (step_to d w) = d" "sql_now (step_to d w) = sql_now w"
  "clock (step_to d w) = clock w" "fault (step_to d w) = fault w" "pos (step_to d w) = Suc (pos w)"
  "collate (step_to d w) = collate w" "two_weeks_before (step_to d w) = two_weeks_before w"
  "six_months_before (step_to d w) = six_months_before w"
  by (simp_all add: step_to_def)

text \<open>A statement either fails with the connection, or fails leaving the tables alone, or runs.\<close>

definition run_stmt :: "'a stmt \<Rightarrow> 'a query" where
  "run_stmt s w =
     (if fault w (pos w) then (Inl DbFault, step_to (db w) w)
      else case s w of
        Inl e \<Rightarrow> (Inl e, step_to (db w) w)
      | Inr (a, d) \<Rightarrow> (Inr a, step_to d w))"

definition time_now :: "int query" where
  "time_now w = (Inr (clock w (pos w)), step_to (db w) w)"

lemma run_stmt_Inr_iff:
  "run_stmt s w = (Inr a, w') \<longleftrightarrow>
     \<not> fault w (pos w) \<and> (\<exists>d. s w = Inr (a, d) \<and> w' = step_to d w)"
  by (auto simp: run_stmt_def split: sum.splits prod.splits)

lemma run_stmt_Inl_iff:
  "run_stmt s w = (Inl e, w') \<longleftrightarrow>
     (if fault w (pos w) then e = DbFault else s w = Inl e) \<and> w' = step_to (db w) w"
  by (auto simp: run_stmt_def split: sum.splits prod.splits)

lemma run_stmt_ok: "\<not> fault w (pos w) \<Longrightarrow> s w = Inr (a, d) \<Longrightarrow> run_stmt s w = (Inr a, step_to d w)"
  by (simp add: run_stmt_def)

lemma time_now_iff [simp]:
  "time_now w = (Inr t, w') \<longleftrightarrow> t = clock w (pos w) \<and> w' = step_to (db w) w"
  "time_now w = (Inl e, w') \<longleftrightarrow> False"
  by (auto simp: time_now_def)

text \<open>Statements move only the tables and the position.\<close>

definition same_env :: "world \<Rightarrow> world \<Rightarrow> bool" where
  "same_env v w \<longleftrightarrow> sql_now v = sql_now w \<and> clock v = clock w \<and> fault v = fault w \<and>
     collate v = collate w \<and> two_weeks_before v = two_weeks_before w \<and>
     six_months_before v = six_months_before w"

lemma same_env_refl [simp]: "same_env w w"
  by (simp add: same_env_def)

lemma same_env_trans: "same_env u v \<Longrightarrow> same_env v w \<Longrightarrow> same_env u w"
  by (simp add: same_env_def)

lemma same_env_step [simp]: "same_env w (step_to d w)" "same_env (step_to d w) w"
  by (simp_all add: same_env_def)

section \<open>Transactions\<close>

text \<open>
  \<open>pg.WithTX\<close> (package elephantine) is not under \<open>src/\<close>: a store operation takes the
  runner as an argument. What the code relies on is the contract below. The runner begins a
  transaction, at some server time and after other calls may have committed (the relation
  \<open>others\<close>), runs the body, commits when the body returns no error and rolls back otherwise,
  returning the body's error. Beginning may fail and committing may fail; when the commit fails
  the caller does not know whether the transaction was applied, so both outcomes are allowed. A
  sequence of the server (\<open>generation_seq\<close>) is not rolled back.
\<close>

type_synonym 'a tx_runner = "'a query \<Rightarrow> 'a query"

definition begun :: "db \<Rightarrow> int \<Rightarrow> nat \<Rightarrow> world \<Rightarrow> world" where
  "begun d t p w = w\<lparr>db := d, sql_now := t, pos := p\<rparr>"

definition rolled :: "db \<Rightarrow> world \<Rightarrow> world" where
  "rolled d w = w\<lparr>db := d\<lparr>generation_seq := generation_seq (db w)\<rparr>\<rparr>"

lemma begun_simps [simp]:
  "db (begun d t p w) = d" "sql_now (begun d t p w) = t" "pos (begun d t p w) = p"
  "clock (begun d t p w) = clock w" "fault (begun d t p w) = fault w"
  "collate (begun d t p w) = collate w" "two_weeks_before (begun d t p w) = two_weeks_before w"
  "six_months_before (begun d t p w) = six_months_before w"
  by (simp_all add: begun_def)

lemma db_rolled [simp]: "db (rolled d w) = d\<lparr>generation_seq := generation_seq (db w)\<rparr>"
  by (simp add: rolled_def)

inductive tx_result :: "(db \<Rightarrow> db \<Rightarrow> bool) \<Rightarrow> 'a query \<Rightarrow> world \<Rightarrow> (store_error + 'a) \<times> world \<Rightarrow> bool"
  for others body w where
  begin_failed: "others (db w) d \<Longrightarrow>
    tx_result others body w (Inl TxFault, w\<lparr>db := d, pos := p'\<rparr>)"
| rolled_back: "others (db w) d \<Longrightarrow> body (begun d t p w) = (Inl e, wc) \<Longrightarrow>
    tx_result others body w (Inl e, (rolled d wc)\<lparr>pos := p'\<rparr>)"
| committed: "others (db w) d \<Longrightarrow> body (begun d t p w) = (Inr a, wc) \<Longrightarrow>
    tx_result others body w (Inr a, wc\<lparr>pos := p'\<rparr>)"
| commit_failed: "others (db w) d \<Longrightarrow> body (begun d t p w) = (Inr a, wc) \<Longrightarrow>
    tx_result others body w (Inl TxFault, (rolled d wc)\<lparr>pos := p'\<rparr>)"
| commit_unacknowledged: "others (db w) d \<Longrightarrow> body (begun d t p w) = (Inr a, wc) \<Longrightarrow>
    tx_result others body w (Inl TxFault, wc\<lparr>pos := p'\<rparr>)"

definition tx_contract :: "(db \<Rightarrow> db \<Rightarrow> bool) \<Rightarrow> 'a tx_runner \<Rightarrow> bool" where
  "tx_contract others tx \<longleftrightarrow> (\<forall>body w. tx_result others body w (tx body w))"

inductive_cases tx_result_InrE: "tx_result others body w (Inr a, w')"
inductive_cases tx_result_InlE: "tx_result others body w (Inl e, w')"

text \<open>
  A runner that meets the contract: commit on success, roll back on error, no failures of its
  own and nobody else at work.
\<close>

definition run_tx :: "'a tx_runner" where
  "run_tx body w = (case body w of
      (Inl e, wc) \<Rightarrow> (Inl e, rolled (db w) wc)
    | (Inr a, wc) \<Rightarrow> (Inr a, wc))"

lemma begun_self: "begun (db w) (sql_now w) (pos w) w = w"
  by (simp add: begun_def)

lemma run_tx_contract:
  assumes "reflp others"
  shows "tx_contract others run_tx"
  unfolding tx_contract_def
proof (intro allI)
  fix body :: "'a query" and w :: world
  have refl: "others (db w) (db w)" using assms by (rule reflpD)
  obtain rb wc where b: "body w = (rb, wc)" by (cases "body w")
  show "tx_result others body w (run_tx body w)"
  proof (cases rb)
    case (Inl e)
    then show ?thesis
      using b tx_result.rolled_back [where others = others and body = body and w = w and d = "db w"
          and t = "sql_now w" and p = "pos w" and wc = wc and p' = "pos (rolled (db w) wc)"] refl
      by (simp add: run_tx_def begun_self)
  next
    case (Inr a)
    then show ?thesis
      using b tx_result.committed [where others = others and body = body and w = w and d = "db w"
          and t = "sql_now w" and p = "pos w" and wc = wc and p' = "pos wc"] refl
      by (simp add: run_tx_def begun_self)
  qed
qed

text \<open>
  The two ways a client uses the contract: a success is the body's, run to its commit; a failure
  is the body's own error with nothing changed, or the runner's, which leaves the tables as they
  were or as the body left them.
\<close>

lemma tx_contract_Inr:
  assumes "tx_contract others tx" "tx body w = (Inr a, w')"
  obtains d t p wc p' where "others (db w) d" "body (begun d t p w) = (Inr a, wc)" "w' = wc\<lparr>pos := p'\<rparr>"
  using assms by (metis tx_contract_def tx_result_InrE)

lemma tx_contract_Inl:
  assumes "tx_contract others tx" "tx body w = (Inl e, w')"
  obtains (body_failed) d t p wc where "others (db w) d" "body (begun d t p w) = (Inl e, wc)"
      "db w' = d\<lparr>generation_seq := generation_seq (db wc)\<rparr>"
    | (not_begun) "e = TxFault" "others (db w) (db w')"
    | (lost) d t p wc a where "e = TxFault" "others (db w) d" "body (begun d t p w) = (Inr a, wc)"
      "db w' = d\<lparr>generation_seq := generation_seq (db wc)\<rparr>"
    | (applied) d t p wc a where "e = TxFault" "others (db w) d" "body (begun d t p w) = (Inr a, wc)"
      "db w' = db wc"
proof -
  have "tx_result others body w (Inl e, w')"
    using assms by (metis tx_contract_def)
  then show thesis
  proof (rule tx_result_InlE)
    fix d p'
    assume "others (db w) d" "w' = w\<lparr>db := d, pos := p'\<rparr>" "e = TxFault"
    then show thesis by (auto intro: not_begun)
  next
    fix d t p wc p'
    assume "others (db w) d" "w' = rolled d wc\<lparr>pos := p'\<rparr>" "body (begun d t p w) = (Inl e, wc)"
    then show thesis by (auto intro: body_failed)
  next
    fix d t p a wc p'
    assume "others (db w) d" "w' = rolled d wc\<lparr>pos := p'\<rparr>" "e = TxFault"
      "body (begun d t p w) = (Inr a, wc)"
    then show thesis by (auto intro: lost)
  next
    fix d t p a wc p'
    assume "others (db w) d" "w' = wc\<lparr>pos := p'\<rparr>" "e = TxFault" "body (begun d t p w) = (Inr a, wc)"
    then show thesis by (auto intro: applied)
  qed
qed

section \<open>Statements several components share\<close>

text \<open>
  \<open>pg.TextOrNull\<close> sends the empty string to NULL; \<open>.String\<close> of a null text is the empty
  string again.
\<close>

definition text_or_null :: "string \<Rightarrow> string option" where
  "text_or_null s = (if s = [] then None else Some s)"

definition text_string :: "string option \<Rightarrow> string" where
  "text_string t = (case t of None \<Rightarrow> [] | Some s \<Rightarrow> s)"

lemma text_string_or_null [simp]: "text_string (text_or_null s) = s"
  by (simp add: text_string_def text_or_null_def)

definition has_prefix :: "string \<Rightarrow> string \<Rightarrow> bool" where
  "has_prefix s p \<longleftrightarrow> take (length p) s = p"

definition q_UpsertUser :: "string \<Rightarrow> int \<Rightarrow> user_kind \<Rightarrow> unit query" where
  "q_UpsertUser sub created kind = run_stmt (\<lambda>w.
     Inr ((), (db w)\<lparr>users :=
       (case users (db w) sub of
          None \<Rightarrow> (users (db w))(sub \<mapsto> \<lparr>u_created = created, u_kind = kind\<rparr>)
        | Some _ \<Rightarrow> users (db w))\<rparr>))"

definition q_Notify :: "notify_channel \<Rightarrow> event \<Rightarrow> unit query" where
  "q_Notify channel message = run_stmt (\<lambda>w.
     Inr ((), (db w)\<lparr>outbox := outbox (db w) @ [(channel, message)]\<rparr>))"

definition q_ReserveSequenceValues :: "int \<Rightarrow> string \<Rightarrow> int query" where
  "q_ReserveSequenceValues n name = run_stmt (\<lambda>w.
     (case counters (db w) name of
        None \<Rightarrow> Inl ErrNoRows
      | Some v \<Rightarrow>
          if in_bigint (v + n)
          then Inr (v + n, (db w)\<lparr>counters := (counters (db w))(name \<mapsto> v + n)\<rparr>)
          else Inl NumericOutOfRange))"

definition pgNotify :: "notify_channel \<Rightarrow> event \<Rightarrow> unit query" where
  "pgNotify channel payload = q_Notify channel payload"

text \<open>The effect of \<open>UpsertUser\<close> on the user table: an existing row is left alone.\<close>

definition with_user :: "string \<Rightarrow> int \<Rightarrow> user_kind \<Rightarrow> (string \<rightharpoonup> user_row) \<Rightarrow> (string \<rightharpoonup> user_row)" where
  "with_user sub created kind us =
     (case us sub of None \<Rightarrow> us(sub \<mapsto> \<lparr>u_created = created, u_kind = kind\<rparr>) | Some _ \<Rightarrow> us)"

lemma dom_with_user: "dom (with_user s t k us) = insert s (dom us)"
  by (auto simp: with_user_def split: option.splits)

lemma with_user_mono: "us x = Some u \<Longrightarrow> with_user s t k us x = Some u"
  by (auto simp: with_user_def split: option.splits)

lemma q_UpsertUser_iff [query_simps]:
  "q_UpsertUser s t k w = (Inr a, w') \<longleftrightarrow>
     \<not> fault w (pos w) \<and> w' = step_to ((db w)\<lparr>users := with_user s t k (users (db w))\<rparr>) w"
  by (auto simp: q_UpsertUser_def with_user_def run_stmt_Inr_iff)

lemma q_Notify_iff [query_simps]:
  "q_Notify c e w = (Inr a, w') \<longleftrightarrow>
     \<not> fault w (pos w) \<and> w' = step_to ((db w)\<lparr>outbox := outbox (db w) @ [(c, e)]\<rparr>) w"
  by (auto simp: q_Notify_def run_stmt_Inr_iff)

lemma pgNotify_iff [query_simps]:
  "pgNotify c e w = (Inr a, w') \<longleftrightarrow>
     \<not> fault w (pos w) \<and> w' = step_to ((db w)\<lparr>outbox := outbox (db w) @ [(c, e)]\<rparr>) w"
  by (simp add: pgNotify_def q_Notify_iff)

lemma q_ReserveSequenceValues_iff [query_simps]:
  "q_ReserveSequenceValues n name w = (Inr v, w') \<longleftrightarrow>
     \<not> fault w (pos w) \<and> (\<exists>u. counters (db w) name = Some u \<and> v = u + n \<and> in_bigint v \<and>
       w' = step_to ((db w)\<lparr>counters := (counters (db w))(name \<mapsto> v)\<rparr>) w)"
  by (auto simp: q_ReserveSequenceValues_def run_stmt_Inr_iff split: option.splits if_splits)

end
