(* ===== verification/Access.thy ===== *)
theory Access
  imports Database
begin

text \<open>
  Who is calling and what they may touch (\<open>internal/access.go\<close>), and the helpers the handlers
  share (\<open>internal/handlers.go\<close>). A call's context carries the scope check of elephantine's
  \<open>rpc\<close> package, the clock reading the handler makes and the caller's claims; \<open>HasScope\<close> is a
  method of elephantine's claims and so a function of the record. The error helpers of
  \<open>elephantine/rpc\<close> are constructors: an error is the helper that was called with its
  arguments.
\<close>

section \<open>Callers\<close>

record auth_info =
  Subject :: string
  Org :: string
  Units :: "string list"
  HasScope :: "string \<Rightarrow> bool"

definition ScopeUser :: string where "ScopeUser = ''user''"
definition ScopeDocAdmin :: string where "ScopeDocAdmin = ''doc_admin''"
definition ScopeSchemaAdmin :: string where "ScopeSchemaAdmin = ''schema_admin''"
definition ScopeSchemaRead :: string where "ScopeSchemaRead = ''schema_read''"

definition getAllOwners :: "auth_info \<Rightarrow> string list" where
  "getAllOwners auth =
     [Subject auth] @ (if Org auth \<noteq> [] then [Org auth] else []) @ Units auth"

definition isAllowedOwner :: "auth_info \<Rightarrow> string \<Rightarrow> bool" where
  "isAllowedOwner auth owner =
     (if owner = Subject auth then True
      else if owner = Org auth then True
      else owner \<in> set (Units auth))"

lemma isAllowedOwner_set:
  "owner \<noteq> [] \<Longrightarrow> isAllowedOwner auth owner \<longleftrightarrow> owner \<in> set (getAllOwners auth)"
  by (auto simp: isAllowedOwner_def getAllOwners_def)

lemma subject_in_owners [simp]: "Subject auth \<in> set (getAllOwners auth)"
  by (simp add: getAllOwners_def)

section \<open>RPC errors\<close>

datatype rpc_code = CodeInvalidArgument | CodeDeadlineExceeded | CodeCanceled

datatype rpc_error =
    ScopeError string
  | RequiredArgument string
  | InvalidArgument string string
  | InvalidArgumentf string string "string list"
  | PermissionDeniedf string "string list"
  | NotFound string
  | AlreadyExists string "string list"
  | Internalf string
  | Errorf rpc_code string "string list"
  | WithMeta rpc_error string string
  | Panic

record call_ctx =
  RequireAnyScope :: "string list \<Rightarrow> rpc_error + auth_info"
  Now :: int

text \<open>
  What the handlers rely on: \<open>rpc.RequireAnyScope\<close> answers with the caller only when the
  caller holds one of the scopes.
\<close>

definition scope_contract :: "call_ctx \<Rightarrow> bool" where
  "scope_contract ctx \<longleftrightarrow>
     (\<forall>scopes auth. RequireAnyScope ctx scopes = Inr auth \<longrightarrow> (\<exists>s \<in> set scopes. HasScope auth s))"

text \<open>A scope check that meets it: one caller, refused unless a scope matches.\<close>

definition caller_ctx :: "auth_info \<Rightarrow> int \<Rightarrow> call_ctx" where
  "caller_ctx auth now = \<lparr>RequireAnyScope = (\<lambda>scopes.
     if list_ex (HasScope auth) scopes then Inr auth else Inl (ScopeError ''permission_denied'')), Now = now\<rparr>"

lemma caller_ctx_contract: "scope_contract (caller_ctx auth now)"
  by (auto simp: scope_contract_def caller_ctx_def list_ex_iff split: if_splits)

section \<open>Waiting\<close>

datatype ctx_err = ContextDeadlineExceeded | ContextCanceled

definition waitEndedError :: "ctx_err \<Rightarrow> rpc_error" where
  "waitEndedError err =
     (if err = ContextDeadlineExceeded
      then Errorf CodeDeadlineExceeded ''the deadline for the call was exceeded'' []
      else Errorf CodeCanceled ''context cancelled'' [])"

text \<open>
  The \<open>select\<close> of a long poll ends with a notification, with the timer or with the context;
  meanwhile other calls move the world. The scheduler that decides is an argument.
\<close>

datatype wait_end = WaitNotified | WaitTimeout | WaitDone ctx_err

type_synonym 'w waiter = "'w \<Rightarrow> wait_end \<times> 'w"

section \<open>Validation errors\<close>

definition digit_char :: "nat \<Rightarrow> char" where
  "digit_char d = char_of (48 + d)"

fun itoa :: "nat \<Rightarrow> string" where
  "itoa n = (if n < 10 then [digit_char n] else itoa (n div 10) @ [digit_char (n mod 10)])"

declare itoa.simps [simp del]

fun with_results :: "rpc_error \<Rightarrow> nat \<Rightarrow> string list \<Rightarrow> rpc_error" where
  "with_results err i [] = err"
| "with_results err i (r # rs) = with_results (WithMeta err (itoa i) r) (Suc i) rs"

definition validationError :: "string list \<Rightarrow> rpc_error" where
  "validationError validationResult =
     (case validationResult of
        [] \<Rightarrow> Panic
      | first # _ \<Rightarrow>
          with_results
            (WithMeta
              (Errorf CodeInvalidArgument
                ''the document had %d validation errors, the first one is: %v''
                [itoa (length validationResult), first])
              ''err_count'' (itoa (length validationResult)))
            0 validationResult)"

text \<open>The metadata of an error: the last value attached under a key.\<close>

fun meta_of :: "rpc_error \<Rightarrow> string \<Rightarrow> string option" where
  "meta_of (WithMeta err k v) key = (if key = k then Some v else meta_of err key)"
| "meta_of _ key = None"

lemma digit_char_inj: "a < 10 \<Longrightarrow> b < 10 \<Longrightarrow> digit_char a = digit_char b \<longleftrightarrow> a = b"
  by (auto simp: digit_char_def char_of_eq_iff take_bit_eq_mod)

lemma itoa_not_Nil: "itoa n \<noteq> []" "[] \<noteq> itoa n"
  by (subst itoa.simps, simp)+

lemma itoa_inj: "itoa m = itoa n \<Longrightarrow> m = n"
proof (induction m arbitrary: n rule: itoa.induct)
  case (1 m)
  have "m < 10 \<and> n < 10 \<or> m < 10 \<and> \<not> n < 10 \<or> \<not> m < 10 \<and> n < 10 \<or> \<not> m < 10 \<and> \<not> n < 10"
    by blast
  then show ?case
  proof (elim disjE conjE)
    assume "m < 10" "n < 10"
    with "1.prems" show ?thesis by (simp add: itoa.simps [of m] itoa.simps [of n] digit_char_inj)
  next
    assume "m < 10" "\<not> n < 10"
    with "1.prems" show ?thesis
      by (simp add: itoa.simps [of m] itoa.simps [of n] itoa_not_Nil)
  next
    assume "\<not> m < 10" "n < 10"
    with "1.prems" show ?thesis
      by (simp add: itoa.simps [of m] itoa.simps [of n] itoa_not_Nil)
  next
    assume big: "\<not> m < 10" "\<not> n < 10"
    with "1.prems" have "itoa (m div 10) = itoa (n div 10)" "digit_char (m mod 10) = digit_char (n mod 10)"
      by (simp_all add: itoa.simps [of m] itoa.simps [of n])
    then have "m div 10 = n div 10" "m mod 10 = n mod 10"
      using "1.IH" big by (simp_all add: digit_char_inj)
    then show ?thesis by (metis div_mult_mod_eq)
  qed
qed

lemma itoa_inj_iff [simp]: "itoa m = itoa n \<longleftrightarrow> m = n"
  using itoa_inj by blast

lemma digit_char_not_e: "d < 10 \<Longrightarrow> digit_char d \<noteq> CHR ''e''"
  by (auto simp: digit_char_def char_of_eq_iff take_bit_eq_mod)

lemma itoa_hd: "\<exists>d < 10. hd (itoa n) = digit_char d"
proof (induction n rule: itoa.induct)
  case (1 n)
  show ?case
  proof (cases "n < 10")
    case True
    then show ?thesis by (subst itoa.simps) auto
  next
    case False
    with 1 show ?thesis by (subst itoa.simps) (simp add: itoa_not_Nil)
  qed
qed

lemma itoa_not_err_count: "itoa n \<noteq> ''err_count''"
  using itoa_hd [of n] digit_char_not_e by (metis list.sel(1))

lemma meta_of_with_results_at:
  "j < length rs \<Longrightarrow> meta_of (with_results err i rs) (itoa (i + j)) = Some (rs ! j)"
proof (induction rs arbitrary: err i j)
  case (Cons r rs)
  have other: "meta_of (with_results e (Suc i) rs) (itoa i) = meta_of e (itoa i)" for e
  proof -
    have "k > i \<Longrightarrow> meta_of (with_results e k xs) (itoa i) = meta_of e (itoa i)" for e k xs
      by (induction xs arbitrary: e k) auto
    then show ?thesis by simp
  qed
  show ?case
  proof (cases j)
    case 0
    then show ?thesis by (simp add: other)
  next
    case (Suc j')
    with Cons.prems have "meta_of (with_results (WithMeta err (itoa i) r) (Suc i) rs) (itoa (Suc i + j')) = Some (rs ! j')"
      by (intro Cons.IH) simp
    with Suc show ?thesis by simp
  qed
qed simp

lemma meta_of_with_results_other:
  "(\<And>j. key \<noteq> itoa j) \<Longrightarrow> meta_of (with_results err i rs) key = meta_of err key"
  by (induction rs arbitrary: err i) auto

section \<open>Page sizes\<close>

definition pollDefaultSize :: int where "pollDefaultSize = 10"
definition pollMaxSize :: int where "pollMaxSize = 100"

definition clampSize :: "int \<Rightarrow> int" where
  "clampSize n = (if n \<le> 0 then pollDefaultSize else min n pollMaxSize)"

lemma clampSize_pos: "0 < clampSize n"
  by (simp add: clampSize_def pollDefaultSize_def pollMaxSize_def)

lemma clampSize_nonneg [simp]: "\<not> clampSize n < 0"
  using clampSize_pos [of n] by simp

lemma clampSize_le: "clampSize n \<le> 100"
  by (simp add: clampSize_def pollDefaultSize_def pollMaxSize_def)

text \<open>
  \<open>time.RFC3339\<close> renders an instant with a precision of one second: the fields of a response
  that hold a formatted time hold that second.
\<close>

definition rfc3339 :: "int \<Rightarrow> int" where
  "rfc3339 t = t div 1000000"

end
