(* ===== verification/Streams.thy ===== *)
theory Streams
  imports Access
begin

text \<open>
  What a client that tails a table with a cursor is promised. The service has three such
  streams (system messages, inbox, eventlog), each read by \<open>id > after_id ORDER BY id LIMIT n\<close>.
  The locale \<open>cursor_stream\<close> is the interface a stream offers: pages are sorted, hold only
  rows past the cursor and leave out only later rows. Its client is the loop that polls and
  feeds back the last id (\<open>drain\<close>). \<open>commit_ordered_stream\<close> adds what the store promises of
  its writes: a new row's id is above everything that was ever readable. Its client polls while
  the store changes (\<open>tail_polls\<close>). The locales are interpreted on the model of the store.
\<close>

section \<open>The client's loops\<close>

fun last_id :: "('m \<Rightarrow> int) \<Rightarrow> int \<Rightarrow> 'm list \<Rightarrow> int" where
  "last_id ident after [] = after"
| "last_id ident after (m # ms) = last_id ident (ident m) ms"

lemma last_id_last: "ms \<noteq> [] \<Longrightarrow> last_id ident after ms = ident (last ms)"
  by (induction ms arbitrary: after) auto

lemma last_id_mem: "last_id ident after ms \<in> insert after (ident ` set ms)"
  by (induction ms arbitrary: after) auto

lemma last_id_upper:
  "sorted (map ident ms) \<Longrightarrow> m \<in> set ms \<Longrightarrow> ident m \<le> last_id ident after ms"
proof (induction ms arbitrary: after)
  case (Cons x xs)
  show ?case
  proof (cases "m = x")
    case True
    then show ?thesis
      using Cons.prems(1) last_id_mem [of ident "ident x" xs] by auto
  next
    case False
    then show ?thesis using Cons by simp
  qed
qed simp

text \<open>Poll until nothing comes back; the fuel is the number of polls allowed.\<close>

fun drain :: "(int \<Rightarrow> 'm list) \<Rightarrow> ('m \<Rightarrow> int) \<Rightarrow> nat \<Rightarrow> int \<Rightarrow> 'm list" where
  "drain fetch ident 0 after = []"
| "drain fetch ident (Suc k) after =
     (case fetch after of
        [] \<Rightarrow> []
      | ms \<Rightarrow> ms @ drain fetch ident k (last_id ident after ms))"

text \<open>One poll in each state of a run, the cursor carried from poll to poll.\<close>

fun tail_polls :: "('s \<Rightarrow> int \<Rightarrow> 'm list) \<Rightarrow> ('m \<Rightarrow> int) \<Rightarrow> int \<Rightarrow> 's list \<Rightarrow> 'm list \<times> int" where
  "tail_polls fetch ident after [] = ([], after)"
| "tail_polls fetch ident after (s # ss) =
     (let ms = fetch s after;
          (rest, c) = tail_polls fetch ident (last_id ident after ms) ss
      in (ms @ rest, c))"

text \<open>What a client collects depends on the rows only through their ids.\<close>

lemma last_id_ids: "map f xs = map g ys \<Longrightarrow> last_id f a xs = last_id g a ys"
  by (induction xs arbitrary: ys a) (auto simp: Cons_eq_map_conv)

lemma tail_polls_map:
  assumes "\<And>s a. map f (fetch1 s a) = map g (fetch2 s a)"
  shows "tail_polls fetch1 f a ss = (ms, c) \<Longrightarrow> \<exists>ms2. tail_polls fetch2 g a ss = (ms2, c) \<and> map f ms = map g ms2"
proof (induction ss arbitrary: a ms)
  case (Cons s ss)
  have same: "last_id f a (fetch1 s a) = last_id g a (fetch2 s a)" by (rule last_id_ids [OF assms])
  from Cons.prems obtain rest where r: "tail_polls fetch1 f (last_id f a (fetch1 s a)) ss = (rest, c)"
    and ms: "ms = fetch1 s a @ rest"
    by (auto simp: Let_def split: prod.splits)
  from Cons.IH [OF r] obtain rest2 where "tail_polls fetch2 g (last_id f a (fetch1 s a)) ss = (rest2, c)"
    "map f rest = map g rest2" by blast
  then show ?case using assms by (simp add: same ms)
qed simp

lemma drain_map:
  assumes "\<And>a. fetch1 a = map h (fetch2 a)" "\<And>x. f (h x) = g x"
  shows "drain fetch1 f k a = map h (drain fetch2 g k a)"
proof (induction k arbitrary: a)
  case (Suc k)
  have same: "last_id f a (fetch1 a) = last_id g a (fetch2 a)"
    by (rule last_id_ids) (simp add: assms comp_def)
  show ?case
  proof (cases "fetch2 a")
    case (Cons x xs)
    then have "fetch1 a = h x # map h xs" by (simp add: assms(1))
    then show ?thesis using Cons Suc.IH [of "last_id g a (fetch2 a)"] same by simp
  qed (simp add: assms(1))
qed simp

section \<open>The interface of a stream\<close>

locale cursor_stream =
  fixes fetch :: "'s \<Rightarrow> int \<Rightarrow> int \<Rightarrow> 'm list"
    and ident :: "'m \<Rightarrow> int"
    and readable :: "'s \<Rightarrow> 'm list"
    and ok :: "'s \<Rightarrow> bool"
  assumes fetch_sound: "m \<in> set (fetch s after n) \<Longrightarrow> m \<in> set (readable s) \<and> after < ident m"
    and fetch_sorted: "ok s \<Longrightarrow> sorted_wrt (<) (map ident (fetch s after n))"
    and fetch_length: "length (fetch s after n) \<le> nat n"
    and fetch_complete: "ok s \<Longrightarrow> 0 < n \<Longrightarrow> m \<in> set (readable s) \<Longrightarrow> after < ident m \<Longrightarrow>
      m \<notin> set (fetch s after n) \<Longrightarrow> fetch s after n \<noteq> [] \<and> (\<forall>y \<in> set (fetch s after n). ident y < ident m)"
begin

lemma fetch_ascending: "ok s \<Longrightarrow> sorted (map ident (fetch s after n))"
  using fetch_sorted by (simp add: strict_sorted_iff)

lemma cursor_monotone: "ok s \<Longrightarrow> after \<le> last_id ident after (fetch s after n)"
  using last_id_mem [of ident after "fetch s after n"] fetch_sound [of _ s after n] by force

text \<open>Nothing readable lies between the old cursor and the new one except what was returned.\<close>

lemma fetch_no_gap:
  assumes "ok s" "0 < n" "m \<in> set (readable s)" "after < ident m"
    and "ident m \<le> last_id ident after (fetch s after n)"
  shows "m \<in> set (fetch s after n)"
proof (rule ccontr)
  assume out: "m \<notin> set (fetch s after n)"
  with fetch_complete [OF assms(1-4)] have "fetch s after n \<noteq> []"
    and less: "\<forall>y \<in> set (fetch s after n). ident y < ident m" by auto
  then have "last_id ident after (fetch s after n) < ident m"
    by (simp add: last_id_last)
  with assms(5) show False by simp
qed

text \<open>
  What this means for an answer made of a page: \<open>items\<close> carry the ids of the rows and the last of
  them is the new cursor.
\<close>

lemma answered_page:
  assumes "ok s" "0 < n" "map rid items = map ident (fetch s after n)"
  shows "sorted_wrt (<) (map rid items)" "length items \<le> nat n"
    and "r \<in> set items \<Longrightarrow> after < rid r"
    and "after \<le> last_id rid after items"
    and "x \<in> set (readable s) \<Longrightarrow> after < ident x \<Longrightarrow> ident x \<le> last_id rid after items \<Longrightarrow> ident x \<in> rid ` set items"
proof -
  have last: "last_id rid after items = last_id ident after (fetch s after n)" by (rule last_id_ids [OF assms(3)])
  have ids: "rid ` set items = ident ` set (fetch s after n)" by (metis assms(3) set_map)
  show "sorted_wrt (<) (map rid items)" unfolding assms(3) by (rule fetch_sorted [OF assms(1)])
  show "length items \<le> nat n" using fetch_length [of s after n] assms(3) by (metis length_map)
  show "r \<in> set items \<Longrightarrow> after < rid r" using fetch_sound [of _ s after n] ids by (metis image_iff)
  show "after \<le> last_id rid after items" unfolding last by (rule cursor_monotone [OF assms(1)])
  show "x \<in> set (readable s) \<Longrightarrow> after < ident x \<Longrightarrow> ident x \<le> last_id rid after items \<Longrightarrow> ident x \<in> rid ` set items"
    unfolding last ids by (rule imageI) (rule fetch_no_gap [OF assms(1,2)])
qed

lemma fetch_empty_iff:
  assumes "ok s" "0 < n"
  shows "fetch s after n = [] \<longleftrightarrow> (\<forall>m \<in> set (readable s). ident m \<le> after)"
proof
  assume "fetch s after n = []"
  then show "\<forall>m \<in> set (readable s). ident m \<le> after"
    using fetch_complete [OF assms, of _ after] by force
next
  assume "\<forall>m \<in> set (readable s). ident m \<le> after"
  then show "fetch s after n = []"
    using fetch_sound [of _ s after n] by (metis leD list.set_intros(1) neq_Nil_conv)
qed

text \<open>
  Draining a stream that does not change: with as much fuel as there are unread rows, every
  unread row comes exactly once, in order.
\<close>

lemma drain_sound: "m \<in> set (drain (\<lambda>a. fetch s a n) ident k after) \<Longrightarrow>
    ok s \<Longrightarrow> m \<in> set (readable s) \<and> after < ident m"
proof (induction k arbitrary: after)
  case (Suc k)
  show ?case
  proof (cases "fetch s after n")
    case (Cons x xs)
    let ?c = "last_id ident after (fetch s after n)"
    from Suc.prems(1) Cons consider "m \<in> set (fetch s after n)"
      | "m \<in> set (drain (\<lambda>a. fetch s a n) ident k ?c)" by auto
    then show ?thesis
    proof cases
      case 1
      then show ?thesis using fetch_sound by simp
    next
      case 2
      then show ?thesis
        using Suc.IH [of ?c] Suc.prems(2) cursor_monotone [of s after n] by force
    qed
  qed (use Suc.prems in simp)
qed simp

lemma drain_complete:
  assumes "ok s" "0 < n"
    and "card (ident ` {m \<in> set (readable s). after < ident m}) \<le> k"
  shows "set (drain (\<lambda>a. fetch s a n) ident k after) = {m \<in> set (readable s). after < ident m}"
  using assms(3)
proof (induction k arbitrary: after)
  case 0
  then show ?case by auto
next
  case (Suc k)
  let ?ms = "fetch s after n" and ?unread = "\<lambda>a. {m \<in> set (readable s). a < ident m}"
  show ?case
  proof (cases "?ms = []")
    case True
    then show ?thesis using fetch_empty_iff [OF assms(1,2), of after] by auto
  next
    case False
    let ?c = "last_id ident after ?ms"
    have c: "?c \<in> ident ` set ?ms" using False by (simp add: last_id_last)
    then have "?c \<in> ident ` ?unread after" using fetch_sound [of _ s after n] by auto
    moreover have "?c \<notin> ident ` ?unread ?c" by auto
    moreover have "?unread ?c \<subseteq> ?unread after"
      using cursor_monotone [OF assms(1), of after n] by auto
    ultimately have "card (ident ` ?unread ?c) < card (ident ` ?unread after)"
      by (intro psubset_card_mono) auto
    then have IH: "set (drain (\<lambda>a. fetch s a n) ident k ?c) = ?unread ?c"
      using Suc.prems by (intro Suc.IH) simp
    have "set (drain (\<lambda>a. fetch s a n) ident (Suc k) after) = set ?ms \<union> ?unread ?c"
      using False IH by (cases ?ms) auto
    also have "\<dots> = ?unread after"
      using fetch_sound [of _ s after n] fetch_no_gap [OF assms(1,2), of _ after]
        cursor_monotone [OF assms(1), of after n] by force
    finally show ?thesis .
  qed
qed

lemma drain_sorted:
  assumes "ok s"
  shows "sorted_wrt (<) (map ident (drain (\<lambda>a. fetch s a n) ident k after))"
proof (induction k arbitrary: after)
  case (Suc k)
  show ?case
  proof (cases "fetch s after n")
    case (Cons x xs)
    let ?ms = "fetch s after n"
    let ?c = "last_id ident after ?ms"
    have "\<forall>y \<in> set ?ms. ident y \<le> ?c"
      using last_id_upper [OF fetch_ascending [OF assms]] by blast
    moreover have "\<forall>y \<in> set (drain (\<lambda>a. fetch s a n) ident k ?c). ?c < ident y"
      using drain_sound [OF _ assms] by blast
    ultimately have "\<forall>y \<in> set ?ms. \<forall>z \<in> set (drain (\<lambda>a. fetch s a n) ident k ?c). ident y < ident z"
      by force
    then show ?thesis
      using Cons Suc.IH [of ?c] fetch_sorted [OF assms, of after n]
      by (auto simp: sorted_wrt_append sorted_wrt_map)
  qed simp
qed simp

end

text \<open>
  A page of the rows past the cursor is such a stream whenever ids are unique among the
  readable rows: the three streams of the service are instances of this.
\<close>

definition page_after :: "('m \<Rightarrow> int) \<Rightarrow> 'm list \<Rightarrow> int \<Rightarrow> int \<Rightarrow> 'm list" where
  "page_after ident rows after n = page_asc ident n (filter (\<lambda>m. after < ident m) rows)"

lemma page_after_stream:
  assumes "\<And>s. ok s \<Longrightarrow> distinct (map ident (readable s))"
  shows "cursor_stream (\<lambda>s. page_after ident (readable s)) ident readable ok"
proof
  show "m \<in> set (page_after ident (readable s) after n) \<Longrightarrow> m \<in> set (readable s) \<and> after < ident m"
    for m s after n
    using set_page_asc [of ident n "filter (\<lambda>m. after < ident m) (readable s)"]
    by (auto simp: page_after_def)
  show "ok s \<Longrightarrow> sorted_wrt (<) (map ident (page_after ident (readable s) after n))" for s after n
    by (simp add: page_after_def strict_page_asc distinct_map_filter assms)
  show "length (page_after ident (readable s) after n) \<le> nat n" for s after n
    by (simp add: page_after_def length_page_asc)
  fix s n m after
  let ?rows = "filter (\<lambda>m. after < ident m) (readable s)"
  assume "ok s" and n: "0 < n" and m: "m \<in> set (readable s)" "after < ident m"
    and out: "m \<notin> set (page_after ident (readable s) after n)"
  have dist: "inj_on ident (set (readable s))"
    using assms [OF \<open>ok s\<close>] by (simp add: distinct_map)
  have mr: "m \<in> set ?rows" using m by simp
  have out': "m \<notin> set (page_asc ident n ?rows)" using out by (simp add: page_after_def)
  have "page_asc ident n ?rows \<noteq> []"
    using page_asc_complete(1) [OF mr out'] n by force
  moreover have "ident y < ident m" if y: "y \<in> set (page_asc ident n ?rows)" for y
  proof -
    have "ident y \<le> ident m" using page_asc_complete(2) [OF mr out' y] .
    moreover have "y \<in> set ?rows" using set_page_asc [of ident n ?rows] y by blast
    then have "ident y \<noteq> ident m" using dist m y out' by (auto simp: inj_on_def)
    ultimately show ?thesis by simp
  qed
  ultimately show "page_after ident (readable s) after n \<noteq> [] \<and>
      (\<forall>y \<in> set (page_after ident (readable s) after n). ident y < ident m)"
    by (simp add: page_after_def)
qed

section \<open>Streams whose ids come in commit order\<close>

fun run_of :: "('s \<Rightarrow> 's \<Rightarrow> bool) \<Rightarrow> 's \<Rightarrow> 's list \<Rightarrow> bool" where
  "run_of step s [] \<longleftrightarrow> True"
| "run_of step s (t # ts) \<longleftrightarrow> step\<^sup>*\<^sup>* s t \<and> run_of step t ts"

lemma run_of_last: "run_of step s ss \<Longrightarrow> ss \<noteq> [] \<Longrightarrow> step\<^sup>*\<^sup>* s (last ss)"
proof (induction ss arbitrary: s)
  case (Cons t ts)
  then show ?case by (cases "ts = []") (auto intro: rtranclp_trans)
qed simp

locale commit_ordered_stream = cursor_stream fetch ident readable ok
  for fetch :: "'s \<Rightarrow> int \<Rightarrow> int \<Rightarrow> 'm list"
    and ident :: "'m \<Rightarrow> int" and readable :: "'s \<Rightarrow> 'm list" and ok :: "'s \<Rightarrow> bool" +
  fixes step :: "'s \<Rightarrow> 's \<Rightarrow> bool"
    and top :: "'s \<Rightarrow> int"
  assumes step_ok: "ok s \<Longrightarrow> step s t \<Longrightarrow> ok t"
    and step_top: "ok s \<Longrightarrow> step s t \<Longrightarrow> top s \<le> top t"
    and step_new: "ok s \<Longrightarrow> step s t \<Longrightarrow> m \<in> set (readable t) \<Longrightarrow>
      ident m \<in> ident ` set (readable s) \<or> top s < ident m"
    and ids_below_top: "ok s \<Longrightarrow> m \<in> set (readable s) \<Longrightarrow> ident m \<le> top s"
begin

lemma steps_ok: "step\<^sup>*\<^sup>* s t \<Longrightarrow> ok s \<Longrightarrow> ok t"
  by (induction rule: rtranclp_induct) (auto intro: step_ok)

lemma steps_top: "step\<^sup>*\<^sup>* s t \<Longrightarrow> ok s \<Longrightarrow> top s \<le> top t"
  by (induction rule: rtranclp_induct) (auto intro: step_top steps_ok order_trans)

lemma steps_new:
  "step\<^sup>*\<^sup>* s t \<Longrightarrow> ok s \<Longrightarrow> m \<in> set (readable t) \<Longrightarrow>
     ident m \<in> ident ` set (readable s) \<or> top s < ident m"
proof (induction arbitrary: m rule: rtranclp_induct)
  case (step t u)
  have "ok t" using step.hyps(1) step.prems(1) by (rule steps_ok)
  from step_new [OF this step.hyps(2) step.prems(2)] show ?case
  proof
    assume "ident m \<in> ident ` set (readable t)"
    then obtain m' where "m' \<in> set (readable t)" "ident m' = ident m" by auto
    then show ?thesis using step.IH step.prems(1) by metis
  next
    assume "top t < ident m"
    then show ?thesis using steps_top [OF step.hyps(1) step.prems(1)] by simp
  qed
qed auto

text \<open>
  The cursor never passes the highest id handed out, so what commits later is still ahead of it.
\<close>

lemma cursor_below_top:
  assumes "ok s" "after \<le> top s"
  shows "last_id ident after (fetch s after n) \<le> top s"
  using last_id_mem [of ident after "fetch s after n"] fetch_sound [of _ s after n]
    ids_below_top [OF assms(1)] assms(2) by force

text \<open>
  Tailing a changing store skips nothing: every row readable at the end whose id lies past the
  start and up to the final cursor has been delivered, whatever committed between the polls.
\<close>

lemma tail_no_skip:
  assumes "run_of step s ss" "ok s" "0 < n" "after \<le> top s"
    and "tail_polls (\<lambda>t a. fetch t a n) ident after ss = (ms, c)" "ss \<noteq> []"
    and "m \<in> set (readable (last ss))" "after < ident m" "ident m \<le> c"
  shows "ident m \<in> ident ` set ms"
  using assms(1,2,4-9)
proof (induction ss arbitrary: s after ms)
  case (Cons t ts)
  have steps: "step\<^sup>*\<^sup>* s t" and run: "run_of step t ts" using Cons.prems(1) by auto
  have ok: "ok t" using steps Cons.prems(2) by (rule steps_ok)
  have "top s \<le> top t" using steps Cons.prems(2) by (rule steps_top)
  then have below: "last_id ident after (fetch t after n) \<le> top t"
    using cursor_below_top [OF ok] Cons.prems(3) by simp
  let ?c = "last_id ident after (fetch t after n)"
  obtain rest where rest: "tail_polls (\<lambda>t a. fetch t a n) ident ?c ts = (rest, c)"
    and ms: "ms = fetch t after n @ rest"
    using Cons.prems(4) by (auto simp: Let_def split: prod.splits)
  show ?case
  proof (cases "?c < ident m")
    case True
    then have "ts \<noteq> []" using rest Cons.prems(8) by auto
    then have "ident m \<in> ident ` set rest"
      using Cons.IH [OF run ok below rest] True Cons.prems(6,8) by simp
    then show ?thesis by (simp add: ms image_Un)
  next
    case False
    have "step\<^sup>*\<^sup>* t (last (t # ts))"
      using run by (induction ts arbitrary: t) (auto intro: rtranclp_trans)
    from steps_new [OF this ok Cons.prems(6)] False below
    obtain m' where m': "m' \<in> set (readable t)" "ident m' = ident m" by fastforce
    then have "m' \<in> set (fetch t after n)"
      using fetch_no_gap [OF ok assms(3) m'(1)] Cons.prems(7) False by simp
    then show ?thesis using m'(2) by (metis UnI1 imageI ms set_append)
  qed
qed simp

text \<open>And delivers each row once, in ascending order.\<close>

lemma tail_sorted:
  assumes "run_of step s ss" "ok s" "tail_polls (\<lambda>t a. fetch t a n) ident after ss = (ms, c)"
  shows "sorted_wrt (<) (map ident ms) \<and> (\<forall>m \<in> set ms. after < ident m) \<and> after \<le> c"
  using assms
proof (induction ss arbitrary: s after ms)
  case (Cons t ts)
  have ok: "ok t" using Cons.prems(1,2) steps_ok by auto
  let ?f = "fetch t after n"
  let ?c = "last_id ident after ?f"
  obtain rest where rest: "tail_polls (\<lambda>t a. fetch t a n) ident ?c ts = (rest, c)"
    and ms: "ms = ?f @ rest"
    using Cons.prems(3) by (auto simp: Let_def split: prod.splits)
  have IH: "sorted_wrt (<) (map ident rest)" "\<forall>m \<in> set rest. ?c < ident m" "?c \<le> c"
    using Cons.IH [OF _ ok rest] Cons.prems(1) by auto
  have "\<forall>y \<in> set ?f. ident y \<le> ?c"
    using last_id_upper [OF fetch_ascending [OF ok]] by blast
  then have "\<forall>y \<in> set ?f. \<forall>z \<in> set rest. ident y < ident z" using IH(2) by force
  then show ?case
    using IH fetch_sorted [OF ok, of after n] fetch_sound [of _ t after n] cursor_monotone [OF ok, of after n]
    by (force simp: ms sorted_wrt_append sorted_wrt_map)
qed simp

text \<open>What a client sees of it that is given the same ids in a form of its own.\<close>

lemma tail_view:
  assumes run: "run_of step s ss" "ss \<noteq> []" and start: "ok s" "0 < n" "after \<le> top s"
    and ids: "\<And>t a. map gid (g t a) = map ident (fetch t a n)"
    and polls: "tail_polls g gid after ss = (es, c)"
  shows "sorted_wrt (<) (map gid es) \<and>
    (\<forall>m \<in> set (readable (last ss)). after < ident m \<and> ident m \<le> c \<longrightarrow> ident m \<in> gid ` set es)"
proof -
  obtain ms where ms: "tail_polls (\<lambda>t a. fetch t a n) ident after ss = (ms, c)" "map gid es = map ident ms"
    using tail_polls_map [OF ids polls] by blast
  have "gid ` set es = ident ` set ms" using ms(2) by (metis set_map)
  then show ?thesis
    using tail_sorted [OF run(1) start(1) ms(1)] tail_no_skip [OF run(1) start ms(1) run(2)] ms(2) by simp
qed

text \<open>
  The same stream seen through another machine, whose steps leave the state behind it alone or take one
  step of it.
\<close>

lemma lifted:
  assumes "\<And>m. ok' m \<Longrightarrow> ok (state m)" "\<And>m m'. ok' m \<Longrightarrow> step' m m' \<Longrightarrow> ok' m'"
    and "\<And>m m'. ok' m \<Longrightarrow> step' m m' \<Longrightarrow> state m' = state m \<or> step (state m) (state m')"
  shows "commit_ordered_stream (\<lambda>m. fetch (state m)) ident (\<lambda>m. readable (state m)) ok' step' (\<lambda>m. top (state m))"
proof
  fix m m' x
  assume m: "ok' m" and step: "step' m m'"
  note moved = assms(3) [OF m step] and ok = assms(1) [OF m]
  show "ok' m'" using assms(2) [OF m step] .
  show "top (state m) \<le> top (state m')" using moved step_top [OF ok] by auto
  assume "x \<in> set (readable (state m'))"
  then show "ident x \<in> ident ` set (readable (state m)) \<or> top (state m) < ident x" using moved step_new [OF ok] by auto
qed (use assms(1) fetch_sorted fetch_sound fetch_length fetch_complete ids_below_top in \<open>blast+\<close>)

end

end
