(* ===== verification/Messages_Store.thy ===== *)
theory Messages_Store
  imports Streams
begin

text \<open>
  System messages and the inbox in the store: the statements of \<open>postgres/queries.sql.go\<close> on
  the tables \<open>message\<close>, \<open>message_write_lock\<close>, \<open>inbox_message\<close> and \<open>inbox_message_state\<close>,
  and the operations of \<open>internal/messages_store.go\<close> built from them. A transaction's body is
  a definition of its own (\<open>\<dots>_tx\<close>); the operation hands it to the runner it is given.
\<close>

section \<open>The messages contract (\<open>internal/messages.go\<close>)\<close>

record inbox_reader =
  ir_Owners :: "string list"
  ir_Subject :: string

record inbox_message =
  ib_ID :: int
  ib_UUID :: string
  ib_Recipient :: string
  ib_Created :: int
  ib_CreatedBy :: string
  ib_IsRead :: bool
  ib_Payload :: json

record message =
  msg_Recipient :: string
  msg_ID :: int
  msg_Type :: string
  msg_Created :: int
  msg_CreatedBy :: string
  msg_DocUUID :: "string option"
  msg_DocType :: string
  msg_Payload :: json

datatype message_type = MessageTypeSystem | MessageTypeInbox

fun message_type_string :: "message_type \<Rightarrow> string" where
  "message_type_string MessageTypeSystem = ''system''"
| "message_type_string MessageTypeInbox = ''inbox''"

definition sequenceInbox :: string where "sequenceInbox = ''inbox''"

definition inboxMessageStateFK :: string where
  "inboxMessageStateFK = ''inbox_message_state_message_id_fkey''"

section \<open>Statements\<close>

definition max_or_zero :: "int list \<Rightarrow> int" where
  "max_or_zero ids = (if ids = [] then 0 else Max (set ids))"

definition state_hidden :: "db \<Rightarrow> string \<Rightarrow> inbox_row \<Rightarrow> bool" where
  "state_hidden d subject m =
     (case inbox_states d (im_id m, subject) of None \<Rightarrow> False | Some s \<Rightarrow> ims_hidden s)"

definition state_read :: "db \<Rightarrow> string \<Rightarrow> inbox_row \<Rightarrow> bool" where
  "state_read d subject m =
     (case inbox_states d (im_id m, subject) of None \<Rightarrow> False | Some s \<Rightarrow> ims_is_read s)"

definition q_GetLatestMessageId :: "string \<Rightarrow> int query" where
  "q_GetLatestMessageId recipient = run_stmt (\<lambda>w.
     Inr (max_or_zero (map m_id (filter (\<lambda>m. m_recipient m = recipient) (messages (db w)))), db w))"

definition q_ListMessagesAfterId :: "string \<Rightarrow> int \<Rightarrow> int \<Rightarrow> message_row list query" where
  "q_ListMessagesAfterId recipient afterID limit = run_stmt (\<lambda>w.
     if limit < 0 then Inl NegativeLimit
     else Inr (page_asc m_id limit
       (filter (\<lambda>m. m_recipient m = recipient \<and> afterID < m_id m) (messages (db w))), db w))"

definition q_NextMessageID :: "string \<Rightarrow> string \<Rightarrow> int query" where
  "q_NextMessageID recipient messageType = run_stmt (\<lambda>w.
     (case write_locks (db w) (recipient, messageType) of
        None \<Rightarrow>
          if users (db w) recipient = None then Inl (FkViolation ''message_write_lock_recipient_fkey'')
          else Inr (1, (db w)\<lparr>write_locks := (write_locks (db w))((recipient, messageType) \<mapsto> 1)\<rparr>)
      | Some c \<Rightarrow>
          if in_bigint (c + 1)
          then Inr (c + 1, (db w)\<lparr>write_locks := (write_locks (db w))((recipient, messageType) \<mapsto> c + 1)\<rparr>)
          else Inl NumericOutOfRange))"

definition q_InsertMessage :: "message_row \<Rightarrow> unit query" where
  "q_InsertMessage row = run_stmt (\<lambda>w.
     if (m_recipient row, m_id row) \<in> (\<lambda>m. (m_recipient m, m_id m)) ` set (messages (db w))
     then Inl (UniqueViolation ''message_pkey'')
     else if users (db w) (m_recipient row) = None then Inl (FkViolation ''message_recipient_fkey'')
     else Inr ((), (db w)\<lparr>messages := messages (db w) @ [row\<lparr>m_payload := jsonb_norm (m_payload row)\<rparr>]\<rparr>))"

definition q_DeleteOldMessages :: "unit query" where
  "q_DeleteOldMessages = run_stmt (\<lambda>w.
     Inr ((), (db w)\<lparr>messages :=
       filter (\<lambda>m. \<not> m_created m < two_weeks_before w (sql_now w)) (messages (db w))\<rparr>))"

definition q_GetLatestInboxMessageId :: "string list \<Rightarrow> int query" where
  "q_GetLatestInboxMessageId owners = run_stmt (\<lambda>w.
     Inr (max_or_zero (map im_id (filter (\<lambda>m. im_recipient m \<in> set owners) (inbox (db w)))), db w))"

definition q_ListInboxMessagesBeforeId ::
    "string \<Rightarrow> string list \<Rightarrow> int \<Rightarrow> int \<Rightarrow> (inbox_row \<times> bool) list query" where
  "q_ListInboxMessagesBeforeId subject owners beforeID limit = run_stmt (\<lambda>w.
     if limit < 0 then Inl NegativeLimit
     else Inr (map (\<lambda>m. (m, state_read (db w) subject m))
       (page_desc im_id limit
         (filter (\<lambda>m. im_recipient m \<in> set owners \<and> (beforeID = 0 \<or> im_id m < beforeID) \<and>
            \<not> state_hidden (db w) subject m) (inbox (db w)))), db w))"

definition q_ListInboxMessagesAfterId ::
    "string \<Rightarrow> string list \<Rightarrow> int \<Rightarrow> int \<Rightarrow> (inbox_row \<times> bool) list query" where
  "q_ListInboxMessagesAfterId subject owners afterID limit = run_stmt (\<lambda>w.
     if limit < 0 then Inl NegativeLimit
     else Inr (map (\<lambda>m. (m, state_read (db w) subject m))
       (page_asc im_id limit
         (filter (\<lambda>m. im_recipient m \<in> set owners \<and> afterID < im_id m \<and>
            \<not> state_hidden (db w) subject m) (inbox (db w)))), db w))"

definition q_GetInboxMessageByUUID :: "json \<Rightarrow> string \<Rightarrow> string \<Rightarrow> (int \<times> bool) query" where
  "q_GetInboxMessageByUUID payload recipient uuid = run_stmt (\<lambda>w.
     (case row_at (\<lambda>m. (im_recipient m, im_uuid m)) (recipient, uuid) (inbox (db w)) of
        None \<Rightarrow> Inl ErrNoRows
      | Some m \<Rightarrow> Inr ((im_id m, im_payload m = jsonb_norm payload), db w)))"

definition q_InsertInboxMessage :: "inbox_row \<Rightarrow> unit query" where
  "q_InsertInboxMessage row = run_stmt (\<lambda>w.
     if im_id row \<in> im_id ` set (inbox (db w)) then Inl (UniqueViolation ''inbox_message_pkey'')
     else if (im_recipient row, im_uuid row) \<in> (\<lambda>m. (im_recipient m, im_uuid m)) ` set (inbox (db w))
     then Inl (UniqueViolation ''inbox_message_recipient_uuid_key'')
     else Inr ((), (db w)\<lparr>inbox := inbox (db w) @ [row\<lparr>im_payload := jsonb_norm (im_payload row)\<rparr>]\<rparr>))"

definition q_GetInboxMessageForReader :: "int \<Rightarrow> string list \<Rightarrow> (int \<times> string \<times> string) query" where
  "q_GetInboxMessageForReader msgID owners = run_stmt (\<lambda>w.
     (case find (\<lambda>m. im_id m = msgID \<and> im_recipient m \<in> set owners) (inbox (db w)) of
        None \<Rightarrow> Inl ErrNoRows
      | Some m \<Rightarrow> Inr ((im_id m, im_recipient m, im_created_by m), db w)))"

definition q_SetInboxMessageRead :: "int \<Rightarrow> string \<Rightarrow> bool \<Rightarrow> int \<Rightarrow> unit query" where
  "q_SetInboxMessageRead messageID subject isRead updated = run_stmt (\<lambda>w.
     if messageID \<notin> im_id ` set (inbox (db w)) then Inl (FkViolation inboxMessageStateFK)
     else Inr ((), (db w)\<lparr>inbox_states := (inbox_states (db w))((messageID, subject) \<mapsto>
       (case inbox_states (db w) (messageID, subject) of
          None \<Rightarrow> \<lparr>ims_is_read = isRead, ims_hidden = False, ims_updated = updated\<rparr>
        | Some s \<Rightarrow> s\<lparr>ims_is_read := isRead, ims_updated := updated\<rparr>))\<rparr>))"

definition q_HideInboxMessage :: "int \<Rightarrow> string \<Rightarrow> int \<Rightarrow> unit query" where
  "q_HideInboxMessage messageID subject updated = run_stmt (\<lambda>w.
     if messageID \<notin> im_id ` set (inbox (db w)) then Inl (FkViolation inboxMessageStateFK)
     else Inr ((), (db w)\<lparr>inbox_states := (inbox_states (db w))((messageID, subject) \<mapsto>
       (case inbox_states (db w) (messageID, subject) of
          None \<Rightarrow> \<lparr>ims_is_read = False, ims_hidden = True, ims_updated = updated\<rparr>
        | Some s \<Rightarrow> s\<lparr>ims_hidden := True, ims_updated := updated\<rparr>))\<rparr>))"

definition q_DeleteOldInboxMessages :: "unit query" where
  "q_DeleteOldInboxMessages = run_stmt (\<lambda>w.
     let kept = filter (\<lambda>m. \<not> im_created m < six_months_before w (sql_now w)) (inbox (db w));
         gone = im_id ` (set (inbox (db w)) - set kept)
     in Inr ((), (db w)\<lparr>inbox := kept,
          inbox_states := (\<lambda>(i, s). if i \<in> gone then None else inbox_states (db w) (i, s))\<rparr>))"

section \<open>System messages\<close>

text \<open>Which message events wake a waiting \<open>PollMessages\<close>.\<close>

definition OnMessageUpdate :: "string \<Rightarrow> int \<Rightarrow> message_event \<Rightarrow> bool" where
  "OnMessageUpdate recipient afterID ev \<longleftrightarrow> me_Recipient ev = recipient \<and> afterID < me_ID ev"

definition GetLatestMessageID :: "string \<Rightarrow> int query" where
  "GetLatestMessageID recipient = q_GetLatestMessageId recipient"

text \<open>The message as the store returns it. The row's type is not copied.\<close>

definition message_of_row :: "message_row \<Rightarrow> message" where
  "message_of_row r = \<lparr>msg_Recipient = m_recipient r, msg_ID = m_id r, msg_Type = [],
     msg_Created = m_created r, msg_CreatedBy = m_created_by r, msg_DocUUID = m_doc_uuid r,
     msg_DocType = text_string (m_doc_type r), msg_Payload = m_payload r\<rparr>"

definition ListMessagesAfterID :: "string \<Rightarrow> int \<Rightarrow> int \<Rightarrow> message list query" where
  "ListMessagesAfterID recipient afterID n =
     bindM (q_ListMessagesAfterId recipient afterID n) (\<lambda>rows.
     returnM (map message_of_row rows))"

definition nextMessageID :: "string \<Rightarrow> message_type \<Rightarrow> int query" where
  "nextMessageID recipient messageType = q_NextMessageID recipient (message_type_string messageType)"

definition notifyMessageUpdated :: "message_event \<Rightarrow> unit query" where
  "notifyMessageUpdated payload = pgNotify NotifyChannelMessageUpdate (MessageEvent payload)"

definition InsertMessage_tx :: "message \<Rightarrow> unit query" where
  "InsertMessage_tx m =
     bindM (q_UpsertUser (msg_Recipient m) (msg_Created m) UserKindUser) (\<lambda>_.
     bindM (nextMessageID (msg_Recipient m) MessageTypeSystem) (\<lambda>nextID.
     bindM (q_InsertMessage \<lparr>m_recipient = msg_Recipient m, m_id = nextID,
        m_type = text_or_null (msg_Type m), m_created = msg_Created m,
        m_created_by = msg_CreatedBy m, m_doc_uuid = msg_DocUUID m,
        m_doc_type = text_or_null (msg_DocType m), m_payload = msg_Payload m\<rparr>) (\<lambda>_.
     notifyMessageUpdated \<lparr>me_ID = nextID, me_Recipient = msg_Recipient m\<rparr>)))"

definition InsertMessage :: "unit tx_runner \<Rightarrow> message \<Rightarrow> unit query" where
  "InsertMessage tx m = tx (InsertMessage_tx m)"

section \<open>The inbox\<close>

definition OnInboxMessageUpdate :: "inbox_reader \<Rightarrow> int \<Rightarrow> message_event \<Rightarrow> bool" where
  "OnInboxMessageUpdate reader afterID ev \<longleftrightarrow>
     me_Recipient ev \<in> set (ir_Owners reader) \<and> afterID < me_ID ev"

definition GetLatestInboxMessageID :: "inbox_reader \<Rightarrow> int query" where
  "GetLatestInboxMessageID reader = q_GetLatestInboxMessageId (ir_Owners reader)"

definition inbox_message_of_row :: "inbox_row \<times> bool \<Rightarrow> inbox_message" where
  "inbox_message_of_row r = \<lparr>ib_ID = im_id (fst r), ib_UUID = im_uuid (fst r),
     ib_Recipient = im_recipient (fst r), ib_Created = im_created (fst r),
     ib_CreatedBy = im_created_by (fst r), ib_IsRead = snd r, ib_Payload = im_payload (fst r)\<rparr>"

definition ListInboxMessagesBeforeID :: "inbox_reader \<Rightarrow> int \<Rightarrow> int \<Rightarrow> inbox_message list query" where
  "ListInboxMessagesBeforeID reader beforeID n =
     bindM (q_ListInboxMessagesBeforeId (ir_Subject reader) (ir_Owners reader) beforeID n) (\<lambda>rows.
     returnM (map inbox_message_of_row rows))"

definition ListInboxMessagesAfterID :: "inbox_reader \<Rightarrow> int \<Rightarrow> int \<Rightarrow> inbox_message list query" where
  "ListInboxMessagesAfterID reader afterID n =
     bindM (q_ListInboxMessagesAfterId (ir_Subject reader) (ir_Owners reader) afterID n) (\<lambda>rows.
     returnM (map inbox_message_of_row rows))"

definition existingInboxMessage :: "json \<Rightarrow> string \<Rightarrow> string \<Rightarrow> int option query" where
  "existingInboxMessage payload recipient uuid =
     catchM (q_GetInboxMessageByUUID payload recipient uuid) (\<lambda>r.
       case r of
         Inl e \<Rightarrow> if e = ErrNoRows then returnM None else failM e
       | Inr (msgID, samePayload) \<Rightarrow>
           if \<not> samePayload then failM ErrInboxMessageConflict else returnM (Some msgID))"

definition notifyInboxMessageUpdated :: "message_event \<Rightarrow> unit query" where
  "notifyInboxMessageUpdated payload = pgNotify NotifyChannelInboxMessageUpdate (MessageEvent payload)"

definition notifyInboxStateUpdated :: "inbox_state_event \<Rightarrow> unit query" where
  "notifyInboxStateUpdated payload = pgNotify NotifyChannelInboxStateUpdate (InboxStateEvent payload)"

definition InsertInboxMessage_tx :: "inbox_message \<Rightarrow> int query" where
  "InsertInboxMessage_tx m =
     bindM (q_ReserveSequenceValues 1 sequenceInbox) (\<lambda>nxt.
     bindM (existingInboxMessage (ib_Payload m) (ib_Recipient m) (ib_UUID m)) (\<lambda>found.
     case found of
       Some existing \<Rightarrow> failM (ErrInboxMessageExists existing)
     | None \<Rightarrow>
         bindM (q_InsertInboxMessage \<lparr>im_id = nxt, im_uuid = ib_UUID m, im_recipient = ib_Recipient m,
            im_created = ib_Created m, im_created_by = ib_CreatedBy m, im_payload = ib_Payload m\<rparr>) (\<lambda>_.
         bindM (notifyInboxMessageUpdated \<lparr>me_ID = nxt, me_Recipient = ib_Recipient m\<rparr>) (\<lambda>_.
         returnM nxt))))"

definition InsertInboxMessage :: "int tx_runner \<Rightarrow> inbox_message \<Rightarrow> int query" where
  "InsertInboxMessage tx m =
     bindM (existingInboxMessage (ib_Payload m) (ib_Recipient m) (ib_UUID m)) (\<lambda>found.
     case found of
       Some msgID \<Rightarrow> returnM msgID
     | None \<Rightarrow>
         catchM (tx (InsertInboxMessage_tx m)) (\<lambda>r.
           case r of
             Inl (ErrInboxMessageExists msgID) \<Rightarrow> returnM msgID
           | Inl e \<Rightarrow> failM e
           | Inr msgID \<Rightarrow> returnM msgID))"

definition readableInboxMessage :: "inbox_reader \<Rightarrow> int \<Rightarrow> (int \<times> string \<times> string) query" where
  "readableInboxMessage reader msgID =
     catchM (q_GetInboxMessageForReader msgID (ir_Owners reader)) (\<lambda>r.
       case r of
         Inl e \<Rightarrow> if e = ErrNoRows then failM ErrInboxMessageNotFound else failM e
       | Inr msg \<Rightarrow> returnM msg)"

definition SetInboxMessageRead_tx :: "inbox_reader \<Rightarrow> int \<Rightarrow> bool \<Rightarrow> int \<Rightarrow> unit query" where
  "SetInboxMessageRead_tx reader msgID isRead updated =
     bindM (readableInboxMessage reader msgID) (\<lambda>(_, recipient, createdBy).
     catchM (q_SetInboxMessageRead msgID (ir_Subject reader) isRead updated) (\<lambda>r.
       case r of
         Inl e \<Rightarrow> if e = FkViolation inboxMessageStateFK then failM ErrInboxMessageNotFound else failM e
       | Inr _ \<Rightarrow> notifyInboxStateUpdated \<lparr>ise_ID = msgID, ise_Recipient = recipient,
           ise_Subject = ir_Subject reader, ise_CreatedBy = createdBy\<rparr>))"

definition SetInboxMessageRead :: "unit tx_runner \<Rightarrow> inbox_reader \<Rightarrow> int \<Rightarrow> bool \<Rightarrow> int \<Rightarrow> unit query" where
  "SetInboxMessageRead tx reader msgID isRead updated = tx (SetInboxMessageRead_tx reader msgID isRead updated)"

definition HideInboxMessage_tx :: "inbox_reader \<Rightarrow> int \<Rightarrow> int \<Rightarrow> unit query" where
  "HideInboxMessage_tx reader msgID updated =
     bindM (readableInboxMessage reader msgID) (\<lambda>(_, recipient, createdBy).
     catchM (q_HideInboxMessage msgID (ir_Subject reader) updated) (\<lambda>r.
       case r of
         Inl e \<Rightarrow> if e = FkViolation inboxMessageStateFK then failM ErrInboxMessageNotFound else failM e
       | Inr _ \<Rightarrow> notifyInboxStateUpdated \<lparr>ise_ID = msgID, ise_Recipient = recipient,
           ise_Subject = ir_Subject reader, ise_CreatedBy = createdBy\<rparr>))"

definition HideInboxMessage :: "unit tx_runner \<Rightarrow> inbox_reader \<Rightarrow> int \<Rightarrow> int \<Rightarrow> unit query" where
  "HideInboxMessage tx reader msgID updated = tx (HideInboxMessage_tx reader msgID updated)"

section \<open>Retention (\<open>internal/store.go\<close>)\<close>

definition removeOldMessages :: "unit query" where
  "removeOldMessages = bindM q_DeleteOldMessages (\<lambda>_. q_DeleteOldInboxMessages)"

end
