(* ===== verification/Messages_Facts.thy ===== *)
theory Messages_Facts
  imports Messages_Store
begin

text \<open>
  What the message operations of the store do to the tables: each transaction's effect as an
  equation between the tables before and after, the well-formedness of the message tables and
  its preservation, and the streams the readers see.
\<close>

named_theorems message_effects "what a committed message transaction does"

section \<open>Effects of the transactions\<close>

definition next_system_id :: "string \<Rightarrow> db \<Rightarrow> int" where
  "next_system_id recipient d =
     (case write_locks d (recipient, ''system'') of None \<Rightarrow> 1 | Some c \<Rightarrow> c + 1)"

definition system_row :: "message \<Rightarrow> int \<Rightarrow> message_row" where
  "system_row m i = \<lparr>m_recipient = msg_Recipient m, m_id = i, m_type = text_or_null (msg_Type m),
     m_created = msg_Created m, m_created_by = msg_CreatedBy m, m_doc_uuid = msg_DocUUID m,
     m_doc_type = text_or_null (msg_DocType m), m_payload = jsonb_norm (msg_Payload m)\<rparr>"

definition insert_message_effect :: "message \<Rightarrow> db \<Rightarrow> db" where
  "insert_message_effect m d =
     (let i = next_system_id (msg_Recipient m) d in
      d\<lparr>users := with_user (msg_Recipient m) (msg_Created m) UserKindUser (users d),
        messages := messages d @ [system_row m i],
        write_locks := (write_locks d)((msg_Recipient m, ''system'') \<mapsto> i),
        outbox := outbox d @ [(NotifyChannelMessageUpdate,
          MessageEvent \<lparr>me_ID = i, me_Recipient = msg_Recipient m\<rparr>)]\<rparr>)"

lemma q_NextMessageID_iff [query_simps]:
  "q_NextMessageID r t w = (Inr v, w') \<longleftrightarrow>
     \<not> fault w (pos w) \<and>
     (case write_locks (db w) (r, t) of
        None \<Rightarrow> users (db w) r \<noteq> None \<and> v = 1
      | Some c \<Rightarrow> in_bigint (c + 1) \<and> v = c + 1) \<and>
     w' = step_to ((db w)\<lparr>write_locks := (write_locks (db w))((r, t) \<mapsto> v)\<rparr>) w"
  by (auto simp: q_NextMessageID_def run_stmt_Inr_iff split: option.splits if_splits)

lemma q_InsertMessage_iff [query_simps]:
  "q_InsertMessage row w = (Inr a, w') \<longleftrightarrow>
     \<not> fault w (pos w) \<and>
     (m_recipient row, m_id row) \<notin> (\<lambda>m. (m_recipient m, m_id m)) ` set (messages (db w)) \<and>
     users (db w) (m_recipient row) \<noteq> None \<and>
     w' = step_to ((db w)\<lparr>messages := messages (db w) @ [row\<lparr>m_payload := jsonb_norm (m_payload row)\<rparr>]\<rparr>) w"
  by (auto simp: q_InsertMessage_def run_stmt_Inr_iff split: if_splits)

lemma InsertMessage_tx_effect:
  assumes "InsertMessage_tx m w = (Inr a, w')"
  shows "db w' = insert_message_effect m (db w)"
    and "(msg_Recipient m, next_system_id (msg_Recipient m) (db w)) \<notin>
      (\<lambda>m. (m_recipient m, m_id m)) ` set (messages (db w))"
    and "in_bigint (next_system_id (msg_Recipient m) (db w))"
proof -
  let ?r = "msg_Recipient m"
  from assms obtain w1 i w2 w3 where
    1: "q_UpsertUser ?r (msg_Created m) UserKindUser w = (Inr (), w1)" and
    2: "q_NextMessageID ?r ''system'' w1 = (Inr i, w2)" and
    3: "q_InsertMessage \<lparr>m_recipient = ?r, m_id = i, m_type = text_or_null (msg_Type m),
        m_created = msg_Created m, m_created_by = msg_CreatedBy m, m_doc_uuid = msg_DocUUID m,
        m_doc_type = text_or_null (msg_DocType m), m_payload = msg_Payload m\<rparr> w2 = (Inr (), w3)" and
    4: "pgNotify NotifyChannelMessageUpdate (MessageEvent \<lparr>me_ID = i, me_Recipient = ?r\<rparr>) w3 = (Inr a, w')"
    by (auto simp: InsertMessage_tx_def nextMessageID_def notifyMessageUpdated_def bindM_Inr_iff)
  have d1: "db w1 = (db w)\<lparr>users := with_user ?r (msg_Created m) UserKindUser (users (db w))\<rparr>"
    using 1 by (simp add: query_simps)
  have i: "i = next_system_id ?r (db w)" "in_bigint i"
    using 2 by (auto simp: query_simps d1 next_system_id_def split: option.splits)
  have d2: "db w2 = (db w1)\<lparr>write_locks := (write_locks (db w))((?r, ''system'') \<mapsto> i)\<rparr>"
    using 2 by (simp add: query_simps d1)
  have d3: "db w3 = (db w2)\<lparr>messages := messages (db w) @ [system_row m i]\<rparr>"
    and fresh: "(?r, i) \<notin> (\<lambda>m. (m_recipient m, m_id m)) ` set (messages (db w))"
    using 3 by (simp_all add: query_simps d1 d2 system_row_def)
  have d4: "db w' = (db w3)\<lparr>outbox := outbox (db w) @ [(NotifyChannelMessageUpdate,
      MessageEvent \<lparr>me_ID = i, me_Recipient = ?r\<rparr>)]\<rparr>"
    using 4 by (simp add: query_simps d1 d2 d3)
  show "db w' = insert_message_effect m (db w)"
    unfolding d4 d3 d2 d1 insert_message_effect_def Let_def i(1) [symmetric] by simp
  show "(?r, next_system_id ?r (db w)) \<notin> (\<lambda>m. (m_recipient m, m_id m)) ` set (messages (db w))"
    using fresh i(1) by simp
  show "in_bigint (next_system_id ?r (db w))"
    using i by simp
qed

text \<open>With no failing statement and ids left, the transaction commits.\<close>

lemma InsertMessage_tx_total:
  assumes "\<And>n. \<not> fault w n"
    and "(msg_Recipient m, next_system_id (msg_Recipient m) (db w)) \<notin>
      (\<lambda>m. (m_recipient m, m_id m)) ` set (messages (db w))"
    and "in_bigint (next_system_id (msg_Recipient m) (db w))"
  shows "\<exists>w'. InsertMessage_tx m w = (Inr (), w')"
proof -
  have "with_user (msg_Recipient m) (msg_Created m) UserKindUser (users (db w)) (msg_Recipient m) \<noteq> None"
    using dom_with_user [of "msg_Recipient m" "msg_Created m" UserKindUser "users (db w)"] by blast
  then show ?thesis
    using assms
    by (auto simp: InsertMessage_tx_def nextMessageID_def notifyMessageUpdated_def bindM_Inr_iff query_simps
        next_system_id_def split: option.splits)
qed

subsection \<open>The inbox\<close>

abbreviation im_key :: "inbox_row \<Rightarrow> string \<times> string" where
  "im_key m \<equiv> (im_recipient m, im_uuid m)"

definition inbox_row_of :: "inbox_message \<Rightarrow> int \<Rightarrow> inbox_row" where
  "inbox_row_of m i = \<lparr>im_id = i, im_uuid = ib_UUID m, im_recipient = ib_Recipient m,
     im_created = ib_Created m, im_created_by = ib_CreatedBy m, im_payload = jsonb_norm (ib_Payload m)\<rparr>"

definition insert_inbox_effect :: "inbox_message \<Rightarrow> int \<Rightarrow> db \<Rightarrow> db" where
  "insert_inbox_effect m i d =
     d\<lparr>inbox := inbox d @ [inbox_row_of m i],
       counters := (counters d)(sequenceInbox \<mapsto> i),
       outbox := outbox d @ [(NotifyChannelInboxMessageUpdate,
         MessageEvent \<lparr>me_ID = i, me_Recipient = ib_Recipient m\<rparr>)]\<rparr>"

lemma q_GetInboxMessageByUUID_iff [query_simps]:
  "q_GetInboxMessageByUUID p r u w = (Inr x, w') \<longleftrightarrow>
     \<not> fault w (pos w) \<and> w' = step_to (db w) w \<and>
     (\<exists>m. row_at im_key (r, u) (inbox (db w)) = Some m \<and> x = (im_id m, im_payload m = jsonb_norm p))"
  by (auto simp: q_GetInboxMessageByUUID_def run_stmt_Inr_iff split: option.splits)

lemma q_GetInboxMessageByUUID_Inl:
  "q_GetInboxMessageByUUID p r u w = (Inl e, w') \<longleftrightarrow>
     w' = step_to (db w) w \<and>
     (if fault w (pos w) then e = DbFault
      else row_at im_key (r, u) (inbox (db w)) = None \<and> e = ErrNoRows)"
  by (auto simp: q_GetInboxMessageByUUID_def run_stmt_Inl_iff split: option.splits)

lemma existingInboxMessage_Inr [query_simps]:
  "existingInboxMessage p r u w = (Inr x, w') \<longleftrightarrow>
     \<not> fault w (pos w) \<and> w' = step_to (db w) w \<and>
     (case row_at im_key (r, u) (inbox (db w)) of
        None \<Rightarrow> x = None
      | Some m \<Rightarrow> im_payload m = jsonb_norm p \<and> x = Some (im_id m))"
  by (auto simp: existingInboxMessage_def catchM_def q_GetInboxMessageByUUID_def run_stmt_def
      split: option.splits)

lemma existingInboxMessage_Inl:
  "existingInboxMessage p r u w = (Inl e, w') \<longleftrightarrow>
     w' = step_to (db w) w \<and>
     (if fault w (pos w) then e = DbFault
      else \<exists>m. row_at im_key (r, u) (inbox (db w)) = Some m \<and> im_payload m \<noteq> jsonb_norm p \<and>
        e = ErrInboxMessageConflict)"
  by (auto simp: existingInboxMessage_def catchM_def q_GetInboxMessageByUUID_def run_stmt_def
      split: option.splits)

lemma q_InsertInboxMessage_iff [query_simps]:
  "q_InsertInboxMessage row w = (Inr a, w') \<longleftrightarrow>
     \<not> fault w (pos w) \<and> im_id row \<notin> im_id ` set (inbox (db w)) \<and>
     im_key row \<notin> im_key ` set (inbox (db w)) \<and>
     w' = step_to ((db w)\<lparr>inbox := inbox (db w) @ [row\<lparr>im_payload := jsonb_norm (im_payload row)\<rparr>]\<rparr>) w"
  by (auto simp: q_InsertInboxMessage_def run_stmt_Inr_iff split: if_splits)

lemma InsertInboxMessage_tx_effect:
  assumes "InsertInboxMessage_tx m w = (Inr i, w')"
  shows "db w' = insert_inbox_effect m i (db w)"
    and "\<exists>v. counters (db w) sequenceInbox = Some v \<and> i = v + 1 \<and> in_bigint i"
    and "(ib_Recipient m, ib_UUID m) \<notin> im_key ` set (inbox (db w))"
    and "i \<notin> im_id ` set (inbox (db w))"
  using assms
  by (auto simp: InsertInboxMessage_tx_def notifyInboxMessageUpdated_def bindM_Inr_iff query_simps
      insert_inbox_effect_def inbox_row_of_def row_at_None image_iff split: option.splits)

lemma InsertInboxMessage_tx_total:
  assumes "\<And>n. \<not> fault w n" "counters (db w) sequenceInbox = Some v" "in_bigint (v + 1)"
    and "(ib_Recipient m, ib_UUID m) \<notin> im_key ` set (inbox (db w))" "v + 1 \<notin> im_id ` set (inbox (db w))"
  shows "\<exists>w'. InsertInboxMessage_tx m w = (Inr (v + 1), w') \<and> db w' = insert_inbox_effect m (v + 1) (db w)"
proof -
  have none: "row_at im_key (ib_Recipient m, ib_UUID m) (inbox (db w)) = None" using assms(4) unfolding row_at_None .
  have look: "existingInboxMessage (ib_Payload m) (ib_Recipient m) (ib_UUID m) (step_to d w) = (Inr None, step_to d (step_to d w))"
    if "inbox d = inbox (db w)" for d
    using that assms(1) none by (simp add: existingInboxMessage_Inr)
  show ?thesis
    using assms look [of "(db w)\<lparr>counters := (counters (db w))(sequenceInbox \<mapsto> v + 1)\<rparr>"]
    by (simp add: InsertInboxMessage_tx_def q_ReserveSequenceValues_def q_InsertInboxMessage_def notifyInboxMessageUpdated_def
        pgNotify_def q_Notify_def run_stmt_def bindM_def insert_inbox_effect_def inbox_row_of_def)
qed

text \<open>The two ways the transaction stops at the second lookup.\<close>

lemma InsertInboxMessage_tx_Inl:
  assumes "InsertInboxMessage_tx m w = (Inl e, w')"
  shows "(\<exists>r. e = ErrInboxMessageExists (im_id r) \<and> r \<in> set (inbox (db w)) \<and>
      im_key r = (ib_Recipient m, ib_UUID m) \<and> im_payload r = jsonb_norm (ib_Payload m)) \<or>
    (\<exists>r. e = ErrInboxMessageConflict \<and> r \<in> set (inbox (db w)) \<and>
      im_key r = (ib_Recipient m, ib_UUID m) \<and> im_payload r \<noteq> jsonb_norm (ib_Payload m)) \<or>
    e \<in> {DbFault, ErrNoRows, NumericOutOfRange, UniqueViolation ''inbox_message_pkey'',
      UniqueViolation ''inbox_message_recipient_uuid_key''}"
proof -
  have reserve: "q_ReserveSequenceValues 1 sequenceInbox w = (Inl e, w1) \<Longrightarrow>
      e \<in> {DbFault, ErrNoRows, NumericOutOfRange}" for w1
    by (auto simp: q_ReserveSequenceValues_def run_stmt_Inl_iff split: if_splits option.splits)
  have insert: "q_InsertInboxMessage row w1 = (Inl e, w2) \<Longrightarrow>
      e \<in> {DbFault, UniqueViolation ''inbox_message_pkey'', UniqueViolation ''inbox_message_recipient_uuid_key''}"
    for row w1 w2
    by (auto simp: q_InsertInboxMessage_def run_stmt_Inl_iff split: if_splits)
  have notify: "pgNotify c x w1 = (Inl e, w2) \<Longrightarrow> e = DbFault" for c x w1 w2
    by (auto simp: pgNotify_def q_Notify_def run_stmt_Inl_iff split: if_splits)
  show ?thesis
    using assms unfolding InsertInboxMessage_tx_def bindM_Inl_iff
  proof (elim disjE exE conjE)
    assume "q_ReserveSequenceValues 1 sequenceInbox w = (Inl e, w')"
    then show ?thesis using reserve by blast
  next
    fix nxt w1
    assume r: "q_ReserveSequenceValues 1 sequenceInbox w = (Inr nxt, w1)"
      and "existingInboxMessage (ib_Payload m) (ib_Recipient m) (ib_UUID m) w1 = (Inl e, w')"
    then show ?thesis
      by (auto simp: existingInboxMessage_Inl query_simps dest: row_at_SomeD split: if_splits)
  next
    fix nxt w1 found w2
    assume r: "q_ReserveSequenceValues 1 sequenceInbox w = (Inr nxt, w1)"
      and f: "existingInboxMessage (ib_Payload m) (ib_Recipient m) (ib_UUID m) w1 = (Inr found, w2)"
      and rest: "(case found of
         Some existing \<Rightarrow> failM (ErrInboxMessageExists existing)
       | None \<Rightarrow>
           bindM (q_InsertInboxMessage \<lparr>im_id = nxt, im_uuid = ib_UUID m, im_recipient = ib_Recipient m,
              im_created = ib_Created m, im_created_by = ib_CreatedBy m, im_payload = ib_Payload m\<rparr>) (\<lambda>_.
           bindM (notifyInboxMessageUpdated \<lparr>me_ID = nxt, me_Recipient = ib_Recipient m\<rparr>) (\<lambda>_.
           returnM nxt))) w2 = (Inl e, w')"
    show ?thesis
    proof (cases found)
      case None
      with rest show ?thesis
        by (auto simp: bindM_Inl_iff notifyInboxMessageUpdated_def dest: insert notify)
    next
      case (Some existing)
      with rest r f show ?thesis
        by (auto simp: query_simps dest!: row_at_SomeD split: option.splits)
    qed
  qed
qed

subsection \<open>Read state\<close>

definition set_read_effect :: "inbox_reader \<Rightarrow> inbox_row \<Rightarrow> bool \<Rightarrow> int \<Rightarrow> db \<Rightarrow> db" where
  "set_read_effect reader m isRead updated d =
     d\<lparr>inbox_states := (inbox_states d)((im_id m, ir_Subject reader) \<mapsto>
         (case inbox_states d (im_id m, ir_Subject reader) of
            None \<Rightarrow> \<lparr>ims_is_read = isRead, ims_hidden = False, ims_updated = updated\<rparr>
          | Some s \<Rightarrow> s\<lparr>ims_is_read := isRead, ims_updated := updated\<rparr>)),
       outbox := outbox d @ [(NotifyChannelInboxStateUpdate,
         InboxStateEvent \<lparr>ise_ID = im_id m, ise_Recipient = im_recipient m,
           ise_Subject = ir_Subject reader, ise_CreatedBy = im_created_by m\<rparr>)]\<rparr>"

definition hide_effect :: "inbox_reader \<Rightarrow> inbox_row \<Rightarrow> int \<Rightarrow> db \<Rightarrow> db" where
  "hide_effect reader m updated d =
     d\<lparr>inbox_states := (inbox_states d)((im_id m, ir_Subject reader) \<mapsto>
         (case inbox_states d (im_id m, ir_Subject reader) of
            None \<Rightarrow> \<lparr>ims_is_read = False, ims_hidden = True, ims_updated = updated\<rparr>
          | Some s \<Rightarrow> s\<lparr>ims_hidden := True, ims_updated := updated\<rparr>)),
       outbox := outbox d @ [(NotifyChannelInboxStateUpdate,
         InboxStateEvent \<lparr>ise_ID = im_id m, ise_Recipient = im_recipient m,
           ise_Subject = ir_Subject reader, ise_CreatedBy = im_created_by m\<rparr>)]\<rparr>"

definition addressed :: "inbox_reader \<Rightarrow> int \<Rightarrow> db \<Rightarrow> inbox_row option" where
  "addressed reader i d = find (\<lambda>m. im_id m = i \<and> im_recipient m \<in> set (ir_Owners reader)) (inbox d)"

lemma addressed_SomeD:
  "addressed reader i d = Some m \<Longrightarrow> m \<in> set (inbox d) \<and> im_id m = i \<and> im_recipient m \<in> set (ir_Owners reader)"
  by (auto simp: addressed_def find_Some_iff)

lemma addressed_None_iff:
  "addressed reader i d = None \<longleftrightarrow>
     (\<forall>m \<in> set (inbox d). im_id m = i \<longrightarrow> im_recipient m \<notin> set (ir_Owners reader))"
  by (auto simp: addressed_def find_None_iff)

lemma readableInboxMessage_Inr:
  "readableInboxMessage reader i w = (Inr x, w') \<longleftrightarrow>
     \<not> fault w (pos w) \<and> w' = step_to (db w) w \<and>
     (\<exists>m. addressed reader i (db w) = Some m \<and> x = (im_id m, im_recipient m, im_created_by m))"
  by (auto simp: readableInboxMessage_def catchM_def q_GetInboxMessageForReader_def run_stmt_def
      addressed_def split: option.splits)

lemma readableInboxMessage_Inl:
  "readableInboxMessage reader i w = (Inl e, w') \<longleftrightarrow>
     w' = step_to (db w) w \<and>
     (if fault w (pos w) then e = DbFault
      else addressed reader i (db w) = None \<and> e = ErrInboxMessageNotFound)"
  by (auto simp: readableInboxMessage_def catchM_def q_GetInboxMessageForReader_def run_stmt_def
      addressed_def split: option.splits)

lemma SetInboxMessageRead_tx_effect:
  assumes "SetInboxMessageRead_tx reader i b t w = (Inr a, w')"
  shows "\<exists>m. addressed reader i (db w) = Some m \<and> db w' = set_read_effect reader m b t (db w)"
proof -
  from assms obtain m w2 where m: "addressed reader i (db w) = Some m"
    and *: "catchM (q_SetInboxMessageRead i (ir_Subject reader) b t) (\<lambda>r.
       case r of
         Inl e \<Rightarrow> if e = FkViolation inboxMessageStateFK then failM ErrInboxMessageNotFound else failM e
       | Inr _ \<Rightarrow> notifyInboxStateUpdated \<lparr>ise_ID = i, ise_Recipient = im_recipient m,
           ise_Subject = ir_Subject reader, ise_CreatedBy = im_created_by m\<rparr>) (step_to (db w) w) = (Inr a, w')"
    by (auto simp: SetInboxMessageRead_tx_def bindM_Inr_iff readableInboxMessage_Inr)
  have "im_id m = i" using addressed_SomeD [OF m] by simp
  with * m show ?thesis
    by (auto simp: catchM_def q_SetInboxMessageRead_def run_stmt_def notifyInboxStateUpdated_def
        query_simps set_read_effect_def split: if_splits)
qed

lemma HideInboxMessage_tx_effect:
  assumes "HideInboxMessage_tx reader i t w = (Inr a, w')"
  shows "\<exists>m. addressed reader i (db w) = Some m \<and> db w' = hide_effect reader m t (db w)"
proof -
  from assms obtain m w2 where m: "addressed reader i (db w) = Some m"
    and *: "catchM (q_HideInboxMessage i (ir_Subject reader) t) (\<lambda>r.
       case r of
         Inl e \<Rightarrow> if e = FkViolation inboxMessageStateFK then failM ErrInboxMessageNotFound else failM e
       | Inr _ \<Rightarrow> notifyInboxStateUpdated \<lparr>ise_ID = i, ise_Recipient = im_recipient m,
           ise_Subject = ir_Subject reader, ise_CreatedBy = im_created_by m\<rparr>) (step_to (db w) w) = (Inr a, w')"
    by (auto simp: HideInboxMessage_tx_def bindM_Inr_iff readableInboxMessage_Inr)
  have "im_id m = i" using addressed_SomeD [OF m] by simp
  with * m show ?thesis
    by (auto simp: catchM_def q_HideInboxMessage_def run_stmt_def notifyInboxStateUpdated_def
        query_simps hide_effect_def split: if_splits)
qed

end
