(* ===== verification/Messages_Inv.thy ===== *)
theory Messages_Inv
  imports Messages_Facts
begin

text \<open>
  Well-formed message tables (ids unique and below the counter that handed them out, one inbox
  row per recipient and payload uuid, state rows only for stored messages) and their preservation
  by every transaction and by the sweeper; the views the readers have, as instances of the
  stream interface; and how the operations change those views.
\<close>

section \<open>Well-formed tables\<close>

definition system_ok :: "db \<Rightarrow> bool" where
  "system_ok d \<longleftrightarrow>
     distinct (map (\<lambda>m. (m_recipient m, m_id m)) (messages d)) \<and>
     (\<forall>m \<in> set (messages d). \<exists>c. write_locks d (m_recipient m, ''system'') = Some c \<and>
        1 \<le> m_id m \<and> m_id m \<le> c) \<and>
     (\<forall>k c. write_locks d k = Some c \<longrightarrow> 1 \<le> c)"

definition inbox_ok :: "db \<Rightarrow> bool" where
  "inbox_ok d \<longleftrightarrow>
     distinct (map im_id (inbox d)) \<and> distinct (map im_key (inbox d)) \<and>
     (\<exists>v. counters d sequenceInbox = Some v \<and> 0 \<le> v \<and>
        (\<forall>m \<in> set (inbox d). 1 \<le> im_id m \<and> im_id m \<le> v)) \<and>
     (\<forall>i s. inbox_states d (i, s) \<noteq> None \<longrightarrow> i \<in> im_id ` set (inbox d))"

lemma system_ok_empty: "system_ok empty_db"
  by (simp add: system_ok_def empty_db_def)

lemma inbox_ok_empty: "inbox_ok empty_db"
  by (simp add: inbox_ok_def empty_db_def sequenceInbox_def)

text \<open>The tables each invariant reads: an operation that leaves them alone preserves it.\<close>

lemma system_ok_cong:
  "messages d' = messages d \<Longrightarrow> write_locks d' = write_locks d \<Longrightarrow> system_ok d' \<longleftrightarrow> system_ok d"
  by (simp add: system_ok_def)

lemma inbox_ok_cong:
  "inbox d' = inbox d \<Longrightarrow> inbox_states d' = inbox_states d \<Longrightarrow>
     counters d' sequenceInbox = counters d sequenceInbox \<Longrightarrow> inbox_ok d' \<longleftrightarrow> inbox_ok d"
  by (simp add: inbox_ok_def)

lemma next_system_id_pos: "system_ok d \<Longrightarrow> 1 \<le> next_system_id r d"
  by (fastforce simp: system_ok_def next_system_id_def split: option.splits)

lemma next_system_id_fresh:
  "system_ok d \<Longrightarrow> (r, next_system_id r d) \<notin> (\<lambda>m. (m_recipient m, m_id m)) ` set (messages d)"
  by (fastforce simp: system_ok_def next_system_id_def split: option.splits)

lemma insert_message_ok:
  assumes "system_ok d"
  shows "system_ok (insert_message_effect m d)"
proof -
  let ?r = "msg_Recipient m"
  have fresh: "(?r, next_system_id ?r d) \<notin> (\<lambda>m. (m_recipient m, m_id m)) ` set (messages d)"
    and pos: "1 \<le> next_system_id ?r d"
    using assms next_system_id_fresh next_system_id_pos by blast+
  have old: "\<exists>c. write_locks d (m_recipient x, ''system'') = Some c \<and> 1 \<le> m_id x \<and> m_id x \<le> c"
    if "x \<in> set (messages d)" for x
    using assms that by (auto simp: system_ok_def)
  have "\<exists>c. ((write_locks d)((?r, ''system'') \<mapsto> next_system_id ?r d)) (m_recipient x, ''system'') = Some c \<and>
      1 \<le> m_id x \<and> m_id x \<le> c" if "x \<in> set (messages d)" for x
    using old [OF that] by (force simp: next_system_id_def)
  then show ?thesis
    using assms fresh pos
    by (auto simp: system_ok_def insert_message_effect_def Let_def system_row_def)
qed

lemma insert_inbox_ok:
  assumes "inbox_ok d" "counters d sequenceInbox = Some v" "i = v + 1"
    and "(ib_Recipient m, ib_UUID m) \<notin> im_key ` set (inbox d)"
  shows "inbox_ok (insert_inbox_effect m i d)"
  using assms by (force simp: inbox_ok_def insert_inbox_effect_def inbox_row_of_def)

lemma set_read_ok: "inbox_ok d \<Longrightarrow> m \<in> set (inbox d) \<Longrightarrow> inbox_ok (set_read_effect reader m b t d)"
  by (auto simp: inbox_ok_def set_read_effect_def)

lemma hide_ok: "inbox_ok d \<Longrightarrow> m \<in> set (inbox d) \<Longrightarrow> inbox_ok (hide_effect reader m t d)"
  by (auto simp: inbox_ok_def hide_effect_def)

subsection \<open>Retention\<close>

definition delete_old_messages_effect :: "int \<Rightarrow> db \<Rightarrow> db" where
  "delete_old_messages_effect cutoff d =
     d\<lparr>messages := filter (\<lambda>m. \<not> m_created m < cutoff) (messages d)\<rparr>"

definition delete_old_inbox_effect :: "int \<Rightarrow> db \<Rightarrow> db" where
  "delete_old_inbox_effect cutoff d =
     (let kept = filter (\<lambda>m. \<not> im_created m < cutoff) (inbox d);
          gone = im_id ` (set (inbox d) - set kept)
      in d\<lparr>inbox := kept, inbox_states := (\<lambda>(i, s). if i \<in> gone then None else inbox_states d (i, s))\<rparr>)"

lemma q_DeleteOldMessages_eq:
  "q_DeleteOldMessages w = (if fault w (pos w) then (Inl DbFault, step_to (db w) w)
     else (Inr (), step_to (delete_old_messages_effect (two_weeks_before w (sql_now w)) (db w)) w))"
  by (simp add: q_DeleteOldMessages_def run_stmt_def delete_old_messages_effect_def)

lemma q_DeleteOldInboxMessages_eq:
  "q_DeleteOldInboxMessages w = (if fault w (pos w) then (Inl DbFault, step_to (db w) w)
     else (Inr (), step_to (delete_old_inbox_effect (six_months_before w (sql_now w)) (db w)) w))"
  by (simp add: q_DeleteOldInboxMessages_def run_stmt_def delete_old_inbox_effect_def Let_def)

lemma delete_old_messages_ok: "system_ok d \<Longrightarrow> system_ok (delete_old_messages_effect c d)"
  by (simp add: system_ok_def delete_old_messages_effect_def distinct_map_filter)

lemma delete_old_inbox_ok: "inbox_ok d \<Longrightarrow> inbox_ok (delete_old_inbox_effect c d)"
  by (auto simp: inbox_ok_def delete_old_inbox_effect_def Let_def distinct_map_filter)

text \<open>
  The sweep in one step: both cutoffs applied; a failing statement leaves the first deletion in
  place, since the sweep is not a transaction.
\<close>

lemma removeOldMessages_effect:
  assumes "removeOldMessages w = (r, w')"
  shows "db w' = db w \<or>
    db w' = delete_old_messages_effect (two_weeks_before w (sql_now w)) (db w) \<or>
    db w' = delete_old_inbox_effect (six_months_before w (sql_now w))
      (delete_old_messages_effect (two_weeks_before w (sql_now w)) (db w))"
    and "r = Inr () \<Longrightarrow> db w' = delete_old_inbox_effect (six_months_before w (sql_now w))
      (delete_old_messages_effect (two_weeks_before w (sql_now w)) (db w))"
  using assms
  by (auto simp: removeOldMessages_def bindM_def q_DeleteOldMessages_eq q_DeleteOldInboxMessages_eq
      split: if_splits)

section \<open>What readers see\<close>

definition system_rows :: "string \<Rightarrow> db \<Rightarrow> message_row list" where
  "system_rows recipient d = filter (\<lambda>m. m_recipient m = recipient) (messages d)"

definition inbox_rows :: "inbox_reader \<Rightarrow> db \<Rightarrow> inbox_row list" where
  "inbox_rows reader d =
     filter (\<lambda>m. im_recipient m \<in> set (ir_Owners reader) \<and> \<not> state_hidden d (ir_Subject reader) m) (inbox d)"

definition inbox_seen :: "inbox_reader \<Rightarrow> db \<Rightarrow> inbox_row \<Rightarrow> inbox_message" where
  "inbox_seen reader d m = inbox_message_of_row (m, state_read d (ir_Subject reader) m)"

definition inbox_view :: "inbox_reader \<Rightarrow> db \<Rightarrow> inbox_message list" where
  "inbox_view reader d = map (inbox_seen reader d) (inbox_rows reader d)"

lemma distinct_system_rows: "system_ok d \<Longrightarrow> distinct (map m_id (system_rows r d))"
proof -
  assume "system_ok d"
  then have "distinct (map (\<lambda>m. (m_recipient m, m_id m)) (system_rows r d))"
    by (simp add: system_ok_def system_rows_def distinct_map_filter)
  then show ?thesis by (auto simp: distinct_map inj_on_def system_rows_def)
qed

lemma distinct_inbox_rows: "inbox_ok d \<Longrightarrow> distinct (map im_id (inbox_rows reader d))"
  by (simp add: inbox_ok_def inbox_rows_def distinct_map_filter)

interpretation system_stream: cursor_stream
  "\<lambda>d. page_after m_id (system_rows r d)" m_id "system_rows r" system_ok for r
  by (rule page_after_stream) (rule distinct_system_rows)

interpretation inbox_stream: cursor_stream
  "\<lambda>d. page_after im_id (inbox_rows reader d)" im_id "inbox_rows reader" inbox_ok for reader
  by (rule page_after_stream) (rule distinct_inbox_rows)

text \<open>The store's reads return these pages.\<close>

lemma ListMessagesAfterID_Inr:
  "ListMessagesAfterID r a n w = (Inr ms, w') \<longleftrightarrow>
     \<not> fault w (pos w) \<and> 0 \<le> n \<and> w' = step_to (db w) w \<and>
     ms = map message_of_row (page_after m_id (system_rows r (db w)) a n)"
proof -
  have "filter (\<lambda>m. a < m_id m) (system_rows r (db w)) =
      filter (\<lambda>m. m_recipient m = r \<and> a < m_id m) (messages (db w))"
    by (auto simp: system_rows_def intro: filter_cong)
  then show ?thesis
    by (auto simp: ListMessagesAfterID_def bindM_Inr_iff q_ListMessagesAfterId_def run_stmt_Inr_iff
        page_after_def split: if_splits)
qed

lemma ListInboxMessagesAfterID_Inr:
  "ListInboxMessagesAfterID reader a n w = (Inr ms, w') \<longleftrightarrow>
     \<not> fault w (pos w) \<and> 0 \<le> n \<and> w' = step_to (db w) w \<and>
     ms = map (inbox_seen reader (db w)) (page_after im_id (inbox_rows reader (db w)) a n)"
proof -
  have "filter (\<lambda>m. a < im_id m) (inbox_rows reader (db w)) =
      filter (\<lambda>m. im_recipient m \<in> set (ir_Owners reader) \<and> a < im_id m \<and>
        \<not> state_hidden (db w) (ir_Subject reader) m) (inbox (db w))"
    by (auto simp: inbox_rows_def intro: filter_cong)
  then show ?thesis
    by (auto simp: ListInboxMessagesAfterID_def bindM_Inr_iff q_ListInboxMessagesAfterId_def run_stmt_Inr_iff
        page_after_def inbox_seen_def split: if_splits)
qed

lemma ListInboxMessagesBeforeID_Inr:
  "ListInboxMessagesBeforeID reader b n w = (Inr ms, w') \<longleftrightarrow>
     \<not> fault w (pos w) \<and> 0 \<le> n \<and> w' = step_to (db w) w \<and>
     ms = map (inbox_seen reader (db w))
       (page_desc im_id n (filter (\<lambda>m. b = 0 \<or> im_id m < b) (inbox_rows reader (db w))))"
proof -
  have "filter (\<lambda>m. b = 0 \<or> im_id m < b) (inbox_rows reader (db w)) =
      filter (\<lambda>m. im_recipient m \<in> set (ir_Owners reader) \<and> (b = 0 \<or> im_id m < b) \<and>
        \<not> state_hidden (db w) (ir_Subject reader) m) (inbox (db w))"
    by (auto simp: inbox_rows_def intro: filter_cong)
  then show ?thesis
    by (auto simp: ListInboxMessagesBeforeID_def bindM_Inr_iff q_ListInboxMessagesBeforeId_def run_stmt_Inr_iff
        inbox_seen_def split: if_splits)
qed

section \<open>How the operations change the views\<close>

lemma state_flags_set_read:
  "state_hidden (set_read_effect reader m b t d) s x = state_hidden d s x"
  "state_read (set_read_effect reader m b t d) s x =
     (if im_id x = im_id m \<and> s = ir_Subject reader then b else state_read d s x)"
  by (auto simp: state_hidden_def state_read_def set_read_effect_def split: option.splits)

lemma state_flags_hide:
  "state_hidden (hide_effect reader m t d) s x \<longleftrightarrow>
     im_id x = im_id m \<and> s = ir_Subject reader \<or> state_hidden d s x"
  "state_read (hide_effect reader m t d) s x = state_read d s x"
  by (auto simp: state_hidden_def state_read_def hide_effect_def split: option.splits)

lemma inbox_effects [simp]:
  "inbox (set_read_effect reader m b t d) = inbox d"
  "inbox (hide_effect reader m t d) = inbox d"
  by (simp_all add: set_read_effect_def hide_effect_def)

text \<open>Another subject's view is untouched by reading or hiding.\<close>

lemma inbox_view_other_subject:
  assumes "ir_Subject other \<noteq> ir_Subject reader"
  shows "inbox_view other (set_read_effect reader m b t d) = inbox_view other d"
    and "inbox_view other (hide_effect reader m t d) = inbox_view other d"
  using assms
  by (simp_all add: inbox_view_def inbox_rows_def inbox_seen_def state_flags_set_read state_flags_hide)

text \<open>The reader's own view: a flag changes, or exactly the one message leaves.\<close>

lemma inbox_view_set_read:
  assumes "ir_Subject other = ir_Subject reader"
  shows "inbox_view other (set_read_effect reader m b t d) =
    map (\<lambda>x. if ib_ID x = im_id m then x\<lparr>ib_IsRead := b\<rparr> else x) (inbox_view other d)"
  using assms
  by (simp add: inbox_view_def inbox_rows_def inbox_seen_def state_flags_set_read inbox_message_of_row_def)

lemma inbox_view_hide:
  assumes "ir_Subject other = ir_Subject reader"
  shows "inbox_view other (hide_effect reader m t d) =
    filter (\<lambda>x. ib_ID x \<noteq> im_id m) (inbox_view other d)"
  using assms
  by (simp add: inbox_view_def inbox_rows_def inbox_seen_def state_flags_hide inbox_message_of_row_def
      filter_map comp_def conj_commute conj_left_commute)

text \<open>A push appends one unread message to the view of every reader it is addressed to.\<close>

lemma inbox_view_insert:
  assumes "inbox_ok d" "i \<notin> im_id ` set (inbox d)"
  shows "inbox_view reader (insert_inbox_effect m i d) = inbox_view reader d @
    (if ib_Recipient m \<in> set (ir_Owners reader)
     then [m\<lparr>ib_ID := i, ib_IsRead := False, ib_Payload := jsonb_norm (ib_Payload m)\<rparr>] else [])"
proof -
  have none: "inbox_states d (i, s) = None" for s
    using assms unfolding inbox_ok_def by blast
  have flags: "state_hidden (insert_inbox_effect m i d) s x = state_hidden d s x"
    "state_read (insert_inbox_effect m i d) s x = state_read d s x" for s x
    by (simp_all add: insert_inbox_effect_def state_hidden_def state_read_def)
  have new: "\<not> state_hidden d s (inbox_row_of m i)" "\<not> state_read d s (inbox_row_of m i)" for s
    by (simp_all add: state_hidden_def state_read_def inbox_row_of_def none)
  show ?thesis
    unfolding inbox_view_def inbox_rows_def inbox_seen_def flags
    using new by (simp add: insert_inbox_effect_def inbox_row_of_def inbox_message_of_row_def)
qed

end
