(* ===== verification/Settings_Store.thy ===== *)
theory Settings_Store
  imports Streams
begin

text \<open>
  Settings documents, properties and the eventlog in the store: the statements of
  \<open>postgres/queries.sql.go\<close> on the tables \<open>document\<close>, \<open>property\<close> and \<open>eventlog\<close>, and the
  operations of \<open>internal/settings_store.go\<close>. \<open>slices.SortFunc\<close> promises a sorted
  permutation and nothing about ties, so it is an argument with that contract.
\<close>

section \<open>The settings contract (\<open>internal/settings.go\<close>)\<close>

record document =
  doc_Owner :: string
  doc_Application :: string
  doc_Type :: string
  doc_Key :: string
  doc_Version :: int
  doc_SchemaVersion :: string
  doc_Title :: string
  doc_Created :: int
  doc_Updated :: int
  doc_UpdatedBy :: string
  doc_Payload :: "json option"

record document_update =
  du_Owner :: string
  du_Application :: string
  du_Type :: string
  du_Key :: string
  du_SchemaVersion :: string
  du_Title :: string
  du_UpdatedBy :: string
  du_Payload :: json

record event_log_entry =
  ent_ID :: int
  ent_Owner :: string
  ent_Type :: event_type
  ent_ResourceKind :: resource_kind
  ent_Application :: string
  ent_DocumentType :: string
  ent_Key :: string
  ent_Version :: int
  ent_UpdatedBy :: string
  ent_Created :: int
  ent_Payload :: "json option"

record property =
  prop_Owner :: string
  prop_Application :: string
  prop_Key :: string
  prop_Value :: string
  prop_Created :: int
  prop_Updated :: int

record property_update =
  pu_Application :: string
  pu_Key :: string
  pu_Value :: string

record property_delete =
  pd_Application :: string
  pd_Key :: string

definition sequenceEventLog :: string where "sequenceEventLog = ''eventlog''"

section \<open>Ordering\<close>

definition cmp_Compare :: "string \<Rightarrow> string \<Rightarrow> int" where
  "cmp_Compare a b = (if a < b then -1 else if b < a then 1 else 0)"

fun cmp_Or :: "int list \<Rightarrow> int" where
  "cmp_Or [] = 0"
| "cmp_Or (v # vs) = (if v \<noteq> 0 then v else cmp_Or vs)"

definition compare_updates :: "property_update \<Rightarrow> property_update \<Rightarrow> int" where
  "compare_updates a b =
     cmp_Or [cmp_Compare (pu_Application a) (pu_Application b), cmp_Compare (pu_Key a) (pu_Key b)]"

definition compare_deletes :: "property_delete \<Rightarrow> property_delete \<Rightarrow> int" where
  "compare_deletes a b =
     cmp_Or [cmp_Compare (pd_Application a) (pd_Application b), cmp_Compare (pd_Key a) (pd_Key b)]"

type_synonym 'a sorter = "('a \<Rightarrow> 'a \<Rightarrow> int) \<Rightarrow> 'a list \<Rightarrow> 'a list"

definition sort_contract :: "'a sorter \<Rightarrow> ('a \<Rightarrow> 'a \<Rightarrow> int) \<Rightarrow> bool" where
  "sort_contract sortf cmp \<longleftrightarrow>
     (\<forall>xs. mset (sortf cmp xs) = mset xs \<and> sorted_wrt (\<lambda>a b. cmp a b \<le> 0) (sortf cmp xs))"

section \<open>Statements\<close>

abbreviation doc_key :: "document_row \<Rightarrow> string \<times> string \<times> string \<times> string" where
  "doc_key r \<equiv> (d_owner r, d_application r, d_type r, d_key r)"

abbreviation prop_key :: "property_row \<Rightarrow> string \<times> string \<times> string" where
  "prop_key r \<equiv> (p_owner r, p_application r, p_key r)"

definition q_GetDocument :: "string \<Rightarrow> string \<Rightarrow> string \<Rightarrow> string \<Rightarrow> document_row query" where
  "q_GetDocument owner application docType key = run_stmt (\<lambda>w.
     (case row_at doc_key (owner, application, docType, key) (documents (db w)) of
        None \<Rightarrow> Inl ErrNoRows
      | Some r \<Rightarrow> Inr (r, db w)))"

definition list_documents :: "(string \<Rightarrow> string) \<Rightarrow> string list \<Rightarrow> string option \<Rightarrow> string option \<Rightarrow>
    document_row list \<Rightarrow> document_row list" where
  "list_documents coll owners application docType rows =
     sort_key (\<lambda>r. (coll (d_application r), coll (d_type r), coll (d_key r)))
       (filter (\<lambda>r. d_owner r \<in> set owners \<and>
          (application = None \<or> application = Some (d_application r)) \<and>
          (docType = None \<or> docType = Some (d_type r))) rows)"

definition q_ListDocumentsMetadata :: "string list \<Rightarrow> string option \<Rightarrow> string option \<Rightarrow> document_row list query" where
  "q_ListDocumentsMetadata owners application docType = run_stmt (\<lambda>w.
     Inr (list_documents (collate w) owners application docType (documents (db w)), db w))"

definition q_ListDocumentsFull :: "string list \<Rightarrow> string option \<Rightarrow> string option \<Rightarrow> document_row list query" where
  "q_ListDocumentsFull owners application docType = run_stmt (\<lambda>w.
     Inr (list_documents (collate w) owners application docType (documents (db w)), db w))"

definition q_UpsertDocument :: "document_update \<Rightarrow> int query" where
  "q_UpsertDocument u = run_stmt (\<lambda>w.
     (case row_at doc_key (du_Owner u, du_Application u, du_Type u, du_Key u) (documents (db w)) of
        None \<Rightarrow>
          if users (db w) (du_Owner u) = None then Inl (FkViolation ''document_owner_fkey'')
          else Inr (1, (db w)\<lparr>documents := put_row doc_key
            \<lparr>d_owner = du_Owner u, d_application = du_Application u, d_type = du_Type u, d_key = du_Key u,
             d_version = 1, d_schema_version = du_SchemaVersion u, d_title = du_Title u,
             d_created = sql_now w, d_updated = sql_now w, d_updated_by = du_UpdatedBy u,
             d_payload = jsonb_norm (du_Payload u)\<rparr> (documents (db w))\<rparr>)
      | Some r \<Rightarrow>
          if in_bigint (d_version r + 1)
          then Inr (d_version r + 1, (db w)\<lparr>documents := put_row doc_key
            (r\<lparr>d_version := d_version r + 1, d_schema_version := du_SchemaVersion u, d_title := du_Title u,
               d_updated_by := du_UpdatedBy u, d_updated := sql_now w,
               d_payload := jsonb_norm (du_Payload u)\<rparr>) (documents (db w))\<rparr>)
          else Inl NumericOutOfRange))"

definition q_DeleteDocument :: "string \<Rightarrow> string \<Rightarrow> string \<Rightarrow> string \<Rightarrow> unit query" where
  "q_DeleteDocument owner application docType key = run_stmt (\<lambda>w.
     (case row_at doc_key (owner, application, docType, key) (documents (db w)) of
        None \<Rightarrow> Inl ErrNoRows
      | Some _ \<Rightarrow> Inr ((), (db w)\<lparr>documents :=
          drop_row doc_key (owner, application, docType, key) (documents (db w))\<rparr>)))"

definition q_GetProperties :: "string \<Rightarrow> string option \<Rightarrow> string list option \<Rightarrow> property_row list query" where
  "q_GetProperties owner application keys = run_stmt (\<lambda>w.
     Inr (filter (\<lambda>r. p_owner r = owner \<and>
       (application = None \<or> application = Some (p_application r)) \<and>
       (case keys of None \<Rightarrow> True | Some ks \<Rightarrow> p_key r \<in> set ks)) (properties (db w)), db w))"

definition q_UpsertProperty :: "string \<Rightarrow> string \<Rightarrow> string \<Rightarrow> string \<Rightarrow> unit query" where
  "q_UpsertProperty owner application key value = run_stmt (\<lambda>w.
     (case row_at prop_key (owner, application, key) (properties (db w)) of
        None \<Rightarrow>
          if users (db w) owner = None then Inl (FkViolation ''property_owner_fkey'')
          else Inr ((), (db w)\<lparr>properties := put_row prop_key
            \<lparr>p_owner = owner, p_application = application, p_key = key, p_value = value,
             p_created = sql_now w, p_updated = sql_now w\<rparr> (properties (db w))\<rparr>)
      | Some r \<Rightarrow> Inr ((), (db w)\<lparr>properties := put_row prop_key
            (r\<lparr>p_value := value, p_updated := sql_now w\<rparr>) (properties (db w))\<rparr>)))"

definition q_DeleteProperty :: "string \<Rightarrow> string \<Rightarrow> string \<Rightarrow> unit query" where
  "q_DeleteProperty owner application key = run_stmt (\<lambda>w.
     (case row_at prop_key (owner, application, key) (properties (db w)) of
        None \<Rightarrow> Inl ErrNoRows
      | Some _ \<Rightarrow> Inr ((), (db w)\<lparr>properties :=
          drop_row prop_key (owner, application, key) (properties (db w))\<rparr>)))"

definition q_GetLatestEventLogId :: "string list \<Rightarrow> int query" where
  "q_GetLatestEventLogId owners = run_stmt (\<lambda>w.
     let ids = map ev_id (filter (\<lambda>e. ev_owner e \<in> set owners) (eventlog (db w)))
     in Inr (if ids = [] then 0 else Max (set ids), db w))"

definition q_InsertEventLog :: "event_row \<Rightarrow> unit query" where
  "q_InsertEventLog e = run_stmt (\<lambda>w.
     if ev_id e \<in> ev_id ` set (eventlog (db w)) then Inl (UniqueViolation ''eventlog_pkey'')
     else Inr ((), (db w)\<lparr>eventlog := eventlog (db w) @ [e]\<rparr>))"

definition q_GetEventLogEntriesAfterId :: "string list \<Rightarrow> int \<Rightarrow> int \<Rightarrow> event_row list query" where
  "q_GetEventLogEntriesAfterId owners afterID limit = run_stmt (\<lambda>w.
     if limit < 0 then Inl NegativeLimit
     else Inr (page_asc ev_id limit
       (filter (\<lambda>e. ev_owner e \<in> set owners \<and> afterID < ev_id e) (eventlog (db w))), db w))"

section \<open>The eventlog\<close>

text \<open>Which eventlog notifications wake a waiting \<open>PollEventLog\<close>.\<close>

definition OnEventLogUpdate :: "string list \<Rightarrow> int \<Rightarrow> event_log_event \<Rightarrow> bool" where
  "OnEventLogUpdate owners afterID ev \<longleftrightarrow> ele_Owner ev \<in> set owners \<and> afterID < ele_ID ev"

definition GetLatestEventLogID :: "string list \<Rightarrow> int query" where
  "GetLatestEventLogID owners = q_GetLatestEventLogId owners"

definition entry_of_row :: "event_row \<Rightarrow> event_log_entry" where
  "entry_of_row r = \<lparr>ent_ID = ev_id r, ent_Owner = ev_owner r, ent_Type = ev_type r,
     ent_ResourceKind = ev_resource_kind r, ent_Application = ev_application r,
     ent_DocumentType = text_string (ev_document_type r), ent_Key = ev_key r,
     ent_Version = (case ev_version r of None \<Rightarrow> 0 | Some v \<Rightarrow> v),
     ent_UpdatedBy = ev_updated_by r, ent_Created = ev_created r, ent_Payload = ev_payload r\<rparr>"

definition GetEventLogEntriesAfterID :: "string list \<Rightarrow> int \<Rightarrow> int \<Rightarrow> event_log_entry list query" where
  "GetEventLogEntriesAfterID owners afterID limit =
     bindM (q_GetEventLogEntriesAfterId owners afterID limit) (\<lambda>rows.
     returnM (map entry_of_row rows))"

definition notifyEventLogUpdated :: "event_log_event \<Rightarrow> unit query" where
  "notifyEventLogUpdated payload = pgNotify NotifyChannelEventLogUpdate (EventLogEvent payload)"

text \<open>The loop of \<open>logAndNotifyAll\<close>: the next id, the entries still to write.\<close>

fun log_entries :: "int \<Rightarrow> event_row list \<Rightarrow> unit query" where
  "log_entries nxt [] = returnM ()"
| "log_entries nxt (params # rest) =
     bindM time_now (\<lambda>t.
     bindM (q_InsertEventLog (params\<lparr>ev_id := nxt, ev_created := t\<rparr>)) (\<lambda>_.
     bindM (notifyEventLogUpdated \<lparr>ele_ID = nxt, ele_Owner = ev_owner params\<rparr>) (\<lambda>_.
     log_entries (nxt + 1) rest)))"

definition logAndNotifyAll :: "event_row list \<Rightarrow> unit query" where
  "logAndNotifyAll entries =
     (if entries = [] then returnM ()
      else
        bindM (q_ReserveSequenceValues (int (length entries)) sequenceEventLog) (\<lambda>lastID.
        let firstID = lastID - int (length entries) + 1
        in log_entries firstID entries))"

definition logAndNotify :: "event_row \<Rightarrow> unit query" where
  "logAndNotify params = logAndNotifyAll [params]"

section \<open>Documents\<close>

definition ownerToUserKind :: "string \<Rightarrow> user_kind" where
  "ownerToUserKind owner =
     (if has_prefix owner ''core://unit/'' then UserKindUnit
      else if has_prefix owner ''core://org/'' then UserKindOrg
      else UserKindUser)"

definition document_of_row :: "document_row \<Rightarrow> document" where
  "document_of_row r = \<lparr>doc_Owner = d_owner r, doc_Application = d_application r, doc_Type = d_type r,
     doc_Key = d_key r, doc_Version = d_version r, doc_SchemaVersion = d_schema_version r,
     doc_Title = d_title r, doc_Created = d_created r, doc_Updated = d_updated r,
     doc_UpdatedBy = d_updated_by r, doc_Payload = Some (d_payload r)\<rparr>"

definition GetDocument :: "string \<Rightarrow> string \<Rightarrow> string \<Rightarrow> string \<Rightarrow> document query" where
  "GetDocument owner application docType key =
     catchM (q_GetDocument owner application docType key) (\<lambda>r.
       case r of
         Inl e \<Rightarrow> if e = ErrNoRows then failM ErrDocNotFound else failM e
       | Inr row \<Rightarrow> returnM (document_of_row row))"

definition ListDocuments :: "string list \<Rightarrow> string \<Rightarrow> string \<Rightarrow> bool \<Rightarrow> document list query" where
  "ListDocuments owners application docType includePayload =
     (if includePayload then
        bindM (q_ListDocumentsFull owners (text_or_null application) (text_or_null docType)) (\<lambda>rows.
        returnM (map document_of_row rows))
      else
        bindM (q_ListDocumentsMetadata owners (text_or_null application) (text_or_null docType)) (\<lambda>rows.
        returnM (map (\<lambda>r. (document_of_row r)\<lparr>doc_Payload := None\<rparr>) rows)))"

definition document_event :: "string \<Rightarrow> event_type \<Rightarrow> string \<Rightarrow> string \<Rightarrow> string \<Rightarrow> int option \<Rightarrow> string \<Rightarrow> event_row" where
  "document_event owner ty application docType key version updatedBy =
     \<lparr>ev_id = 0, ev_owner = owner, ev_type = ty, ev_resource_kind = ResourceKindDocument,
      ev_application = application, ev_document_type = Some docType, ev_key = key,
      ev_version = version, ev_updated_by = updatedBy, ev_created = 0, ev_payload = None\<rparr>"

definition property_event :: "string \<Rightarrow> event_type \<Rightarrow> string \<Rightarrow> string \<Rightarrow> event_row" where
  "property_event owner ty application key =
     \<lparr>ev_id = 0, ev_owner = owner, ev_type = ty, ev_resource_kind = ResourceKindProperty,
      ev_application = application, ev_document_type = None, ev_key = key,
      ev_version = None, ev_updated_by = owner, ev_created = 0, ev_payload = None\<rparr>"

definition UpdateDocument_tx :: "document_update \<Rightarrow> unit query" where
  "UpdateDocument_tx u =
     bindM time_now (\<lambda>now.
     bindM (q_UpsertUser (du_Owner u) now (ownerToUserKind (du_Owner u))) (\<lambda>_.
     bindM (q_UpsertDocument u) (\<lambda>version.
     logAndNotify (document_event (du_Owner u) EventTypeUpdate (du_Application u) (du_Type u) (du_Key u)
       (Some version) (du_UpdatedBy u)))))"

definition UpdateDocument :: "unit tx_runner \<Rightarrow> document_update \<Rightarrow> unit query" where
  "UpdateDocument tx u = tx (UpdateDocument_tx u)"

definition DeleteDocument_tx :: "string \<Rightarrow> string \<Rightarrow> string \<Rightarrow> string \<Rightarrow> string \<Rightarrow> unit query" where
  "DeleteDocument_tx owner application docType key updatedBy =
     catchM (q_DeleteDocument owner application docType key) (\<lambda>r.
       case r of
         Inl e \<Rightarrow> if e = ErrNoRows then returnM () else failM e
       | Inr _ \<Rightarrow> logAndNotify (document_event owner EventTypeDelete application docType key None updatedBy))"

definition DeleteDocument :: "unit tx_runner \<Rightarrow> string \<Rightarrow> string \<Rightarrow> string \<Rightarrow> string \<Rightarrow> string \<Rightarrow> unit query" where
  "DeleteDocument tx owner application docType key updatedBy =
     tx (DeleteDocument_tx owner application docType key updatedBy)"

section \<open>Properties\<close>

definition property_of_row :: "property_row \<Rightarrow> property" where
  "property_of_row r = \<lparr>prop_Owner = p_owner r, prop_Application = p_application r, prop_Key = p_key r,
     prop_Value = p_value r, prop_Created = p_created r, prop_Updated = p_updated r\<rparr>"

definition GetProperties :: "string \<Rightarrow> string \<Rightarrow> string list option \<Rightarrow> property list query" where
  "GetProperties owner application keys =
     bindM (q_GetProperties owner (text_or_null application) keys) (\<lambda>rows.
     returnM (map property_of_row rows))"

definition set_property :: "string \<Rightarrow> property_update \<Rightarrow> event_row query" where
  "set_property owner p =
     bindM (q_UpsertProperty owner (pu_Application p) (pu_Key p) (pu_Value p)) (\<lambda>_.
     returnM (property_event owner EventTypeUpdate (pu_Application p) (pu_Key p)))"

definition SetProperties_tx :: "property_update sorter \<Rightarrow> string \<Rightarrow> property_update list \<Rightarrow> unit query" where
  "SetProperties_tx sortf owner updates =
     bindM time_now (\<lambda>now.
     bindM (q_UpsertUser owner now UserKindUser) (\<lambda>_.
     bindM (for_each (set_property owner) (sortf compare_updates updates)) (\<lambda>events.
     logAndNotifyAll events)))"

definition SetProperties :: "unit tx_runner \<Rightarrow> property_update sorter \<Rightarrow> string \<Rightarrow> property_update list \<Rightarrow> unit query" where
  "SetProperties tx sortf owner updates = tx (SetProperties_tx sortf owner updates)"

definition delete_property :: "string \<Rightarrow> property_delete \<Rightarrow> event_row list query" where
  "delete_property owner p =
     catchM (q_DeleteProperty owner (pd_Application p) (pd_Key p)) (\<lambda>r.
       case r of
         Inl e \<Rightarrow> if e = ErrNoRows then returnM [] else failM e
       | Inr _ \<Rightarrow> returnM [property_event owner EventTypeDelete (pd_Application p) (pd_Key p)])"

definition DeleteProperties_tx :: "property_delete sorter \<Rightarrow> string \<Rightarrow> property_delete list \<Rightarrow> unit query" where
  "DeleteProperties_tx sortf owner deletes =
     bindM (for_each (delete_property owner) (sortf compare_deletes deletes)) (\<lambda>events.
     logAndNotifyAll (concat events))"

definition DeleteProperties :: "unit tx_runner \<Rightarrow> property_delete sorter \<Rightarrow> string \<Rightarrow> property_delete list \<Rightarrow> unit query" where
  "DeleteProperties tx sortf owner deletes = tx (DeleteProperties_tx sortf owner deletes)"

end
