(* ===== verification/Settings_Facts.thy ===== *)
theory Settings_Facts
  imports Settings_Store Messages_Store
begin

text \<open>
  What the settings operations of the store do to the tables: each transaction's effect as an
  equation between the tables before and after. Appending to the eventlog is \<open>logged\<close>; the
  transactions write their data rows first and log last.
\<close>

section \<open>The eventlog\<close>

text \<open>
  The rows a batch of entries becomes: consecutive ids, each with its own clock reading (an
  entry takes three positions: the clock, the insert and the notification).
\<close>

fun log_rows :: "(nat \<Rightarrow> int) \<Rightarrow> nat \<Rightarrow> int \<Rightarrow> event_row list \<Rightarrow> event_row list" where
  "log_rows clk p nxt [] = []"
| "log_rows clk p nxt (e # es) = e\<lparr>ev_id := nxt, ev_created := clk p\<rparr> # log_rows clk (p + 3) (nxt + 1) es"

definition log_notification :: "event_row \<Rightarrow> notify_channel \<times> event" where
  "log_notification e = (NotifyChannelEventLogUpdate, EventLogEvent \<lparr>ele_ID = ev_id e, ele_Owner = ev_owner e\<rparr>)"

definition append_log :: "event_row list \<Rightarrow> db \<Rightarrow> db" where
  "append_log rows d = d\<lparr>eventlog := eventlog d @ rows, outbox := outbox d @ map log_notification rows\<rparr>"

definition event_counter :: "db \<Rightarrow> int" where
  "event_counter d = (case counters d sequenceEventLog of None \<Rightarrow> 0 | Some v \<Rightarrow> v)"

definition logged :: "(nat \<Rightarrow> int) \<Rightarrow> nat \<Rightarrow> event_row list \<Rightarrow> db \<Rightarrow> db" where
  "logged clk p es d =
     (if es = [] then d
      else append_log (log_rows clk p (event_counter d + 1) es)
        (d\<lparr>counters := (counters d)(sequenceEventLog \<mapsto> event_counter d + int (length es))\<rparr>))"

lemma length_log_rows [simp]: "length (log_rows clk p n es) = length es"
  by (induction es arbitrary: p n) auto

lemma ids_log_rows: "map ev_id (log_rows clk p n es) = [n..n + int (length es) - 1]"
proof (induction es arbitrary: p n)
  case (Cons e es)
  have "[n..n + int (length (e # es)) - 1] = n # [n + 1..n + int (length (e # es)) - 1]"
    by (rule upto_rec1) simp
  with Cons show ?case by (simp add: algebra_simps)
qed simp

lemma created_log_rows: "map ev_created (log_rows clk p n es) = map (\<lambda>i. clk (p + 3 * i)) [0..<length es]"
proof (induction es arbitrary: p n)
  case (Cons e es)
  have "map (\<lambda>i. clk (p + 3 * i)) [0..<Suc (length es)] = clk p # map (\<lambda>i. clk (p + 3 + 3 * i)) [0..<length es]"
    by (simp add: upt_conv_Cons map_Suc_upt [symmetric] comp_def add.assoc del: upt_Suc)
  with Cons show ?case by simp
qed simp

text \<open>Everything but id and time of an entry is as the caller gave it.\<close>

lemma content_log_rows:
  "map (\<lambda>e. e\<lparr>ev_id := 0, ev_created := 0\<rparr>) (log_rows clk p n es) = map (\<lambda>e. e\<lparr>ev_id := 0, ev_created := 0\<rparr>) es"
  by (induction es arbitrary: p n) auto

lemma append_log_Cons: "append_log rows (append_log [e] d) = append_log (e # rows) d"
  by (simp add: append_log_def)

lemma q_InsertEventLog_iff [query_simps]:
  "q_InsertEventLog e w = (Inr a, w') \<longleftrightarrow>
     \<not> fault w (pos w) \<and> ev_id e \<notin> ev_id ` set (eventlog (db w)) \<and>
     w' = step_to ((db w)\<lparr>eventlog := eventlog (db w) @ [e]\<rparr>) w"
  by (auto simp: q_InsertEventLog_def run_stmt_Inr_iff split: if_splits)

lemma notifyEventLogUpdated_iff [query_simps]:
  "notifyEventLogUpdated ev w = (Inr a, w') \<longleftrightarrow>
     \<not> fault w (pos w) \<and>
     w' = step_to ((db w)\<lparr>outbox := outbox (db w) @ [(NotifyChannelEventLogUpdate, EventLogEvent ev)]\<rparr>) w"
  by (simp add: notifyEventLogUpdated_def pgNotify_iff)

lemma log_entry_round:
  assumes "log_entries n (e # es) w = (Inr a, w')"
  obtains w1 where "log_entries (n + 1) es w1 = (Inr a, w')"
    and "db w1 = append_log [e\<lparr>ev_id := n, ev_created := clock w (pos w)\<rparr>] (db w)"
    and "pos w1 = pos w + 3" "same_env w w1" "n \<notin> ev_id ` set (eventlog (db w))"
  using assms
  by (auto simp: bindM_Inr_iff query_simps append_log_def log_notification_def same_env_def)

lemma log_entries_effect:
  "log_entries n es w = (Inr a, w') \<Longrightarrow>
     db w' = append_log (log_rows (clock w) (pos w) n es) (db w) \<and> same_env w w'"
proof (induction es arbitrary: n w)
  case Nil
  then show ?case by (simp add: append_log_def)
next
  case (Cons e es)
  from log_entry_round [OF Cons.prems] obtain w1 where rest: "log_entries (n + 1) es w1 = (Inr a, w')"
    and w1: "db w1 = append_log [e\<lparr>ev_id := n, ev_created := clock w (pos w)\<rparr>] (db w)"
      "pos w1 = pos w + 3" "same_env w w1" .
  have "clock w1 = clock w" using w1(3) by (simp add: same_env_def)
  with Cons.IH [OF rest] w1 show ?case
    by (auto simp: append_log_Cons intro: same_env_trans)
qed

lemma logAndNotifyAll_effect:
  assumes "logAndNotifyAll es w = (Inr a, w')"
  shows "db w' = logged (clock w) (Suc (pos w)) es (db w)"
    and "es \<noteq> [] \<Longrightarrow> counters (db w) sequenceEventLog \<noteq> None"
    and "es \<noteq> [] \<Longrightarrow> in_bigint (event_counter (db w) + int (length es))"
    and "same_env w w'"
proof -
  show "db w' = logged (clock w) (Suc (pos w)) es (db w)"
  proof (cases "es = []")
    case True
    with assms show ?thesis by (simp add: logAndNotifyAll_def logged_def)
  next
    case False
    with assms obtain v w1 where v: "counters (db w) sequenceEventLog = Some v"
      and w1: "w1 = step_to ((db w)\<lparr>counters := (counters (db w))(sequenceEventLog \<mapsto> v + int (length es))\<rparr>) w"
      and rest: "log_entries (v + 1) es w1 = (Inr a, w')"
      by (auto simp: logAndNotifyAll_def bindM_Inr_iff query_simps Let_def)
    from log_entries_effect [OF rest] show ?thesis
      using False v by (simp add: w1 logged_def event_counter_def)
  qed
  show "es \<noteq> [] \<Longrightarrow> counters (db w) sequenceEventLog \<noteq> None"
    using assms by (auto simp: logAndNotifyAll_def bindM_Inr_iff query_simps)
  show "es \<noteq> [] \<Longrightarrow> in_bigint (event_counter (db w) + int (length es))"
    using assms by (auto simp: logAndNotifyAll_def bindM_Inr_iff query_simps event_counter_def)
  show "same_env w w'"
    using assms log_entries_effect
    by (fastforce simp: logAndNotifyAll_def bindM_Inr_iff query_simps Let_def same_env_def split: if_splits)
qed

lemma log_entries_total:
  assumes "\<And>n. \<not> fault w n" "\<forall>e \<in> set (eventlog (db w)). ev_id e < n"
  shows "\<exists>w'. log_entries n es w = (Inr (), w')"
  using assms
proof (induction es arbitrary: n w)
  case (Cons e es)
  let ?e = "e\<lparr>ev_id := n, ev_created := clock w (pos w)\<rparr>"
  have "n \<notin> ev_id ` set (eventlog (db w))" using Cons.prems(2) by force
  moreover have "\<exists>w'. log_entries (n + 1) es v = (Inr (), w')"
    if "fault v = fault w" "eventlog (db v) = eventlog (db w) @ [?e]" for v
    by (rule Cons.IH) (use that Cons.prems in \<open>force+\<close>)
  ultimately show ?case
    using Cons.prems(1) by (simp add: bindM_Inr_iff query_simps)
qed simp

lemma logAndNotifyAll_total:
  assumes "\<And>n. \<not> fault w n" "counters (db w) sequenceEventLog = Some v"
    and "\<forall>e \<in> set (eventlog (db w)). ev_id e \<le> v" "in_bigint (v + int (length es))"
  shows "\<exists>w'. logAndNotifyAll es w = (Inr (), w')"
proof (cases "es = []")
  case False
  let ?w1 = "step_to ((db w)\<lparr>counters := (counters (db w))(sequenceEventLog \<mapsto> v + int (length es))\<rparr>) w"
  have "\<exists>w'. log_entries (v + 1) es ?w1 = (Inr (), w')"
    by (rule log_entries_total) (use assms in auto)
  with False assms show ?thesis
    by (simp add: logAndNotifyAll_def bindM_Inr_iff query_simps Let_def)
qed (simp add: logAndNotifyAll_def)

section \<open>Documents\<close>

abbreviation update_key :: "document_update \<Rightarrow> string \<times> string \<times> string \<times> string" where
  "update_key u \<equiv> (du_Owner u, du_Application u, du_Type u, du_Key u)"

text \<open>The row an update leaves: version 1 for a new key, one more than before otherwise.\<close>

definition updated_document :: "document_update \<Rightarrow> int \<Rightarrow> db \<Rightarrow> document_row" where
  "updated_document u now d =
     (let old = row_at doc_key (update_key u) (documents d) in
      \<lparr>d_owner = du_Owner u, d_application = du_Application u, d_type = du_Type u, d_key = du_Key u,
       d_version = (case old of None \<Rightarrow> 1 | Some r \<Rightarrow> d_version r + 1),
       d_schema_version = du_SchemaVersion u, d_title = du_Title u,
       d_created = (case old of None \<Rightarrow> now | Some r \<Rightarrow> d_created r),
       d_updated = now, d_updated_by = du_UpdatedBy u, d_payload = jsonb_norm (du_Payload u)\<rparr>)"

definition put_document :: "document_update \<Rightarrow> int \<Rightarrow> db \<Rightarrow> db" where
  "put_document u now d = d\<lparr>documents := put_row doc_key (updated_document u now d) (documents d)\<rparr>"

lemma updated_document_None:
  "row_at doc_key (update_key u) (documents d) = None \<Longrightarrow>
     updated_document u now d = \<lparr>d_owner = du_Owner u, d_application = du_Application u, d_type = du_Type u,
       d_key = du_Key u, d_version = 1, d_schema_version = du_SchemaVersion u, d_title = du_Title u,
       d_created = now, d_updated = now, d_updated_by = du_UpdatedBy u, d_payload = jsonb_norm (du_Payload u)\<rparr>"
  by (simp add: updated_document_def)

lemma updated_document_Some:
  "row_at doc_key (update_key u) (documents d) = Some r \<Longrightarrow>
     updated_document u now d = r\<lparr>d_version := d_version r + 1, d_schema_version := du_SchemaVersion u,
       d_title := du_Title u, d_updated_by := du_UpdatedBy u, d_updated := now,
       d_payload := jsonb_norm (du_Payload u)\<rparr>"
  using row_at_SomeD [of doc_key "update_key u" "documents d" r] by (cases r) (simp add: updated_document_def)

lemma key_updated_document [simp]:
  "d_owner (updated_document u now d) = du_Owner u" "d_application (updated_document u now d) = du_Application u"
  "d_type (updated_document u now d) = du_Type u" "d_key (updated_document u now d) = du_Key u"
  by (simp_all add: updated_document_def Let_def)

lemma q_UpsertDocument_iff [query_simps]:
  "q_UpsertDocument u w = (Inr v, w') \<longleftrightarrow>
     \<not> fault w (pos w) \<and> v = d_version (updated_document u (sql_now w) (db w)) \<and>
     (case row_at doc_key (update_key u) (documents (db w)) of
        None \<Rightarrow> users (db w) (du_Owner u) \<noteq> None | Some _ \<Rightarrow> in_bigint v) \<and>
     w' = step_to (put_document u (sql_now w) (db w)) w"
  by (cases "row_at doc_key (update_key u) (documents (db w))")
    (auto simp: q_UpsertDocument_def run_stmt_Inr_iff updated_document_None updated_document_Some put_document_def
      split: if_splits)

definition update_document_effect :: "document_update \<Rightarrow> int \<Rightarrow> int \<Rightarrow> (nat \<Rightarrow> int) \<Rightarrow> nat \<Rightarrow> db \<Rightarrow> db" where
  "update_document_effect u created now clk p d =
     logged clk p
       [document_event (du_Owner u) EventTypeUpdate (du_Application u) (du_Type u) (du_Key u)
          (Some (d_version (updated_document u now d))) (du_UpdatedBy u)]
       ((put_document u now d)\<lparr>users := with_user (du_Owner u) created (ownerToUserKind (du_Owner u)) (users d)\<rparr>)"

lemma UpdateDocument_tx_effect:
  assumes "UpdateDocument_tx u w = (Inr a, w')"
  shows "db w' = update_document_effect u (clock w (pos w)) (sql_now w) (clock w) (pos w + 4) (db w)"
    and "counters (db w) sequenceEventLog \<noteq> None"
proof -
  let ?t = "clock w (pos w)"
  let ?us = "with_user (du_Owner u) ?t (ownerToUserKind (du_Owner u)) (users (db w))"
  from assms obtain w1 w2 v where
    1: "w1 = step_to ((db w)\<lparr>users := ?us\<rparr>) (step_to (db w) w)" and
    2: "q_UpsertDocument u w1 = (Inr v, w2)" and
    3: "logAndNotify (document_event (du_Owner u) EventTypeUpdate (du_Application u) (du_Type u) (du_Key u)
       (Some v) (du_UpdatedBy u)) w2 = (Inr a, w')"
    by (auto simp: UpdateDocument_tx_def bindM_Inr_iff q_UpsertUser_iff)
  have upd: "updated_document u t ((db w)\<lparr>users := ?us\<rparr>) = updated_document u t (db w)" for t
    by (simp add: updated_document_def)
  have d1: "db w1 = (db w)\<lparr>users := ?us\<rparr>" "sql_now w1 = sql_now w" "clock w1 = clock w" "pos w1 = pos w + 2"
    by (simp_all add: 1)
  have v: "v = d_version (updated_document u (sql_now w) (db w))"
    using 2 by (simp add: query_simps d1 upd)
  have d2: "db w2 = (put_document u (sql_now w) (db w))\<lparr>users := ?us\<rparr>" "clock w2 = clock w" "pos w2 = pos w + 3"
    using 2 by (simp_all add: query_simps d1 put_document_def upd)
  note log = logAndNotifyAll_effect [OF 3 [unfolded logAndNotify_def]]
  show "db w' = update_document_effect u ?t (sql_now w) (clock w) (pos w + 4) (db w)"
    using log(1) by (simp add: d2 v update_document_effect_def eval_nat_numeral)
  show "counters (db w) sequenceEventLog \<noteq> None"
    using log(2) by (simp add: d2 put_document_def)
qed

lemma q_DeleteDocument_eq:
  "q_DeleteDocument ow ap ty ky w =
     (if fault w (pos w) then (Inl DbFault, step_to (db w) w)
      else if row_at doc_key (ow, ap, ty, ky) (documents (db w)) = None then (Inl ErrNoRows, step_to (db w) w)
      else (Inr (), step_to ((db w)\<lparr>documents := drop_row doc_key (ow, ap, ty, ky) (documents (db w))\<rparr>) w))"
  by (auto simp: q_DeleteDocument_def run_stmt_def split: option.splits)

definition delete_document_effect ::
    "string \<Rightarrow> string \<Rightarrow> string \<Rightarrow> string \<Rightarrow> string \<Rightarrow> (nat \<Rightarrow> int) \<Rightarrow> nat \<Rightarrow> db \<Rightarrow> db" where
  "delete_document_effect owner application docType key updatedBy clk p d =
     (if row_at doc_key (owner, application, docType, key) (documents d) = None then d
      else logged clk p [document_event owner EventTypeDelete application docType key None updatedBy]
        (d\<lparr>documents := drop_row doc_key (owner, application, docType, key) (documents d)\<rparr>))"

lemma DeleteDocument_tx_effect:
  assumes "DeleteDocument_tx ow ap ty ky by w = (Inr a, w')"
  shows "db w' = delete_document_effect ow ap ty ky by (clock w) (pos w + 2) (db w)"
proof (cases "row_at doc_key (ow, ap, ty, ky) (documents (db w)) = None")
  case True
  with assms show ?thesis
    by (auto simp: DeleteDocument_tx_def catchM_def q_DeleteDocument_eq delete_document_effect_def split: if_splits)
next
  case False
  let ?w1 = "step_to ((db w)\<lparr>documents := drop_row doc_key (ow, ap, ty, ky) (documents (db w))\<rparr>) w"
  from False assms have "logAndNotifyAll [document_event ow EventTypeDelete ap ty ky None by] ?w1 = (Inr a, w')"
    by (auto simp: DeleteDocument_tx_def catchM_def q_DeleteDocument_eq logAndNotify_def split: if_splits)
  from logAndNotifyAll_effect(1) [OF this] False show ?thesis
    by (auto simp: delete_document_effect_def eval_nat_numeral)
qed

section \<open>Properties\<close>

abbreviation update_target :: "string \<Rightarrow> property_update \<Rightarrow> string \<times> string \<times> string" where
  "update_target ow p \<equiv> (ow, pu_Application p, pu_Key p)"

definition put_property :: "string \<Rightarrow> int \<Rightarrow> property_update \<Rightarrow> property_row list \<Rightarrow> property_row list" where
  "put_property owner now p rows =
     put_row prop_key
       \<lparr>p_owner = owner, p_application = pu_Application p, p_key = pu_Key p, p_value = pu_Value p,
        p_created = (case row_at prop_key (owner, pu_Application p, pu_Key p) rows of
           None \<Rightarrow> now | Some r \<Rightarrow> p_created r),
        p_updated = now\<rparr> rows"

lemma put_property_Some:
  "row_at prop_key (ow, pu_Application p, pu_Key p) rows = Some r \<Longrightarrow>
     put_property ow now p rows = put_row prop_key (r\<lparr>p_value := pu_Value p, p_updated := now\<rparr>) rows"
  using row_at_SomeD [of prop_key "(ow, pu_Application p, pu_Key p)" rows r]
  by (cases r) (simp add: put_property_def)

lemma q_UpsertProperty_iff [query_simps]:
  "q_UpsertProperty ow (pu_Application p) (pu_Key p) (pu_Value p) w = (Inr a, w') \<longleftrightarrow>
     \<not> fault w (pos w) \<and>
     (row_at prop_key (ow, pu_Application p, pu_Key p) (properties (db w)) = None \<longrightarrow> users (db w) ow \<noteq> None) \<and>
     w' = step_to ((db w)\<lparr>properties := put_property ow (sql_now w) p (properties (db w))\<rparr>) w"
  by (cases "row_at prop_key (ow, pu_Application p, pu_Key p) (properties (db w))")
    (auto simp: q_UpsertProperty_def run_stmt_Inr_iff put_property_Some, auto simp: put_property_def)

lemma set_property_iff [query_simps]:
  "set_property ow p w = (Inr ev, w') \<longleftrightarrow>
     \<not> fault w (pos w) \<and>
     (row_at prop_key (ow, pu_Application p, pu_Key p) (properties (db w)) = None \<longrightarrow> users (db w) ow \<noteq> None) \<and>
     ev = property_event ow EventTypeUpdate (pu_Application p) (pu_Key p) \<and>
     w' = step_to ((db w)\<lparr>properties := put_property ow (sql_now w) p (properties (db w))\<rparr>) w"
  by (auto simp: set_property_def bindM_Inr_iff q_UpsertProperty_iff)

definition property_events :: "string \<Rightarrow> property_update list \<Rightarrow> event_row list" where
  "property_events owner updates =
     map (\<lambda>p. property_event owner EventTypeUpdate (pu_Application p) (pu_Key p)) updates"

lemma set_property_loop:
  "for_each (set_property ow) ps w = (Inr evs, w') \<Longrightarrow>
     evs = property_events ow ps \<and>
     db w' = (db w)\<lparr>properties := fold (put_property ow (sql_now w)) ps (properties (db w))\<rparr> \<and>
     pos w' = pos w + length ps \<and> same_env w w'"
proof (induction ps arbitrary: evs w)
  case (Cons p ps)
  let ?w1 = "step_to ((db w)\<lparr>properties := put_property ow (sql_now w) p (properties (db w))\<rparr>) w"
  from Cons.prems obtain evs' where "for_each (set_property ow) ps ?w1 = (Inr evs', w')"
    and "evs = property_event ow EventTypeUpdate (pu_Application p) (pu_Key p) # evs'"
    by (auto simp: bindM_Inr_iff set_property_iff)
  with Cons.IH [of ?w1 evs'] show ?case
    by (auto simp: property_events_def intro: same_env_trans [of w ?w1])
qed (simp add: property_events_def)

definition set_properties_effect ::
    "string \<Rightarrow> property_update list \<Rightarrow> int \<Rightarrow> int \<Rightarrow> (nat \<Rightarrow> int) \<Rightarrow> nat \<Rightarrow> db \<Rightarrow> db" where
  "set_properties_effect owner updates created now clk p d =
     logged clk p (property_events owner updates)
       (d\<lparr>users := with_user owner created UserKindUser (users d),
          properties := fold (put_property owner now) updates (properties d)\<rparr>)"

lemma SetProperties_tx_effect:
  assumes "SetProperties_tx sortf ow ps w = (Inr a, w')"
  shows "db w' = set_properties_effect ow (sortf compare_updates ps) (clock w (pos w)) (sql_now w) (clock w)
    (pos w + length (sortf compare_updates ps) + 3) (db w)"
    and "sortf compare_updates ps \<noteq> [] \<Longrightarrow> counters (db w) sequenceEventLog \<noteq> None"
proof -
  let ?ps = "sortf compare_updates ps"
  from assms obtain w1 w2 evs where
    1: "w1 = step_to ((db w)\<lparr>users := with_user ow (clock w (pos w)) UserKindUser (users (db w))\<rparr>) (step_to (db w) w)"
    and 2: "for_each (set_property ow) ?ps w1 = (Inr evs, w2)" and 3: "logAndNotifyAll evs w2 = (Inr a, w')"
    by (auto simp: SetProperties_tx_def bindM_Inr_iff query_simps)
  note loop = set_property_loop [OF 2]
  note log = logAndNotifyAll_effect [OF 3]
  have env: "clock w2 = clock w" "pos w2 = pos w + length ?ps + 2"
    using loop by (simp_all add: 1 same_env_def)
  show "db w' = set_properties_effect ow ?ps (clock w (pos w)) (sql_now w) (clock w) (pos w + length ?ps + 3) (db w)"
    using log(1) loop by (simp add: env set_properties_effect_def 1 eval_nat_numeral)
  show "?ps \<noteq> [] \<Longrightarrow> counters (db w) sequenceEventLog \<noteq> None"
    using log(2) loop by (simp add: 1 property_events_def)
qed

text \<open>The deletions of a batch that hit a row are logged; the others are not.\<close>

abbreviation delete_key :: "string \<Rightarrow> property_delete \<Rightarrow> string \<times> string \<times> string" where
  "delete_key ow p \<equiv> (ow, pd_Application p, pd_Key p)"

definition drop_properties :: "string \<Rightarrow> property_delete list \<Rightarrow> property_row list \<Rightarrow> property_row list" where
  "drop_properties owner ps rows = fold (\<lambda>p. drop_row prop_key (delete_key owner p)) ps rows"

fun dropped_events :: "string \<Rightarrow> property_delete list \<Rightarrow> property_row list \<Rightarrow> event_row list" where
  "dropped_events owner [] rows = []"
| "dropped_events owner (p # ps) rows =
     (if row_at prop_key (delete_key owner p) rows = None then []
      else [property_event owner EventTypeDelete (pd_Application p) (pd_Key p)]) @
     dropped_events owner ps (drop_row prop_key (delete_key owner p) rows)"

lemma drop_row_None: "row_at key k rows = None \<Longrightarrow> drop_row key k rows = rows"
  by (auto simp: row_at_None drop_row_def intro: filter_True)

lemma delete_property_iff [query_simps]:
  "delete_property ow p w = (Inr evs, w') \<longleftrightarrow>
     \<not> fault w (pos w) \<and>
     evs = (if row_at prop_key (delete_key ow p) (properties (db w)) = None then []
        else [property_event ow EventTypeDelete (pd_Application p) (pd_Key p)]) \<and>
     w' = step_to ((db w)\<lparr>properties := drop_row prop_key (delete_key ow p) (properties (db w))\<rparr>) w"
  by (auto simp: delete_property_def q_DeleteProperty_def catchM_def run_stmt_def drop_row_None
      split: option.splits)

lemma delete_property_loop:
  "for_each (delete_property ow) ps w = (Inr evs, w') \<Longrightarrow>
     concat evs = dropped_events ow ps (properties (db w)) \<and>
     db w' = (db w)\<lparr>properties := drop_properties ow ps (properties (db w))\<rparr> \<and>
     pos w' = pos w + length ps \<and> same_env w w'"
proof (induction ps arbitrary: evs w)
  case (Cons p ps)
  let ?w1 = "step_to ((db w)\<lparr>properties := drop_row prop_key (delete_key ow p) (properties (db w))\<rparr>) w"
  from Cons.prems obtain evs' where "for_each (delete_property ow) ps ?w1 = (Inr evs', w')"
    and "evs = (if row_at prop_key (delete_key ow p) (properties (db w)) = None then []
      else [property_event ow EventTypeDelete (pd_Application p) (pd_Key p)]) # evs'"
    by (auto simp: bindM_Inr_iff query_simps)
  with Cons.IH [of ?w1 evs'] show ?case
    by (auto simp: drop_properties_def intro: same_env_trans [of w ?w1])
qed (simp add: drop_properties_def)

definition delete_properties_effect ::
    "string \<Rightarrow> property_delete list \<Rightarrow> (nat \<Rightarrow> int) \<Rightarrow> nat \<Rightarrow> db \<Rightarrow> db" where
  "delete_properties_effect owner deletes clk p d =
     logged clk p (dropped_events owner deletes (properties d))
       (d\<lparr>properties := drop_properties owner deletes (properties d)\<rparr>)"

lemma DeleteProperties_tx_effect:
  assumes "DeleteProperties_tx sortf ow ps w = (Inr a, w')"
  shows "db w' = delete_properties_effect ow (sortf compare_deletes ps) (clock w)
    (pos w + length (sortf compare_deletes ps) + 1) (db w)"
proof -
  let ?ps = "sortf compare_deletes ps"
  from assms obtain w1 evs where
    1: "for_each (delete_property ow) ?ps w = (Inr evs, w1)" and 2: "logAndNotifyAll (concat evs) w1 = (Inr a, w')"
    by (auto simp: DeleteProperties_tx_def bindM_Inr_iff)
  have env: "clock w1 = clock w" "pos w1 = pos w + length ?ps"
    using delete_property_loop [OF 1] by (simp_all add: same_env_def)
  show ?thesis
    using logAndNotifyAll_effect(1) [OF 2] delete_property_loop [OF 1]
    by (simp add: env delete_properties_effect_def)
qed

end
