(* ===== verification/Settings_Inv.thy ===== *)
theory Settings_Inv
  imports Settings_Facts
begin

text \<open>
  The invariant of the settings tables and its preservation by every transaction. Its core is
  that the eventlog is a faithful history: its ids are \<open>1, 2, \<dots>\<close> without gap, and a client
  that replays the entries from the start (\<open>replay\<close>) holds exactly the index of the documents
  and properties that exist, each document at its current version. The eventlog as the owners
  of a caller see it is an instance of the stream interface.
\<close>

section \<open>Replaying the eventlog\<close>

datatype target =
    DocTarget string string string string
  | PropTarget string string string

definition entry_target :: "event_log_entry \<Rightarrow> target" where
  "entry_target e =
     (case ent_ResourceKind e of
        ResourceKindDocument \<Rightarrow> DocTarget (ent_Owner e) (ent_Application e) (ent_DocumentType e) (ent_Key e)
      | ResourceKindProperty \<Rightarrow> PropTarget (ent_Owner e) (ent_Application e) (ent_Key e))"

definition apply_entry :: "event_log_entry \<Rightarrow> (target \<rightharpoonup> int) \<Rightarrow> (target \<rightharpoonup> int)" where
  "apply_entry e m =
     (case ent_Type e of
        EventTypeUpdate \<Rightarrow> m(entry_target e \<mapsto> ent_Version e)
      | EventTypeDelete \<Rightarrow> m(entry_target e := None))"

definition replay :: "event_log_entry list \<Rightarrow> (target \<rightharpoonup> int)" where
  "replay es = fold apply_entry es Map.empty"

text \<open>What exists: documents at their version; properties carry no version in the log.\<close>

definition settings_index :: "document_row list \<Rightarrow> property_row list \<Rightarrow> (target \<rightharpoonup> int)" where
  "settings_index docs props t =
     (case t of
        DocTarget ow ap ty ky \<Rightarrow> map_option d_version (row_at doc_key (ow, ap, ty, ky) docs)
      | PropTarget ow ap ky \<Rightarrow> map_option (\<lambda>_. 0) (row_at prop_key (ow, ap, ky) props))"

definition eventlog_ok :: "db \<Rightarrow> bool" where
  "eventlog_ok d \<longleftrightarrow>
     (\<exists>v. counters d sequenceEventLog = Some v \<and> 0 \<le> v \<and> map ev_id (eventlog d) = [1..v])"

definition settings_ok :: "db \<Rightarrow> bool" where
  "settings_ok d \<longleftrightarrow>
     distinct (map doc_key (documents d)) \<and> distinct (map prop_key (properties d)) \<and>
     (\<forall>r \<in> set (documents d). 1 \<le> d_version r) \<and>
     eventlog_ok d \<and>
     replay (map entry_of_row (eventlog d)) = settings_index (documents d) (properties d)"

lemma settings_ok_empty: "settings_ok empty_db"
  by (simp add: settings_ok_def eventlog_ok_def empty_db_def replay_def settings_index_def fun_eq_iff
      sequenceEventLog_def split: target.splits)

lemma settings_ok_cong:
  "documents d' = documents d \<Longrightarrow> properties d' = properties d \<Longrightarrow> eventlog d' = eventlog d \<Longrightarrow>
     counters d' sequenceEventLog = counters d sequenceEventLog \<Longrightarrow> settings_ok d' \<longleftrightarrow> settings_ok d"
  by (simp add: settings_ok_def eventlog_ok_def)

lemma eventlog_ok_counter:
  "eventlog_ok d \<Longrightarrow> counters d sequenceEventLog = Some (event_counter d) \<and> 0 \<le> event_counter d \<and>
     map ev_id (eventlog d) = [1..event_counter d]"
  by (auto simp: eventlog_ok_def event_counter_def)

lemma replay_append: "replay (xs @ ys) = fold apply_entry ys (replay xs)"
  by (simp add: replay_def)

text \<open>Times and ids do not matter to the replay.\<close>

lemma apply_entry_stamp: "apply_entry (entry_of_row (e\<lparr>ev_id := n, ev_created := t\<rparr>)) = apply_entry (entry_of_row e)"
  by (rule ext) (cases "ev_type e"; cases "ev_resource_kind e"; simp add: apply_entry_def entry_target_def entry_of_row_def)

lemma replay_log_rows: "fold apply_entry (map entry_of_row (log_rows clk p n es)) m = fold apply_entry (map entry_of_row es) m"
  by (induction es arbitrary: p n m) (simp_all add: apply_entry_stamp)

section \<open>The index under changes of the tables\<close>

lemma index_put_document:
  "settings_index (put_row doc_key r docs) props =
     (settings_index docs props)(DocTarget (d_owner r) (d_application r) (d_type r) (d_key r) \<mapsto> d_version r)"
  by (auto simp: settings_index_def fun_eq_iff row_at_put_row split: target.splits)

lemma index_drop_document:
  "settings_index (drop_row doc_key (ow, ap, ty, ky) docs) props =
     (settings_index docs props)(DocTarget ow ap ty ky := None)"
  by (auto simp: settings_index_def fun_eq_iff row_at_drop_row split: target.splits)

lemma index_put_property:
  "settings_index docs (put_property ow now p props) =
     (settings_index docs props)(PropTarget ow (pu_Application p) (pu_Key p) \<mapsto> 0)"
  by (auto simp: settings_index_def put_property_def fun_eq_iff row_at_put_row split: target.splits)

lemma index_drop_property:
  "settings_index docs (drop_row prop_key (ow, ap, ky) props) =
     (settings_index docs props)(PropTarget ow ap ky := None)"
  by (auto simp: settings_index_def fun_eq_iff row_at_drop_row split: target.splits)

lemma apply_document_event:
  "apply_entry (entry_of_row (document_event ow EventTypeUpdate ap ty ky (Some v) by)) m =
     m(DocTarget ow ap ty ky \<mapsto> v)"
  "apply_entry (entry_of_row (document_event ow EventTypeDelete ap ty ky v' by)) m =
     m(DocTarget ow ap ty ky := None)"
  by (simp_all add: apply_entry_def entry_target_def entry_of_row_def document_event_def text_string_def)

lemma apply_property_event:
  "apply_entry (entry_of_row (property_event ow EventTypeUpdate ap ky)) m = m(PropTarget ow ap ky \<mapsto> 0)"
  "apply_entry (entry_of_row (property_event ow EventTypeDelete ap ky)) m = m(PropTarget ow ap ky := None)"
  by (simp_all add: apply_entry_def entry_target_def entry_of_row_def property_event_def)

lemma index_put_properties:
  "settings_index docs (fold (put_property ow now) ps props) =
     fold apply_entry (map entry_of_row (property_events ow ps)) (settings_index docs props)"
  by (induction ps arbitrary: props)
    (simp_all add: property_events_def index_put_property apply_property_event)

lemma index_drop_properties:
  "settings_index docs (drop_properties ow ps props) =
     fold apply_entry (map entry_of_row (dropped_events ow ps props)) (settings_index docs props)"
proof (induction ps arbitrary: props)
  case (Cons p ps)
  show ?case
  proof (cases "row_at prop_key (delete_key ow p) props = None")
    case True
    with Cons show ?thesis by (simp add: drop_properties_def drop_row_None)
  next
    case False
    let ?m = "settings_index docs props" and ?props = "drop_row prop_key (delete_key ow p) props"
    have "settings_index docs (drop_properties ow (p # ps) props) =
        fold apply_entry (map entry_of_row (dropped_events ow ps ?props)) (settings_index docs ?props)"
      using Cons.IH [of ?props] by (simp add: drop_properties_def)
    also have "settings_index docs ?props =
        apply_entry (entry_of_row (property_event ow EventTypeDelete (pd_Application p) (pd_Key p))) ?m"
      unfolding apply_property_event by (rule index_drop_property)
    finally show ?thesis using False by auto
  qed
qed (simp add: drop_properties_def)

section \<open>Preservation\<close>

lemma logged_simps [simp]:
  "documents (logged clk p es d) = documents d" "properties (logged clk p es d) = properties d"
  "users (logged clk p es d) = users d" "eventlog (logged clk p es d) = eventlog d @ log_rows clk p (event_counter d + 1) es"
  "inbox (logged clk p es d) = inbox d" "inbox_states (logged clk p es d) = inbox_states d"
  "messages (logged clk p es d) = messages d" "write_locks (logged clk p es d) = write_locks d"
  "schemas (logged clk p es d) = schemas d" "generations (logged clk p es d) = generations d"
  "generation_schemas (logged clk p es d) = generation_schemas d"
  "deprecations (logged clk p es d) = deprecations d" "generation_seq (logged clk p es d) = generation_seq d"
  by (simp_all add: logged_def append_log_def)

lemma counters_logged: "es \<noteq> [] \<Longrightarrow> counters (logged clk p es d) =
    (counters d)(sequenceEventLog \<mapsto> event_counter d + int (length es))"
  by (simp add: logged_def append_log_def)

lemma event_counter_logged:
  "event_counter (logged clk p es d) = event_counter d + int (length es)"
  by (cases "es = []") (simp add: logged_def, simp add: event_counter_def [of "logged clk p es d"] counters_logged)

lemma counter_inbox_logged [simp]:
  "counters (logged clk p es d) sequenceInbox = counters d sequenceInbox"
  by (simp add: logged_def append_log_def sequenceInbox_def sequenceEventLog_def)

text \<open>The settings transactions leave the other components' tables alone.\<close>

lemma settings_frame [simp]:
  "inbox (update_document_effect u created now clk p d) = inbox d" "inbox_states (update_document_effect u created now clk p d) = inbox_states d"
  "messages (update_document_effect u created now clk p d) = messages d" "write_locks (update_document_effect u created now clk p d) = write_locks d"
  "schemas (update_document_effect u created now clk p d) = schemas d" "generations (update_document_effect u created now clk p d) = generations d"
  "generation_schemas (update_document_effect u created now clk p d) = generation_schemas d" "deprecations (update_document_effect u created now clk p d) = deprecations d"
  "generation_seq (update_document_effect u created now clk p d) = generation_seq d" "counters (update_document_effect u created now clk p d) sequenceInbox = counters d sequenceInbox"
  "inbox (delete_document_effect ow ap ty ky by clk p d) = inbox d" "inbox_states (delete_document_effect ow ap ty ky by clk p d) = inbox_states d"
  "messages (delete_document_effect ow ap ty ky by clk p d) = messages d" "write_locks (delete_document_effect ow ap ty ky by clk p d) = write_locks d"
  "schemas (delete_document_effect ow ap ty ky by clk p d) = schemas d" "generations (delete_document_effect ow ap ty ky by clk p d) = generations d"
  "generation_schemas (delete_document_effect ow ap ty ky by clk p d) = generation_schemas d" "deprecations (delete_document_effect ow ap ty ky by clk p d) = deprecations d"
  "generation_seq (delete_document_effect ow ap ty ky by clk p d) = generation_seq d" "counters (delete_document_effect ow ap ty ky by clk p d) sequenceInbox = counters d sequenceInbox"
  "inbox (set_properties_effect ow us created now clk p d) = inbox d" "inbox_states (set_properties_effect ow us created now clk p d) = inbox_states d"
  "messages (set_properties_effect ow us created now clk p d) = messages d" "write_locks (set_properties_effect ow us created now clk p d) = write_locks d"
  "schemas (set_properties_effect ow us created now clk p d) = schemas d" "generations (set_properties_effect ow us created now clk p d) = generations d"
  "generation_schemas (set_properties_effect ow us created now clk p d) = generation_schemas d" "deprecations (set_properties_effect ow us created now clk p d) = deprecations d"
  "generation_seq (set_properties_effect ow us created now clk p d) = generation_seq d" "counters (set_properties_effect ow us created now clk p d) sequenceInbox = counters d sequenceInbox"
  "inbox (delete_properties_effect ow ds clk p d) = inbox d" "inbox_states (delete_properties_effect ow ds clk p d) = inbox_states d"
  "messages (delete_properties_effect ow ds clk p d) = messages d" "write_locks (delete_properties_effect ow ds clk p d) = write_locks d"
  "schemas (delete_properties_effect ow ds clk p d) = schemas d" "generations (delete_properties_effect ow ds clk p d) = generations d"
  "generation_schemas (delete_properties_effect ow ds clk p d) = generation_schemas d" "deprecations (delete_properties_effect ow ds clk p d) = deprecations d"
  "generation_seq (delete_properties_effect ow ds clk p d) = generation_seq d" "counters (delete_properties_effect ow ds clk p d) sequenceInbox = counters d sequenceInbox"
  by (simp_all add: update_document_effect_def put_document_def delete_document_effect_def
      set_properties_effect_def delete_properties_effect_def)

lemma eventlog_ok_cong:
  "eventlog d' = eventlog d \<Longrightarrow> counters d' sequenceEventLog = counters d sequenceEventLog \<Longrightarrow>
     eventlog_ok d' \<longleftrightarrow> eventlog_ok d"
  by (simp add: eventlog_ok_def)

lemma eventlog_ok_logged:
  assumes "eventlog_ok d"
  shows "eventlog_ok (logged clk p es d)"
proof (cases "es = []")
  case False
  let ?v = "event_counter d"
  have v: "0 \<le> ?v" "map ev_id (eventlog d) = [1..?v]"
    using eventlog_ok_counter [OF assms] by auto
  have "[1..?v + int (length es)] = [1..?v] @ [?v + 1..?v + int (length es)]"
    using v(1) upto_split1 [of 1 "?v + 1" "?v + int (length es)"] False
    by (cases es) simp_all
  then show ?thesis
    using False v by (simp add: eventlog_ok_def counters_logged ids_log_rows)
qed (simp add: logged_def assms)

text \<open>
  One step of history: data rows change, and the entries logged describe the change of the index.
\<close>

lemma settings_ok_logged:
  assumes ok: "settings_ok d"
    and ev: "eventlog d' = eventlog d" "counters d' sequenceEventLog = counters d sequenceEventLog"
    and docs: "distinct (map doc_key (documents d'))" "\<forall>r \<in> set (documents d'). 1 \<le> d_version r"
    and props: "distinct (map prop_key (properties d'))"
    and index: "settings_index (documents d') (properties d') =
      fold apply_entry (map entry_of_row es) (settings_index (documents d) (properties d))"
  shows "settings_ok (logged clk p es d')"
proof -
  have "eventlog_ok d'" using ok ev by (simp add: settings_ok_def eventlog_ok_def)
  then have "eventlog_ok (logged clk p es d')" by (rule eventlog_ok_logged)
  moreover have "replay (map entry_of_row (eventlog d)) = settings_index (documents d) (properties d)"
    using ok by (simp add: settings_ok_def)
  then have "replay (map entry_of_row (eventlog (logged clk p es d'))) = settings_index (documents d') (properties d')"
    by (simp add: replay_append replay_log_rows index ev)
  ultimately show ?thesis
    using docs props by (simp add: settings_ok_def)
qed

lemma settings_ok_parts:
  assumes "settings_ok d"
  shows "distinct (map doc_key (documents d))" "distinct (map prop_key (properties d))"
    "\<And>r. r \<in> set (documents d) \<Longrightarrow> 1 \<le> d_version r" "eventlog_ok d"
  using assms by (simp_all add: settings_ok_def)

lemma updated_document_version:
  "settings_ok d \<Longrightarrow> 1 \<le> d_version (updated_document u now d)"
proof -
  assume "settings_ok d"
  then show ?thesis
    using settings_ok_parts(3) [of d]
    by (fastforce simp: updated_document_def Let_def dest: row_at_SomeD split: option.splits)
qed

lemma update_document_ok:
  assumes "settings_ok d"
  shows "settings_ok (update_document_effect u created now clk p d)"
  unfolding update_document_effect_def
proof (rule settings_ok_logged [OF assms])
  let ?d' = "(put_document u now d)\<lparr>users := with_user (du_Owner u) created (ownerToUserKind (du_Owner u)) (users d)\<rparr>"
  let ?r = "updated_document u now d"
  show "eventlog ?d' = eventlog d" "counters ?d' sequenceEventLog = counters d sequenceEventLog"
    by (simp_all add: put_document_def)
  show "distinct (map doc_key (documents ?d'))"
    using distinct_put_row [OF settings_ok_parts(1) [OF assms]] by (simp add: put_document_def)
  show "\<forall>r \<in> set (documents ?d'). 1 \<le> d_version r"
    using set_put_row_subset [of doc_key ?r "documents d"] settings_ok_parts(3) [OF assms]
      updated_document_version [OF assms, of u now]
    by (auto simp: put_document_def)
  show "distinct (map prop_key (properties ?d'))"
    using settings_ok_parts(2) [OF assms] by (simp add: put_document_def)
  show "settings_index (documents ?d') (properties ?d') =
      fold apply_entry (map entry_of_row [document_event (du_Owner u) EventTypeUpdate (du_Application u)
        (du_Type u) (du_Key u) (Some (d_version ?r)) (du_UpdatedBy u)])
        (settings_index (documents d) (properties d))"
    by (simp add: put_document_def index_put_document apply_document_event)
qed

lemma delete_document_ok:
  assumes "settings_ok d"
  shows "settings_ok (delete_document_effect ow ap ty ky by clk p d)"
proof (cases "row_at doc_key (ow, ap, ty, ky) (documents d) = None")
  case False
  let ?d' = "d\<lparr>documents := drop_row doc_key (ow, ap, ty, ky) (documents d)\<rparr>"
  have "settings_ok (logged clk p [document_event ow EventTypeDelete ap ty ky None by] ?d')"
    using settings_ok_parts [OF assms]
    by (intro settings_ok_logged [OF assms])
      (auto simp: distinct_drop_row index_drop_document apply_document_event, auto simp: drop_row_def)
  with False show ?thesis by (auto simp: delete_document_effect_def)
qed (simp add: delete_document_effect_def assms)

lemma distinct_put_properties:
  "distinct (map prop_key rows) \<Longrightarrow> distinct (map prop_key (fold (put_property ow now) ps rows))"
  by (induction ps arbitrary: rows) (simp_all add: put_property_def distinct_put_row)

lemma distinct_drop_properties:
  "distinct (map prop_key rows) \<Longrightarrow> distinct (map prop_key (drop_properties ow ps rows))"
  by (induction ps arbitrary: rows) (simp_all add: drop_properties_def distinct_drop_row)

lemma set_properties_ok:
  assumes "settings_ok d"
  shows "settings_ok (set_properties_effect ow ps created now clk p d)"
  unfolding set_properties_effect_def
  using settings_ok_parts [OF assms]
  by (intro settings_ok_logged [OF assms]) (auto simp: distinct_put_properties index_put_properties)

lemma delete_properties_ok:
  assumes "settings_ok d"
  shows "settings_ok (delete_properties_effect ow ps clk p d)"
  unfolding delete_properties_effect_def
  using settings_ok_parts [OF assms]
  by (intro settings_ok_logged [OF assms]) (auto simp: distinct_drop_properties index_drop_properties)

section \<open>The eventlog as a stream\<close>

definition eventlog_rows :: "string list \<Rightarrow> db \<Rightarrow> event_row list" where
  "eventlog_rows owners d = filter (\<lambda>e. ev_owner e \<in> set owners) (eventlog d)"

lemma distinct_upto: "distinct [i..j :: int]"
  by (induction i j rule: upto.induct) (subst upto.simps, auto)

lemma distinct_eventlog_rows: "eventlog_ok d \<Longrightarrow> distinct (map ev_id (eventlog_rows owners d))"
  using eventlog_ok_counter [of d] distinct_upto [of 1 "event_counter d"]
  by (simp add: eventlog_rows_def distinct_map_filter)

interpretation eventlog_stream: cursor_stream
  "\<lambda>d. page_after ev_id (eventlog_rows owners d)" ev_id "eventlog_rows owners" eventlog_ok for owners
  by (rule page_after_stream) (rule distinct_eventlog_rows)

lemma GetEventLogEntriesAfterID_Inr:
  "GetEventLogEntriesAfterID owners a n w = (Inr es, w') \<longleftrightarrow>
     \<not> fault w (pos w) \<and> 0 \<le> n \<and> w' = step_to (db w) w \<and>
     es = map entry_of_row (page_after ev_id (eventlog_rows owners (db w)) a n)"
proof -
  have "filter (\<lambda>e. a < ev_id e) (eventlog_rows owners (db w)) =
      filter (\<lambda>e. ev_owner e \<in> set owners \<and> a < ev_id e) (eventlog (db w))"
    by (auto simp: eventlog_rows_def intro: filter_cong)
  then show ?thesis
    by (auto simp: GetEventLogEntriesAfterID_def bindM_Inr_iff q_GetEventLogEntriesAfterId_def run_stmt_Inr_iff
        page_after_def split: if_splits)
qed

text \<open>
  A client that drains the eventlog of one owner from the start holds the index of what this owner
  has: entries of other owners touch other targets.
\<close>

definition target_owner :: "target \<Rightarrow> string" where
  "target_owner t = (case t of DocTarget ow ap ty ky \<Rightarrow> ow | PropTarget ow ap ky \<Rightarrow> ow)"

lemma target_owner_entry: "target_owner (entry_target e) = ent_Owner e"
  by (simp add: target_owner_def entry_target_def split: resource_kind.splits)

lemma replay_owned:
  assumes "target_owner t \<in> set owners"
  shows "fold apply_entry (filter (\<lambda>e. ent_Owner e \<in> set owners) es) m t = fold apply_entry es m t"
proof -
  have "m1 t = m2 t \<Longrightarrow> fold apply_entry (filter (\<lambda>e. ent_Owner e \<in> set owners) es) m1 t = fold apply_entry es m2 t"
    for m1 m2 :: "target \<rightharpoonup> int"
  proof (induction es arbitrary: m1 m2)
    case (Cons e es)
    have "apply_entry e m1 t = apply_entry e m2 t"
      using Cons.prems by (simp add: apply_entry_def split: event_type.splits)
    moreover have "apply_entry e m2 t = m2 t" if "ent_Owner e \<notin> set owners"
    proof -
      have "entry_target e \<noteq> t" using that assms target_owner_entry [of e] by auto
      then show ?thesis by (simp add: apply_entry_def split: event_type.splits)
    qed
    ultimately show ?case
      using Cons.IH [of "apply_entry e m1" "apply_entry e m2"] Cons.IH [of m1 "apply_entry e m2"] Cons.prems
      by (cases "ent_Owner e \<in> set owners") simp_all
  qed simp
  then show ?thesis by blast
qed

end
