(* ===== verification/Config_Store.thy ===== *)
theory Config_Store
  imports Streams
begin

text \<open>
  Config generations, their schemas and the deprecations in the store: the statements of
  \<open>postgres/queries.sql.go\<close> on the tables \<open>document_schema\<close>, \<open>config_generation\<close>,
  \<open>config_generation_schema\<close> and \<open>deprecation\<close>, and the operations of
  \<open>internal/config_store.go\<close>. SHA-256 with its hex encoding (\<open>sha\<close>) and the rounding of
  \<open>float64\<close> (\<open>f64\<close>) are arguments.
\<close>

section \<open>The configuration contract (\<open>internal/config.go\<close>)\<close>

text \<open>
  A spec is \<open>None\<close> when it has no bytes; otherwise it is what its text parses to, \<open>Some None\<close> when
  it does not parse.
\<close>

record config_schema =
  sc_Name :: string
  sc_Version :: string
  sc_Spec :: "json option option"
  sc_Usage :: schema_usage

record config_generation =
  gen_ID :: int
  gen_Description :: string
  gen_Active :: bool
  gen_Created :: int
  gen_Activated :: "int option"
  gen_Schemas :: "config_schema list"

section \<open>Statements\<close>

abbreviation schema_key :: "schema_row \<Rightarrow> string \<times> string" where
  "schema_key r \<equiv> (ds_name r, ds_version r)"

abbreviation cgs_ref :: "generation_schema_row \<Rightarrow> string \<times> string" where
  "cgs_ref r \<equiv> (cgs_name r, cgs_version r)"

definition identityHashKey :: string where
  "identityHashKey = ''config_generation_identity_hash_key''"

definition singleActiveKey :: string where
  "singleActiveKey = ''config_generation_single_active''"

definition q_DeactivateActiveConfigGeneration :: "int \<Rightarrow> unit query" where
  "q_DeactivateActiveConfigGeneration excludeID = run_stmt (\<lambda>w.
     Inr ((), (db w)\<lparr>generations :=
       map (\<lambda>g. if cg_active g \<and> cg_id g \<noteq> excludeID then g\<lparr>cg_active := False\<rparr> else g) (generations (db w))\<rparr>))"

definition other_active :: "int \<Rightarrow> db \<Rightarrow> bool" where
  "other_active genID d \<longleftrightarrow> (\<exists>g \<in> set (generations d). cg_active g \<and> cg_id g \<noteq> genID)"

definition q_ActivateConfigGeneration :: "int \<Rightarrow> unit query" where
  "q_ActivateConfigGeneration genID = run_stmt (\<lambda>w.
     if genID \<in> cg_id ` set (generations (db w)) \<and> other_active genID (db w)
     then Inl (UniqueViolation singleActiveKey)
     else Inr ((), (db w)\<lparr>generations :=
       map (\<lambda>g. if cg_id g = genID then g\<lparr>cg_active := True, cg_activated_at := Some (sql_now w)\<rparr> else g)
         (generations (db w))\<rparr>))"

definition q_EnsureSchema :: "string \<Rightarrow> string \<Rightarrow> json option \<Rightarrow> schema_usage \<Rightarrow> unit query" where
  "q_EnsureSchema name version spec usage = run_stmt (\<lambda>w.
     (case spec of
        None \<Rightarrow> Inl ErrBadJson
      | Some j \<Rightarrow>
          if row_at schema_key (name, version) (schemas (db w)) \<noteq> None then Inr ((), db w)
          else Inr ((), (db w)\<lparr>schemas := schemas (db w) @
            [\<lparr>ds_name = name, ds_version = version, ds_spec = jsonb_norm j, ds_usage = usage\<rparr>]\<rparr>)))"

definition active_generation :: "db \<Rightarrow> generation_row option" where
  "active_generation d = find cg_active (generations d)"

definition q_GetActiveConfigGeneration :: "generation_row query" where
  "q_GetActiveConfigGeneration = run_stmt (\<lambda>w.
     (case active_generation (db w) of None \<Rightarrow> Inl ErrNoRows | Some g \<Rightarrow> Inr (g, db w)))"

definition q_GetConfigGeneration :: "int \<Rightarrow> generation_row query" where
  "q_GetConfigGeneration genID = run_stmt (\<lambda>w.
     (case row_at cg_id genID (generations (db w)) of None \<Rightarrow> Inl ErrNoRows | Some g \<Rightarrow> Inr (g, db w)))"

definition q_GetConfigGenerationByIdentityHash :: "string \<Rightarrow> generation_row query" where
  "q_GetConfigGenerationByIdentityHash h = run_stmt (\<lambda>w.
     (case row_at cg_identity_hash h (generations (db w)) of None \<Rightarrow> Inl ErrNoRows | Some g \<Rightarrow> Inr (g, db w)))"

text \<open>The rows of a generation joined with the schemas they refer to, by ordinal.\<close>

definition joined_schemas :: "db \<Rightarrow> int \<Rightarrow> (generation_schema_row \<times> schema_row) list" where
  "joined_schemas d genID =
     List.map_filter (\<lambda>r. map_option (Pair r) (row_at schema_key (cgs_ref r) (schemas d)))
       (sort_key cgs_ordinal (filter (\<lambda>r. cgs_generation_id r = genID) (generation_schemas d)))"

definition q_GetConfigGenerationSchemas :: "int \<Rightarrow> (generation_schema_row \<times> schema_row) list query" where
  "q_GetConfigGenerationSchemas genID = run_stmt (\<lambda>w. Inr (joined_schemas (db w) genID, db w))"

definition q_GetConfigGenerationSchemasWithSpec :: "int \<Rightarrow> (generation_schema_row \<times> schema_row) list query" where
  "q_GetConfigGenerationSchemasWithSpec genID = run_stmt (\<lambda>w. Inr (joined_schemas (db w) genID, db w))"

definition active_schemas :: "db \<Rightarrow> (generation_schema_row \<times> schema_row) list" where
  "active_schemas d = sort_key (\<lambda>x. cgs_ordinal (fst x))
     (concat (map (\<lambda>g. joined_schemas d (cg_id g)) (filter cg_active (generations d))))"

definition q_GetActiveSchemas :: "(generation_schema_row \<times> schema_row) list query" where
  "q_GetActiveSchemas = run_stmt (\<lambda>w. Inr (active_schemas (db w), db w))"

definition q_GetActiveSchema :: "string \<Rightarrow> schema_row query" where
  "q_GetActiveSchema name = run_stmt (\<lambda>w.
     (case find (\<lambda>x. cgs_name (fst x) = name) (active_schemas (db w)) of
        None \<Rightarrow> Inl ErrNoRows
      | Some x \<Rightarrow> Inr (snd x, db w)))"

definition q_GetSchema :: "string \<Rightarrow> string \<Rightarrow> schema_row query" where
  "q_GetSchema name version = run_stmt (\<lambda>w.
     (case row_at schema_key (name, version) (schemas (db w)) of
        None \<Rightarrow> Inl ErrNoRows
      | Some r \<Rightarrow> Inr (r, db w)))"

text \<open>The identity column draws from its sequence before the unique index is checked.\<close>

definition q_InsertConfigGeneration :: "string \<Rightarrow> string \<Rightarrow> generation_row query" where
  "q_InsertConfigGeneration h description w =
     (let i = generation_seq (db w) + 1;
          row = \<lparr>cg_id = i, cg_identity_hash = h, cg_description = description,
            cg_created_at = sql_now w, cg_activated_at = None, cg_active = False\<rparr>
      in if fault w (pos w) then (Inl DbFault, step_to (db w) w)
         else if \<not> in_bigint i then (Inl NumericOutOfRange, step_to (db w) w)
         else if h \<in> cg_identity_hash ` set (generations (db w))
         then (Inl (UniqueViolation identityHashKey), step_to ((db w)\<lparr>generation_seq := i\<rparr>) w)
         else (Inr row, step_to ((db w)\<lparr>generation_seq := i, generations := generations (db w) @ [row]\<rparr>) w))"

definition q_InsertConfigGenerationSchema :: "generation_schema_row \<Rightarrow> unit query" where
  "q_InsertConfigGenerationSchema r = run_stmt (\<lambda>w.
     if (cgs_generation_id r, cgs_name r) \<in>
        (\<lambda>x. (cgs_generation_id x, cgs_name x)) ` set (generation_schemas (db w))
     then Inl (UniqueViolation ''config_generation_schema_pkey'')
     else if row_at schema_key (cgs_ref r) (schemas (db w)) = None
     then Inl (FkViolation ''config_generation_schema_name_version_fkey'')
     else if row_at cg_id (cgs_generation_id r) (generations (db w)) = None
     then Inl (FkViolation ''config_generation_schema_generation_id_fkey'')
     else Inr ((), (db w)\<lparr>generation_schemas := generation_schemas (db w) @ [r]\<rparr>))"

definition q_ListConfigGenerations :: "int \<Rightarrow> int \<Rightarrow> generation_row list query" where
  "q_ListConfigGenerations before pageSize = run_stmt (\<lambda>w.
     if pageSize < 0 then Inl NegativeLimit
     else Inr (page_desc cg_id pageSize
       (filter (\<lambda>g. before = 0 \<or> cg_id g < before) (generations (db w))), db w))"

definition q_GetDeprecations :: "deprecation_row list query" where
  "q_GetDeprecations = run_stmt (\<lambda>w. Inr (sort_key (\<lambda>r. collate w (dep_label r)) (deprecations (db w)), db w))"

definition q_UpsertDeprecation :: "string \<Rightarrow> bool \<Rightarrow> unit query" where
  "q_UpsertDeprecation label enforced = run_stmt (\<lambda>w.
     Inr ((), (db w)\<lparr>deprecations := put_row dep_label \<lparr>dep_label = label, dep_enforced = enforced\<rparr> (deprecations (db w))\<rparr>))"

definition q_GetEnforcedDeprecations :: "string list query" where
  "q_GetEnforcedDeprecations = run_stmt (\<lambda>w.
     Inr (map dep_label (filter dep_enforced (deprecations (db w))), db w))"

section \<open>The identity of a set of schemas\<close>

definition schema_part :: "config_schema \<Rightarrow> string" where
  "schema_part s = ''schema:'' @ sc_Name s @ ''@'' @ sc_Version s"

definition identity_bytes :: "config_schema list \<Rightarrow> string" where
  "identity_bytes ss = concat (map (\<lambda>part. part @ [char_of (0 :: nat)]) (sort (map schema_part ss)))"

definition configGenerationIdentityHash :: "(string \<Rightarrow> string) \<Rightarrow> config_schema list \<Rightarrow> string" where
  "configGenerationIdentityHash sha ss = sha (identity_bytes ss)"

section \<open>Reading generations and schemas\<close>

definition configGenerationFromRow :: "generation_row \<Rightarrow> config_generation" where
  "configGenerationFromRow r = \<lparr>gen_ID = cg_id r, gen_Description = cg_description r,
     gen_Active = cg_active r, gen_Created = cg_created_at r, gen_Activated = cg_activated_at r,
     gen_Schemas = []\<rparr>"

definition schema_ref :: "generation_schema_row \<times> schema_row \<Rightarrow> config_schema" where
  "schema_ref x = \<lparr>sc_Name = cgs_name (fst x), sc_Version = cgs_version (fst x), sc_Spec = None,
     sc_Usage = ds_usage (snd x)\<rparr>"

definition schema_full :: "generation_schema_row \<times> schema_row \<Rightarrow> config_schema" where
  "schema_full x = (schema_ref x)\<lparr>sc_Spec := Some (Some (ds_spec (snd x)))\<rparr>"

definition schema_of_row :: "schema_row \<Rightarrow> config_schema" where
  "schema_of_row r = \<lparr>sc_Name = ds_name r, sc_Version = ds_version r,
     sc_Spec = Some (Some (ds_spec r)), sc_Usage = ds_usage r\<rparr>"

definition addGenerationSchemaRefs :: "config_generation \<Rightarrow> config_generation query" where
  "addGenerationSchemaRefs gen =
     bindM (q_GetConfigGenerationSchemas (gen_ID gen)) (\<lambda>refs.
     returnM (gen\<lparr>gen_Schemas := map schema_ref refs\<rparr>))"

definition GetConfigGeneration :: "int \<Rightarrow> config_generation query" where
  "GetConfigGeneration genID =
     catchM (q_GetConfigGeneration genID) (\<lambda>r.
       case r of
         Inl e \<Rightarrow> failM (if e = ErrNoRows then ErrGenerationNotFound else e)
       | Inr row \<Rightarrow> addGenerationSchemaRefs (configGenerationFromRow row))"

definition GetActiveConfigGeneration :: "config_generation option query" where
  "GetActiveConfigGeneration =
     catchM q_GetActiveConfigGeneration (\<lambda>r.
       case r of
         Inl e \<Rightarrow> if e = ErrNoRows then returnM None else failM e
       | Inr row \<Rightarrow>
           bindM (q_GetConfigGenerationSchemasWithSpec (cg_id row)) (\<lambda>rows.
           returnM (Some ((configGenerationFromRow row)\<lparr>gen_Schemas := map schema_full rows\<rparr>))))"

definition GetActiveConfigGenerationID :: "int query" where
  "GetActiveConfigGenerationID =
     catchM q_GetActiveConfigGeneration (\<lambda>r.
       case r of
         Inl e \<Rightarrow> if e = ErrNoRows then returnM 0 else failM e
       | Inr row \<Rightarrow> returnM (cg_id row))"

definition GetActiveSchemas :: "config_schema list query" where
  "GetActiveSchemas = bindM q_GetActiveSchemas (\<lambda>rows. returnM (map schema_full rows))"

definition ListConfigGenerations :: "int \<Rightarrow> int \<Rightarrow> config_generation list query" where
  "ListConfigGenerations before pageSize =
     bindM (q_ListConfigGenerations before pageSize) (\<lambda>rows.
     for_each (\<lambda>row. addGenerationSchemaRefs (configGenerationFromRow row)) rows)"

definition GetSchema :: "string \<Rightarrow> string \<Rightarrow> config_schema query" where
  "GetSchema name version =
     catchM (if version = [] then q_GetActiveSchema name else q_GetSchema name version) (\<lambda>r.
       case r of
         Inl e \<Rightarrow> failM (if e = ErrNoRows then ErrSchemaNotFound else e)
       | Inr row \<Rightarrow> returnM (schema_of_row row))"

section \<open>Registering and activating\<close>

definition ensureConfigSchema :: "(rat \<Rightarrow> rat) \<Rightarrow> config_schema \<Rightarrow> unit query" where
  "ensureConfigSchema f64 s =
     catchM (q_GetSchema (sc_Name s) (sc_Version s)) (\<lambda>r.
       case r of
         Inl e \<Rightarrow>
           if e = ErrNoRows then
             (case sc_Spec s of
                None \<Rightarrow> failM ErrSchemaSpecMissing
              | Some spec \<Rightarrow> q_EnsureSchema (sc_Name s) (sc_Version s) spec (sc_Usage s))
           else failM e
       | Inr stored \<Rightarrow>
           if ds_usage stored \<noteq> sc_Usage s then failM ErrSchemaMismatch
           else (case sc_Spec s of
              None \<Rightarrow> returnM ()
            | Some spec \<Rightarrow>
                (case jsonEqual f64 spec (Some (ds_spec stored)) of
                   None \<Rightarrow> failM ErrBadJson
                 | Some match \<Rightarrow> if match then returnM () else failM ErrSchemaMismatch)))"

definition ensureConfigSchemas :: "(rat \<Rightarrow> rat) \<Rightarrow> config_schema list \<Rightarrow> unit query" where
  "ensureConfigSchemas f64 ss = bindM (for_each (ensureConfigSchema f64) ss) (\<lambda>_. returnM ())"

definition notifySchemasUpdated :: "string \<Rightarrow> unit query" where
  "notifySchemasUpdated what = pgNotify NotifyChannelSchemaUpdate (SchemaEvent what)"

definition activateConfigGeneration :: "int \<Rightarrow> unit query" where
  "activateConfigGeneration genID =
     bindM (q_DeactivateActiveConfigGeneration genID) (\<lambda>_. q_ActivateConfigGeneration genID)"

text \<open>\<open>int32(i)\<close> of an index.\<close>

definition int32 :: "nat \<Rightarrow> int" where
  "int32 i = (int i + 2147483648) mod 4294967296 - 2147483648"

fun insertGenerationSchemas :: "int \<Rightarrow> nat \<Rightarrow> config_schema list \<Rightarrow> unit query" where
  "insertGenerationSchemas genID i [] = returnM ()"
| "insertGenerationSchemas genID i (s # ss) =
     bindM (q_InsertConfigGenerationSchema \<lparr>cgs_generation_id = genID, cgs_name = sc_Name s,
       cgs_version = sc_Version s, cgs_ordinal = int32 i\<rparr>) (\<lambda>_.
     insertGenerationSchemas genID (Suc i) ss)"

definition registerConfigGeneration_tx ::
    "(rat \<Rightarrow> rat) \<Rightarrow> string \<Rightarrow> config_schema list \<Rightarrow> bool \<Rightarrow> string \<Rightarrow> int query" where
  "registerConfigGeneration_tx f64 description ss activate h =
     bindM (ensureConfigSchemas f64 ss) (\<lambda>_.
     bindM
       (catchM (q_GetConfigGenerationByIdentityHash h) (\<lambda>r.
          case r of
            Inl e \<Rightarrow>
              if e = ErrNoRows then
                bindM (q_InsertConfigGeneration h description) (\<lambda>row.
                bindM (insertGenerationSchemas (cg_id row) 0 ss) (\<lambda>_.
                returnM row))
              else failM e
          | Inr existing \<Rightarrow> returnM existing)) (\<lambda>row.
     bindM
       (if activate \<and> \<not> cg_active row then
          bindM (activateConfigGeneration (cg_id row)) (\<lambda>_. notifySchemasUpdated ''activated'')
        else returnM ()) (\<lambda>_.
     returnM (cg_id row))))"

text \<open>The loop \<open>for range 2\<close>: a conflict on the identity hash is retried.\<close>

fun register_loop :: "nat \<Rightarrow> store_error \<Rightarrow> int query \<Rightarrow> int query" where
  "register_loop 0 hashErr attempt = failM hashErr"
| "register_loop (Suc k) hashErr attempt =
     catchM attempt (\<lambda>r.
       case r of
         Inl e \<Rightarrow> if e = UniqueViolation identityHashKey then register_loop k e attempt else failM e
       | Inr genID \<Rightarrow> returnM genID)"

definition RegisterConfigGeneration ::
    "int tx_runner \<Rightarrow> (string \<Rightarrow> string) \<Rightarrow> (rat \<Rightarrow> rat) \<Rightarrow> string \<Rightarrow> config_schema list \<Rightarrow> bool \<Rightarrow>
     config_generation query" where
  "RegisterConfigGeneration tx sha f64 description ss activate =
     (let h = configGenerationIdentityHash sha ss in
      bindM (register_loop 2 (UniqueViolation identityHashKey)
        (tx (registerConfigGeneration_tx f64 description ss activate h))) GetConfigGeneration)"

definition activateGeneration_tx :: "int \<Rightarrow> unit query" where
  "activateGeneration_tx genID =
     catchM (q_GetConfigGeneration genID) (\<lambda>r.
       case r of
         Inl e \<Rightarrow> failM (if e = ErrNoRows then ErrGenerationNotFound else e)
       | Inr gen \<Rightarrow>
           if \<not> cg_active gen then
             bindM (activateConfigGeneration genID) (\<lambda>_. notifySchemasUpdated ''activated'')
           else returnM ())"

definition ActivateConfigGeneration :: "unit tx_runner \<Rightarrow> int \<Rightarrow> config_generation query" where
  "ActivateConfigGeneration tx genID = bindM (tx (activateGeneration_tx genID)) (\<lambda>_. GetConfigGeneration genID)"

section \<open>Deprecations\<close>

definition GetDeprecations :: "(string \<times> bool) list query" where
  "GetDeprecations = bindM q_GetDeprecations (\<lambda>rows. returnM (map (\<lambda>r. (dep_label r, dep_enforced r)) rows))"

definition UpdateDeprecation_tx :: "string \<Rightarrow> bool \<Rightarrow> unit query" where
  "UpdateDeprecation_tx label enforced =
     bindM (q_UpsertDeprecation label enforced) (\<lambda>_.
     pgNotify NotifyChannelDeprecationUpdate (DeprecationEvent label))"

definition UpdateDeprecation :: "unit tx_runner \<Rightarrow> string \<Rightarrow> bool \<Rightarrow> unit query" where
  "UpdateDeprecation tx label enforced = tx (UpdateDeprecation_tx label enforced)"

text \<open>The map of enforced labels, \<open>True\<close> for each.\<close>

definition GetEnforcedDeprecations :: "(string \<rightharpoonup> bool) query" where
  "GetEnforcedDeprecations = bindM q_GetEnforcedDeprecations (\<lambda>labels.
     returnM (\<lambda>l. if l \<in> set labels then Some True else None))"

end
