(* ===== verification/Config_Facts.thy ===== *)
theory Config_Facts
  imports Config_Store
begin

text \<open>
  The invariant of the configuration tables (at most one active generation, unique identity
  hashes, references that resolve), its preservation, and what a registration or an activation
  does: schemas and generations are never changed once stored, and an activation leaves exactly
  one generation active.
\<close>

section \<open>The invariant\<close>

definition generations_ok :: "generation_row list \<Rightarrow> int \<Rightarrow> bool" where
  "generations_ok gs sq \<longleftrightarrow>
     distinct (map cg_id gs) \<and> distinct (map cg_identity_hash gs) \<and> 0 \<le> sq \<and>
     (\<forall>g \<in> set gs. 1 \<le> cg_id g \<and> cg_id g \<le> sq \<and> (cg_active g \<longrightarrow> cg_activated_at g \<noteq> None)) \<and>
     (\<forall>g \<in> set gs. \<forall>h \<in> set gs. cg_active g \<and> cg_active h \<longrightarrow> cg_id g = cg_id h)"

lemma generations_okD:
  assumes "generations_ok gs sq"
  shows "distinct (map cg_id gs)" "distinct (map cg_identity_hash gs)" "0 \<le> sq"
    "g \<in> set gs \<Longrightarrow> 1 \<le> cg_id g" "g \<in> set gs \<Longrightarrow> cg_id g \<le> sq" "g \<in> set gs \<Longrightarrow> cg_active g \<Longrightarrow> cg_activated_at g \<noteq> None"
    "g \<in> set gs \<Longrightarrow> h \<in> set gs \<Longrightarrow> cg_active g \<Longrightarrow> cg_active h \<Longrightarrow> cg_id g = cg_id h"
  using assms unfolding generations_ok_def by blast+

definition refs_ok :: "int set \<Rightarrow> (string \<times> string) set \<Rightarrow> generation_schema_row list \<Rightarrow> bool" where
  "refs_ok ids keys rows \<longleftrightarrow>
     distinct (map (\<lambda>r. (cgs_generation_id r, cgs_name r)) rows) \<and>
     (\<forall>r \<in> set rows. cgs_generation_id r \<in> ids \<and> cgs_ref r \<in> keys)"

definition config_ok :: "db \<Rightarrow> bool" where
  "config_ok d \<longleftrightarrow>
     generations_ok (generations d) (generation_seq d) \<and> distinct (map schema_key (schemas d)) \<and>
     refs_ok (cg_id ` set (generations d)) (schema_key ` set (schemas d)) (generation_schemas d) \<and>
     distinct (map dep_label (deprecations d))"

lemma config_ok_empty: "config_ok empty_db"
  by (simp add: config_ok_def generations_ok_def refs_ok_def empty_db_def)

lemma config_ok_cong:
  "generations d' = generations d \<Longrightarrow> generation_seq d' = generation_seq d \<Longrightarrow> schemas d' = schemas d \<Longrightarrow>
     generation_schemas d' = generation_schemas d \<Longrightarrow> deprecations d' = deprecations d \<Longrightarrow>
     config_ok d' \<longleftrightarrow> config_ok d"
  by (simp only: config_ok_def)

lemma refs_ok_mono: "refs_ok ids keys rows \<Longrightarrow> ids \<subseteq> ids' \<Longrightarrow> keys \<subseteq> keys' \<Longrightarrow> refs_ok ids' keys' rows"
  unfolding refs_ok_def by blast

lemma refs_ok_snoc:
  "refs_ok ids keys rows \<Longrightarrow>
     (cgs_generation_id r, cgs_name r) \<notin> (\<lambda>x. (cgs_generation_id x, cgs_name x)) ` set rows \<Longrightarrow>
     cgs_generation_id r \<in> ids \<Longrightarrow> cgs_ref r \<in> keys \<Longrightarrow> refs_ok ids keys (rows @ [r])"
  by (simp add: refs_ok_def)

text \<open>The tables a configuration transaction leaves alone.\<close>

definition config_frame :: "db \<Rightarrow> db \<Rightarrow> bool" where
  "config_frame d d' \<longleftrightarrow>
     users d' = users d \<and> messages d' = messages d \<and> write_locks d' = write_locks d \<and>
     inbox d' = inbox d \<and> inbox_states d' = inbox_states d \<and> counters d' = counters d \<and>
     documents d' = documents d \<and> properties d' = properties d \<and> eventlog d' = eventlog d"

text \<open>What is stored is never changed: schemas stay, and so do generations with their schemas.\<close>

definition same_generation :: "generation_row \<Rightarrow> generation_row \<Rightarrow> bool" where
  "same_generation g g' \<longleftrightarrow>
     cg_id g' = cg_id g \<and> cg_identity_hash g' = cg_identity_hash g \<and> cg_description g' = cg_description g \<and>
     cg_created_at g' = cg_created_at g"

definition generation_refs :: "db \<Rightarrow> int \<Rightarrow> generation_schema_row list" where
  "generation_refs d i = filter (\<lambda>r. cgs_generation_id r = i) (generation_schemas d)"

definition config_kept :: "db \<Rightarrow> db \<Rightarrow> bool" where
  "config_kept d d' \<longleftrightarrow>
     (\<forall>k r. row_at schema_key k (schemas d) = Some r \<longrightarrow> row_at schema_key k (schemas d') = Some r) \<and>
     (\<forall>g \<in> set (generations d). \<exists>g' \<in> set (generations d'). same_generation g g') \<and>
     (\<forall>i \<in> cg_id ` set (generations d). generation_refs d' i = generation_refs d i) \<and>
     generation_seq d \<le> generation_seq d'"

lemma same_generation_refl [simp]: "same_generation g g"
  by (simp add: same_generation_def)

lemma same_generation_trans: "same_generation g h \<Longrightarrow> same_generation h k \<Longrightarrow> same_generation g k"
  by (simp add: same_generation_def)

lemma generation_among: "g \<in> set gs \<Longrightarrow> set gs \<subseteq> gs' \<Longrightarrow> \<exists>g' \<in> gs'. same_generation g g'"
  using same_generation_refl by blast

lemma config_keptI:
  "(\<And>k r. row_at schema_key k (schemas d) = Some r \<Longrightarrow> row_at schema_key k (schemas d') = Some r) \<Longrightarrow>
   (\<And>g. g \<in> set (generations d) \<Longrightarrow> \<exists>g' \<in> set (generations d'). same_generation g g') \<Longrightarrow>
   (\<And>i. i \<in> cg_id ` set (generations d) \<Longrightarrow> generation_refs d' i = generation_refs d i) \<Longrightarrow>
   generation_seq d \<le> generation_seq d' \<Longrightarrow> config_kept d d'"
  unfolding config_kept_def by blast

lemma config_keptD:
  assumes "config_kept d d'"
  shows "row_at schema_key k (schemas d) = Some r \<Longrightarrow> row_at schema_key k (schemas d') = Some r"
    and "g \<in> set (generations d) \<Longrightarrow> \<exists>g' \<in> set (generations d'). same_generation g g'"
    and "i \<in> cg_id ` set (generations d) \<Longrightarrow> generation_refs d' i = generation_refs d i"
    and "generation_seq d \<le> generation_seq d'"
    and "i \<in> cg_id ` set (generations d) \<Longrightarrow> i \<in> cg_id ` set (generations d')"
proof -
  show seen: "g \<in> set (generations d) \<Longrightarrow> \<exists>g' \<in> set (generations d'). same_generation g g'" for g
    using assms unfolding config_kept_def by blast
  show "i \<in> cg_id ` set (generations d) \<Longrightarrow> i \<in> cg_id ` set (generations d')"
  proof -
    assume "i \<in> cg_id ` set (generations d)"
    then obtain g where "g \<in> set (generations d)" "i = cg_id g" by blast
    with seen [of g] show ?thesis by (metis same_generation_def image_eqI)
  qed
qed (use assms in \<open>unfold config_kept_def, blast+\<close>)

lemma config_frame_refl [simp]: "config_frame d d"
  by (simp add: config_frame_def)

lemma config_frame_trans: "config_frame d e \<Longrightarrow> config_frame e f \<Longrightarrow> config_frame d f"
  by (simp add: config_frame_def)

lemma config_kept_same:
  assumes "schemas d' = schemas d" "generations d' = generations d" "generation_schemas d' = generation_schemas d"
    "generation_seq d' = generation_seq d"
  shows "config_kept d d'"
  by (rule config_keptI) (use assms in \<open>simp_all add: generation_refs_def generation_among\<close>)

lemma config_kept_refl [simp]: "config_kept d d"
  by (simp add: config_kept_same)

lemma config_kept_trans:
  assumes "config_kept d e" "config_kept e f"
  shows "config_kept d f"
proof (rule config_keptI)
  show "row_at schema_key k (schemas f) = Some r" if "row_at schema_key k (schemas d) = Some r" for k r
    using that config_keptD(1) [OF assms(1)] config_keptD(1) [OF assms(2)] by blast
  show "\<exists>g' \<in> set (generations f). same_generation g g'" if "g \<in> set (generations d)" for g
    using config_keptD(2) [OF assms(1) that] config_keptD(2) [OF assms(2)] same_generation_trans by meson
  show "generation_refs f i = generation_refs d i" if "i \<in> cg_id ` set (generations d)" for i
    using config_keptD(3) [OF assms(1) that] config_keptD(3) [OF assms(2) config_keptD(5) [OF assms(1) that]] by simp
  show "generation_seq d \<le> generation_seq f"
    using config_keptD(4) [OF assms(1)] config_keptD(4) [OF assms(2)] by simp
qed

definition config_step :: "db \<Rightarrow> db \<Rightarrow> bool" where
  "config_step d d' \<longleftrightarrow> config_frame d d' \<and> (config_ok d \<longrightarrow> config_ok d' \<and> config_kept d d')"

lemma config_step_refl [simp]: "config_step d d"
  by (simp add: config_step_def)

lemma config_step_trans: "config_step d e \<Longrightarrow> config_step e f \<Longrightarrow> config_step d f"
  by (auto simp: config_step_def intro: config_frame_trans config_kept_trans)

section \<open>Schemas\<close>

text \<open>A schema of the request is covered by a stored one.\<close>

definition ensured :: "(rat \<Rightarrow> rat) \<Rightarrow> schema_row list \<Rightarrow> config_schema \<Rightarrow> bool" where
  "ensured f64 rows s \<longleftrightarrow>
     (\<exists>r. row_at schema_key (sc_Name s, sc_Version s) rows = Some r \<and> ds_usage r = sc_Usage s \<and>
        (\<forall>spec. sc_Spec s = Some spec \<longrightarrow> jsonEqual f64 spec (Some (ds_spec r)) = Some True))"

definition schemas_added :: "db \<Rightarrow> db \<Rightarrow> bool" where
  "schemas_added d d' \<longleftrightarrow>
     (\<exists>new. d' = d\<lparr>schemas := schemas d @ new\<rparr> \<and> (distinct (map schema_key (schemas d)) \<longrightarrow> distinct (map schema_key (schemas d @ new))))"

lemma schemas_added_refl: "schemas_added d d"
  by (auto simp: schemas_added_def intro: exI [of _ "[]"])

lemma schemas_added_trans:
  assumes "schemas_added d e" "schemas_added e f"
  shows "schemas_added d f"
proof -
  from assms obtain n1 n2 where "e = d\<lparr>schemas := schemas d @ n1\<rparr>" "f = e\<lparr>schemas := schemas e @ n2\<rparr>"
    and "distinct (map schema_key (schemas d)) \<longrightarrow> distinct (map schema_key (schemas d @ n1))"
    and "distinct (map schema_key (schemas e)) \<longrightarrow> distinct (map schema_key (schemas e @ n2))"
    unfolding schemas_added_def by blast
  then show ?thesis unfolding schemas_added_def by (intro exI [of _ "n1 @ n2"]) simp
qed

lemma row_at_added: "schemas_added d d' \<Longrightarrow> row_at schema_key k (schemas d) = Some r \<Longrightarrow> row_at schema_key k (schemas d') = Some r"
  by (auto simp: schemas_added_def row_at_append)

lemma ensured_added: "schemas_added d d' \<Longrightarrow> ensured f64 (schemas d) s \<Longrightarrow> ensured f64 (schemas d') s"
proof -
  assume a: "schemas_added d d'" and "ensured f64 (schemas d) s"
  then obtain r where "row_at schema_key (sc_Name s, sc_Version s) (schemas d) = Some r" "ds_usage r = sc_Usage s"
    and eq: "\<forall>spec. sc_Spec s = Some spec \<longrightarrow> jsonEqual f64 spec (Some (ds_spec r)) = Some True"
    unfolding ensured_def by blast
  with row_at_added [OF a] have "row_at schema_key (sc_Name s, sc_Version s) (schemas d') = Some r \<and> ds_usage r = sc_Usage s"
    by simp
  with eq show ?thesis unfolding ensured_def by blast
qed

lemma q_GetSchema_eq:
  "q_GetSchema n v w =
     (if fault w (pos w) then (Inl DbFault, step_to (db w) w)
      else case row_at schema_key (n, v) (schemas (db w)) of
        None \<Rightarrow> (Inl ErrNoRows, step_to (db w) w) | Some r \<Rightarrow> (Inr r, step_to (db w) w))"
  by (auto simp: q_GetSchema_def run_stmt_def split: option.splits)

lemma schemas_added_new:
  assumes "row_at schema_key (n, v) (schemas d) = None"
  shows "schemas_added d (d\<lparr>schemas := schemas d @ [\<lparr>ds_name = n, ds_version = v, ds_spec = j, ds_usage = u\<rparr>]\<rparr>)"
  using assms unfolding schemas_added_def row_at_None
  by (intro exI [of _ "[\<lparr>ds_name = n, ds_version = v, ds_spec = j, ds_usage = u\<rparr>]"]) simp

lemma ensureConfigSchema_effect:
  assumes "ensureConfigSchema f64 s w = (Inr a, w')"
  shows "schemas_added (db w) (db w') \<and> ensured f64 (schemas (db w')) s"
proof (cases "row_at schema_key (sc_Name s, sc_Version s) (schemas (db w))")
  case None
  have nf: "\<not> fault w (pos w)"
    using assms by (auto simp: ensureConfigSchema_def catchM_def q_GetSchema_eq)
  with None have g: "q_GetSchema (sc_Name s) (sc_Version s) w = (Inl ErrNoRows, step_to (db w) w)"
    by (simp add: q_GetSchema_eq)
  with assms have "(case sc_Spec s of None \<Rightarrow> failM ErrSchemaSpecMissing
      | Some spec \<Rightarrow> q_EnsureSchema (sc_Name s) (sc_Version s) spec (sc_Usage s)) (step_to (db w) w) = (Inr a, w')"
    by (simp add: ensureConfigSchema_def)
  then obtain spec where spec: "sc_Spec s = Some spec"
    and q: "q_EnsureSchema (sc_Name s) (sc_Version s) spec (sc_Usage s) (step_to (db w) w) = (Inr (), w')"
    by (cases "sc_Spec s") auto
  then obtain j where j: "spec = Some j"
    by (auto simp: q_EnsureSchema_def run_stmt_Inr_iff split: option.splits)
  let ?new = "\<lparr>ds_name = sc_Name s, ds_version = sc_Version s, ds_spec = jsonb_norm j, ds_usage = sc_Usage s\<rparr>"
  have d: "db w' = (db w)\<lparr>schemas := schemas (db w) @ [?new]\<rparr>"
    using q None j by (auto simp: q_EnsureSchema_def run_stmt_Inr_iff)
  have "schemas_added (db w) (db w')"
    unfolding d using None by (rule schemas_added_new)
  moreover have "ensured f64 (schemas (db w')) s"
    using None spec j by (simp add: ensured_def d row_at_append row_at_Cons jsonEqual_stored)
  ultimately show ?thesis ..
next
  case (Some r)
  have nf: "\<not> fault w (pos w)"
    using assms by (auto simp: ensureConfigSchema_def catchM_def q_GetSchema_eq)
  with Some have "q_GetSchema (sc_Name s) (sc_Version s) w = (Inr r, step_to (db w) w)"
    by (simp add: q_GetSchema_eq)
  with assms have *: "(if ds_usage r \<noteq> sc_Usage s then failM ErrSchemaMismatch
     else (case sc_Spec s of None \<Rightarrow> returnM ()
       | Some spec \<Rightarrow> (case jsonEqual f64 spec (Some (ds_spec r)) of None \<Rightarrow> failM ErrBadJson
          | Some match \<Rightarrow> if match then returnM () else failM ErrSchemaMismatch))) (step_to (db w) w) = (Inr a, w')"
    by (simp add: ensureConfigSchema_def)
  have "ds_usage r = sc_Usage s" using * by (cases "ds_usage r = sc_Usage s") auto
  moreover have "db w' = db w \<and> (\<forall>spec. sc_Spec s = Some spec \<longrightarrow> jsonEqual f64 spec (Some (ds_spec r)) = Some True)"
    using * calculation by (auto split: option.splits if_splits)
  ultimately have "db w' = db w" "ds_usage r = sc_Usage s"
    "\<And>spec. sc_Spec s = Some spec \<Longrightarrow> jsonEqual f64 spec (Some (ds_spec r)) = Some True"
    by blast+
  with Some show ?thesis by (auto simp: ensured_def intro: schemas_added_refl)
qed

lemma ensure_loop_effect:
  "for_each (ensureConfigSchema f64) ss w = (Inr as, w') \<Longrightarrow>
     schemas_added (db w) (db w') \<and> (\<forall>s \<in> set ss. ensured f64 (schemas (db w')) s)"
proof (induction ss arbitrary: as w)
  case (Cons s ss)
  from Cons.prems obtain a w1 as' where 1: "ensureConfigSchema f64 s w = (Inr a, w1)"
    and 2: "for_each (ensureConfigSchema f64) ss w1 = (Inr as', w')"
    by (auto simp: bindM_Inr_iff)
  note one = ensureConfigSchema_effect [OF 1] and rest = Cons.IH [OF 2]
  have "schemas_added (db w) (db w')" using one rest schemas_added_trans by blast
  moreover have "ensured f64 (schemas (db w')) s" using one rest ensured_added by blast
  ultimately show ?case using rest by simp
qed (simp add: schemas_added_refl)

lemma ensureConfigSchemas_effect:
  "ensureConfigSchemas f64 ss w = (Inr a, w') \<Longrightarrow>
     schemas_added (db w) (db w') \<and> (\<forall>s \<in> set ss. ensured f64 (schemas (db w')) s)"
  by (auto simp: ensureConfigSchemas_def bindM_Inr_iff dest: ensure_loop_effect)

lemma schemas_added_step: "schemas_added d d' \<Longrightarrow> config_step d d'"
proof -
  assume a: "schemas_added d d'"
  then obtain new where d': "d' = d\<lparr>schemas := schemas d @ new\<rparr>"
    and dist: "distinct (map schema_key (schemas d)) \<longrightarrow> distinct (map schema_key (schemas d @ new))"
    by (auto simp: schemas_added_def)
  have refs: "refs_ok (cg_id ` set (generations d)) (schema_key ` set (schemas d)) (generation_schemas d) \<Longrightarrow>
      refs_ok (cg_id ` set (generations d)) (schema_key ` set (schemas d @ new)) (generation_schemas d)"
    by (erule refs_ok_mono) auto
  have "config_ok d \<Longrightarrow> config_ok d'"
    using dist refs by (simp add: d' config_ok_def del: distinct_append map_append set_append)
  moreover have "config_kept d d'"
    by (rule config_keptI) (use row_at_added [OF a] in \<open>simp_all add: d' generation_refs_def generation_among\<close>)
  ultimately show ?thesis by (simp add: config_step_def config_frame_def d')
qed

section \<open>Activation\<close>

definition activated :: "int \<Rightarrow> int \<Rightarrow> generation_row \<Rightarrow> generation_row" where
  "activated i now g =
     (if cg_id g = i then g\<lparr>cg_active := True, cg_activated_at := Some now\<rparr> else g\<lparr>cg_active := False\<rparr>)"

lemma activated_simps [simp]:
  "cg_id (activated i now g) = cg_id g" "cg_identity_hash (activated i now g) = cg_identity_hash g"
  "cg_description (activated i now g) = cg_description g" "cg_created_at (activated i now g) = cg_created_at g"
  "cg_active (activated i now g) \<longleftrightarrow> cg_id g = i"
  by (simp_all add: activated_def)

lemma deactivate_activate:
  "(let g' = if cg_active g \<and> cg_id g \<noteq> i then g\<lparr>cg_active := False\<rparr> else g
    in if cg_id g' = i then g'\<lparr>cg_active := True, cg_activated_at := Some now\<rparr> else g') = activated i now g"
  by (cases g) (simp add: activated_def Let_def)

definition activate_effect :: "int \<Rightarrow> int \<Rightarrow> db \<Rightarrow> db" where
  "activate_effect i now d = d\<lparr>generations := map (activated i now) (generations d)\<rparr>"

lemma two_updates:
  "activate_effect i now d = d\<lparr>generations :=
     map (\<lambda>g. if cg_id g = i then g\<lparr>cg_active := True, cg_activated_at := Some now\<rparr> else g)
       (map (\<lambda>g. if cg_active g \<and> cg_id g \<noteq> i then g\<lparr>cg_active := False\<rparr> else g) (generations d))\<rparr>"
  using deactivate_activate [of _ i now] by (simp add: activate_effect_def comp_def Let_def)

lemma q_ActivateConfigGeneration_effect:
  "q_ActivateConfigGeneration i w = (Inr a, w') \<Longrightarrow>
     db w' = (db w)\<lparr>generations := map (\<lambda>g. if cg_id g = i
       then g\<lparr>cg_active := True, cg_activated_at := Some (sql_now w)\<rparr> else g) (generations (db w))\<rparr>"
  by (simp add: q_ActivateConfigGeneration_def run_stmt_Inr_iff split: if_splits)

lemma activateConfigGeneration_effect:
  assumes "activateConfigGeneration i w = (Inr a, w')"
  shows "db w' = activate_effect i (sql_now w) (db w)"
proof -
  let ?d1 = "(db w)\<lparr>generations := map (\<lambda>g. if cg_active g \<and> cg_id g \<noteq> i then g\<lparr>cg_active := False\<rparr> else g)
    (generations (db w))\<rparr>"
  from assms have "q_ActivateConfigGeneration i (step_to ?d1 w) = (Inr a, w')"
    by (auto simp: activateConfigGeneration_def bindM_Inr_iff q_DeactivateActiveConfigGeneration_def run_stmt_Inr_iff)
  from q_ActivateConfigGeneration_effect [OF this] show ?thesis by (simp add: two_updates del: map_map)
qed

text \<open>The unique index on the active flag never refuses an activation.\<close>

lemma activateConfigGeneration_total:
  assumes "\<And>n. \<not> fault w n"
  shows "\<exists>w'. activateConfigGeneration i w = (Inr (), w')"
proof -
  let ?gs = "map (\<lambda>g. if cg_active g \<and> cg_id g \<noteq> i then g\<lparr>cg_active := False\<rparr> else g) (generations (db w))"
  have "\<not> other_active i ((db w)\<lparr>generations := ?gs\<rparr>)" by (auto simp: other_active_def)
  with assms show ?thesis
    by (simp add: activateConfigGeneration_def bindM_def q_DeactivateActiveConfigGeneration_def
        q_ActivateConfigGeneration_def run_stmt_def del: map_map set_map)
qed

lemma generations_ok_activated: "generations_ok gs sq \<Longrightarrow> generations_ok (map (activated i now) gs) sq"
proof -
  assume ok: "generations_ok gs sq"
  have "map cg_id (map (activated i now) gs) = map cg_id gs"
    "map cg_identity_hash (map (activated i now) gs) = map cg_identity_hash gs" by simp_all
  then show ?thesis
    using ok unfolding generations_ok_def by (simp del: map_map) (auto simp: activated_def)
qed

lemma activate_effect_step: "config_step d (activate_effect i now d)"
proof -
  have "config_ok d \<Longrightarrow> config_ok (activate_effect i now d)"
    by (simp add: config_ok_def activate_effect_def generations_ok_activated image_image)
  moreover have "config_kept d (activate_effect i now d)"
    by (rule config_keptI) (auto simp: activate_effect_def generation_refs_def same_generation_def)
  ultimately show ?thesis by (simp add: config_step_def config_frame_def activate_effect_def)
qed

text \<open>After an activation exactly the activated generation is active.\<close>

lemma find_unique:
  "distinct (map f xs) \<Longrightarrow> x \<in> set xs \<Longrightarrow> (\<And>y. y \<in> set xs \<Longrightarrow> P y \<longleftrightarrow> f y = f x) \<Longrightarrow> find P xs = Some x"
  by (induction xs) (auto simp: inj_on_def)

lemma active_after_activate:
  assumes "config_ok d" "row_at cg_id i (generations d) = Some g"
  shows "active_generation (activate_effect i now d) = Some (activated i now g)"
proof -
  have g: "g \<in> set (generations d)" "cg_id g = i" using row_at_SomeD [OF assms(2)] by auto
  have "find cg_active (map (activated i now) (generations d)) = Some (activated i now g)"
    by (rule find_unique [where f = cg_id]) (use assms(1) g in \<open>auto simp: config_ok_def generations_ok_def comp_def\<close>)
  then show ?thesis by (simp add: active_generation_def activate_effect_def)
qed

section \<open>Registration\<close>

definition new_generation :: "string \<Rightarrow> string \<Rightarrow> int \<Rightarrow> db \<Rightarrow> generation_row" where
  "new_generation h description now d = \<lparr>cg_id = generation_seq d + 1, cg_identity_hash = h,
     cg_description = description, cg_created_at = now, cg_activated_at = None, cg_active = False\<rparr>"

definition generation_rows :: "int \<Rightarrow> nat \<Rightarrow> config_schema list \<Rightarrow> generation_schema_row list" where
  "generation_rows genID k ss =
     map (\<lambda>(i, s). \<lparr>cgs_generation_id = genID, cgs_name = sc_Name s, cgs_version = sc_Version s,
       cgs_ordinal = int32 i\<rparr>) (zip [k..<k + length ss] ss)"

lemma generation_rows_Nil [simp]: "generation_rows i k [] = []"
  by (simp add: generation_rows_def)

lemma generation_rows_Cons [simp]:
  "generation_rows i k (s # ss) = \<lparr>cgs_generation_id = i, cgs_name = sc_Name s, cgs_version = sc_Version s,
     cgs_ordinal = int32 k\<rparr> # generation_rows i (Suc k) ss"
  by (simp add: generation_rows_def upt_conv_Cons del: upt_Suc)

lemma q_InsertConfigGenerationSchema_iff [query_simps]:
  "q_InsertConfigGenerationSchema r w = (Inr a, w') \<longleftrightarrow>
     \<not> fault w (pos w) \<and>
     (cgs_generation_id r, cgs_name r) \<notin> (\<lambda>x. (cgs_generation_id x, cgs_name x)) ` set (generation_schemas (db w)) \<and>
     cgs_ref r \<in> schema_key ` set (schemas (db w)) \<and> cgs_generation_id r \<in> cg_id ` set (generations (db w)) \<and>
     w' = step_to ((db w)\<lparr>generation_schemas := generation_schemas (db w) @ [r]\<rparr>) w"
  unfolding q_InsertConfigGenerationSchema_def run_stmt_Inr_iff row_at_None by auto

lemma insertGenerationSchemas_effect:
  "insertGenerationSchemas i k ss w = (Inr a, w') \<Longrightarrow>
     db w' = (db w)\<lparr>generation_schemas := generation_schemas (db w) @ generation_rows i k ss\<rparr> \<and>
     sql_now w' = sql_now w \<and>
     (config_ok (db w) \<longrightarrow> config_ok (db w')) \<and>
     (ss \<noteq> [] \<longrightarrow> i \<in> cg_id ` set (generations (db w)))"
proof (induction ss arbitrary: k w)
  case (Cons s ss)
  let ?r = "\<lparr>cgs_generation_id = i, cgs_name = sc_Name s, cgs_version = sc_Version s, cgs_ordinal = int32 k\<rparr>"
  let ?d1 = "(db w)\<lparr>generation_schemas := generation_schemas (db w) @ [?r]\<rparr>"
  from Cons.prems have fresh: "(i, sc_Name s) \<notin> (\<lambda>x. (cgs_generation_id x, cgs_name x)) ` set (generation_schemas (db w))"
    and fk: "(sc_Name s, sc_Version s) \<in> schema_key ` set (schemas (db w))" "i \<in> cg_id ` set (generations (db w))"
    and rest: "insertGenerationSchemas i (Suc k) ss (step_to ?d1 w) = (Inr a, w')"
    by (simp_all add: bindM_Inr_iff query_simps)
  have ok: "config_ok (db w) \<Longrightarrow> config_ok ?d1"
    unfolding config_ok_def using fresh fk by (simp add: refs_ok_snoc)
  note IH = Cons.IH [OF rest, unfolded step_to_simps]
  have "config_ok (db w) \<longrightarrow> config_ok (db w')" using IH ok by blast
  then show ?case
    using IH fk(2) by simp
qed simp

lemma q_InsertConfigGeneration_iff:
  "q_InsertConfigGeneration h desc w = (Inr row, w') \<longleftrightarrow>
     \<not> fault w (pos w) \<and> in_bigint (generation_seq (db w) + 1) \<and>
     h \<notin> cg_identity_hash ` set (generations (db w)) \<and>
     row = new_generation h desc (sql_now w) (db w) \<and>
     w' = step_to ((db w)\<lparr>generation_seq := generation_seq (db w) + 1,
       generations := generations (db w) @ [row]\<rparr>) w"
  by (auto simp: q_InsertConfigGeneration_def Let_def new_generation_def)

definition insert_generation_effect :: "string \<Rightarrow> string \<Rightarrow> config_schema list \<Rightarrow> int \<Rightarrow> db \<Rightarrow> db" where
  "insert_generation_effect h description ss now d =
     d\<lparr>generation_seq := generation_seq d + 1,
       generations := generations d @ [new_generation h description now d],
       generation_schemas := generation_schemas d @ generation_rows (generation_seq d + 1) 0 ss\<rparr>"

lemma generations_ok_snoc:
  assumes ok: "generations_ok gs sq" and "cg_identity_hash g \<notin> cg_identity_hash ` set gs"
    and "cg_id g = sq + 1" "\<not> cg_active g"
  shows "generations_ok (gs @ [g]) (sq + 1)"
proof -
  have below: "cg_id x < sq + 1" if "x \<in> set gs" for x using ok that by (auto simp: generations_ok_def)
  then have "sq + 1 \<notin> cg_id ` set gs" by (metis imageE less_irrefl)
  then have "distinct (map cg_id (gs @ [g]))" "distinct (map cg_identity_hash (gs @ [g]))"
    using assms by (simp_all add: generations_ok_def)
  moreover have "\<forall>x \<in> set (gs @ [g]). 1 \<le> cg_id x \<and> cg_id x \<le> sq + 1 \<and> (cg_active x \<longrightarrow> cg_activated_at x \<noteq> None)"
    using assms below by (force simp: generations_ok_def)
  moreover have "cg_id x = cg_id y"
    if "x \<in> set (gs @ [g])" "y \<in> set (gs @ [g])" "cg_active x" "cg_active y" for x y
  proof -
    have "x \<in> set gs" "y \<in> set gs" using that assms(4) by auto
    then show ?thesis using ok that(3,4) unfolding generations_ok_def by blast
  qed
  moreover have "0 \<le> sq + 1" using ok by (simp add: generations_ok_def)
  ultimately show ?thesis unfolding generations_ok_def by blast
qed

lemma new_generation_ok:
  assumes "config_ok d" "h \<notin> cg_identity_hash ` set (generations d)"
  shows "config_ok (d\<lparr>generation_seq := generation_seq d + 1,
    generations := generations d @ [new_generation h desc now d]\<rparr>)"
proof -
  have "generations_ok (generations d @ [new_generation h desc now d]) (generation_seq d + 1)"
    using assms by (intro generations_ok_snoc) (simp_all add: config_ok_def new_generation_def)
  moreover have "refs_ok (cg_id ` set (generations d)) (schema_key ` set (schemas d)) (generation_schemas d)"
    using assms(1) by (simp add: config_ok_def)
  then have "refs_ok (insert (cg_id (new_generation h desc now d)) (cg_id ` set (generations d)))
      (schema_key ` set (schemas d)) (generation_schemas d)"
    by (rule refs_ok_mono) auto
  ultimately show ?thesis
    using assms(1) by (simp add: config_ok_def)
qed

lemma insert_generation_step:
  assumes "q_InsertConfigGeneration h desc w = (Inr row, w1)" "insertGenerationSchemas (cg_id row) 0 ss w1 = (Inr a, w2)"
  shows "db w2 = insert_generation_effect h desc ss (sql_now w) (db w)" "row = new_generation h desc (sql_now w) (db w)"
    "config_step (db w) (db w2)" "sql_now w2 = sql_now w"
proof -
  let ?d1 = "(db w)\<lparr>generation_seq := generation_seq (db w) + 1, generations := generations (db w) @ [row]\<rparr>"
  have row: "row = new_generation h desc (sql_now w) (db w)" and h: "h \<notin> cg_identity_hash ` set (generations (db w))"
    and w1: "db w1 = ?d1" "sql_now w1 = sql_now w"
    using assms(1) by (simp_all add: q_InsertConfigGeneration_iff)
  have i: "cg_id row = generation_seq (db w) + 1" by (simp add: row new_generation_def)
  note ins = insertGenerationSchemas_effect [OF assms(2)]
  have d2: "db w2 = insert_generation_effect h desc ss (sql_now w) (db w)"
    using ins by (simp add: w1 insert_generation_effect_def i [symmetric] row [symmetric])
  have ok: "config_ok (db w) \<Longrightarrow> config_ok (db w2)"
    using ins new_generation_ok [OF _ h] unfolding w1 row by blast
  have kept: "config_kept (db w) (db w2)" if "config_ok (db w)"
  proof -
    have "generation_seq (db w) + 1 \<notin> cg_id ` set (generations (db w))"
      using that by (force simp: config_ok_def generations_ok_def)
    moreover have "cgs_generation_id r = generation_seq (db w) + 1"
      if "r \<in> set (generation_rows (generation_seq (db w) + 1) 0 ss)" for r
      using that by (auto simp: generation_rows_def)
    ultimately have "filter (\<lambda>r. cgs_generation_id r = k) (generation_rows (generation_seq (db w) + 1) 0 ss) = []"
      if "k \<in> cg_id ` set (generations (db w))" for k
      using that by (auto simp: filter_empty_conv)
    then show ?thesis
      by (intro config_keptI) (simp_all add: d2 insert_generation_effect_def generation_refs_def generation_among subset_insertI)
  qed
  show "db w2 = insert_generation_effect h desc ss (sql_now w) (db w)" "row = new_generation h desc (sql_now w) (db w)"
    using d2 row by auto
  show "config_step (db w) (db w2)"
    using ok kept by (simp add: config_step_def config_frame_def d2 insert_generation_effect_def)
  show "sql_now w2 = sql_now w" using ins w1 by simp
qed

lemma outbox_step: "config_step d (d\<lparr>outbox := x\<rparr>)"
  by (simp add: config_step_def config_frame_def config_ok_def config_kept_same)

text \<open>The three phases of a registration: schemas, the generation with its hash, activation.\<close>

lemma registerConfigGeneration_tx_phases:
  assumes "registerConfigGeneration_tx f64 desc ss activate h w = (Inr i, w')"
  obtains w1 w2 :: world and row where
    "schemas_added (db w) (db w1)" "\<forall>s \<in> set ss. ensured f64 (schemas (db w1)) s"
    "row_at cg_identity_hash h (generations (db w1)) = Some row \<and> db w2 = db w1 \<or>
     row_at cg_identity_hash h (generations (db w1)) = None \<and>
       row = new_generation h desc (sql_now w1) (db w1) \<and>
       db w2 = insert_generation_effect h desc ss (sql_now w1) (db w1) \<and> config_step (db w1) (db w2)"
    "i = cg_id row"
    "if activate \<and> \<not> cg_active row
     then db w' = (activate_effect i (sql_now w2) (db w2))\<lparr>outbox := outbox (db w2) @ [(NotifyChannelSchemaUpdate, SchemaEvent ''activated'')]\<rparr>
     else db w' = db w2"
proof -
  let ?find = "catchM (q_GetConfigGenerationByIdentityHash h) (\<lambda>r.
          case r of
            Inl e \<Rightarrow>
              if e = ErrNoRows then
                bindM (q_InsertConfigGeneration h desc) (\<lambda>row.
                bindM (insertGenerationSchemas (cg_id row) 0 ss) (\<lambda>_.
                returnM row))
              else failM e
          | Inr existing \<Rightarrow> returnM existing)"
  from assms obtain w1 row w2 where
    1: "ensureConfigSchemas f64 ss w = (Inr (), w1)" and 2: "?find w1 = (Inr row, w2)" and i: "i = cg_id row"
    and 3: "(if activate \<and> \<not> cg_active row then
          bindM (activateConfigGeneration (cg_id row)) (\<lambda>_. notifySchemasUpdated ''activated'')
        else returnM ()) w2 = (Inr (), w')"
    by (auto simp: registerConfigGeneration_tx_def bindM_Inr_iff split del: if_split)
  have two: "row_at cg_identity_hash h (generations (db w1)) = Some row \<and> db w2 = db w1 \<or>
     row_at cg_identity_hash h (generations (db w1)) = None \<and>
       row = new_generation h desc (sql_now w1) (db w1) \<and>
       db w2 = insert_generation_effect h desc ss (sql_now w1) (db w1) \<and> config_step (db w1) (db w2)"
  proof (cases "row_at cg_identity_hash h (generations (db w1))")
    case None
    then have "bindM (q_InsertConfigGeneration h desc) (\<lambda>row. bindM (insertGenerationSchemas (cg_id row) 0 ss) (\<lambda>_.
        returnM row)) (step_to (db w1) w1) = (Inr row, w2)"
      using 2 by (auto simp: catchM_def q_GetConfigGenerationByIdentityHash_def run_stmt_def split: if_splits)
    then obtain w3 a where "q_InsertConfigGeneration h desc (step_to (db w1) w1) = (Inr row, w3)"
      "insertGenerationSchemas (cg_id row) 0 ss w3 = (Inr a, w2)"
      by (auto simp: bindM_Inr_iff)
    from insert_generation_step [OF this] None show ?thesis by simp
  next
    case (Some row')
    with 2 show ?thesis
      by (auto simp: catchM_def q_GetConfigGenerationByIdentityHash_def run_stmt_def split: if_splits)
  qed
  have three: "if activate \<and> \<not> cg_active row
     then db w' = (activate_effect i (sql_now w2) (db w2))\<lparr>outbox := outbox (db w2) @ [(NotifyChannelSchemaUpdate, SchemaEvent ''activated'')]\<rparr>
     else db w' = db w2"
  proof (cases "activate \<and> \<not> cg_active row")
    case True
    with 3 obtain w4 where "activateConfigGeneration i w2 = (Inr (), w4)" "notifySchemasUpdated ''activated'' w4 = (Inr (), w')"
      by (auto simp: bindM_Inr_iff i)
    with activateConfigGeneration_effect [OF this(1)] True show ?thesis
      by (simp add: notifySchemasUpdated_def pgNotify_iff activate_effect_def)
  next
    case False
    with 3 show ?thesis by auto
  qed
  show thesis
    using ensureConfigSchemas_effect [OF 1] two i three by (intro that [of w1 row w2]) blast+
qed

lemma registerConfigGeneration_tx_step:
  assumes "registerConfigGeneration_tx f64 desc ss activate h w = (Inr i, w')"
  shows "config_step (db w) (db w')"
proof -
  obtain w1 w2 :: world and row where 1:
    "schemas_added (db w) (db w1)" "\<forall>s \<in> set ss. ensured f64 (schemas (db w1)) s"
    "row_at cg_identity_hash h (generations (db w1)) = Some row \<and> db w2 = db w1 \<or>
     row_at cg_identity_hash h (generations (db w1)) = None \<and>
       row = new_generation h desc (sql_now w1) (db w1) \<and>
       db w2 = insert_generation_effect h desc ss (sql_now w1) (db w1) \<and> config_step (db w1) (db w2)"
    "i = cg_id row"
    "if activate \<and> \<not> cg_active row
     then db w' = (activate_effect i (sql_now w2) (db w2))\<lparr>outbox := outbox (db w2) @ [(NotifyChannelSchemaUpdate, SchemaEvent ''activated'')]\<rparr>
     else db w' = db w2"
    by (rule registerConfigGeneration_tx_phases [OF assms])
  have a: "config_step (db w) (db w1)" using 1(1) by (rule schemas_added_step)
  have b: "config_step (db w1) (db w2)" using 1(3) by auto
  have c: "config_step (db w2) (db w')"
  proof (cases "activate \<and> \<not> cg_active row")
    case True
    with 1(5) have "db w' = (activate_effect i (sql_now w2) (db w2))\<lparr>outbox := outbox (db w2) @ [(NotifyChannelSchemaUpdate, SchemaEvent ''activated'')]\<rparr>"
      by simp
    then show ?thesis
      using config_step_trans [OF activate_effect_step outbox_step] by metis
  next
    case False
    with 1(5) show ?thesis by auto
  qed
  show ?thesis by (rule config_step_trans [OF a config_step_trans [OF b c]])
qed

lemma activateGeneration_tx_effect:
  assumes "activateGeneration_tx i w = (Inr a, w')"
  shows "\<exists>g. row_at cg_id i (generations (db w)) = Some g \<and>
    (if cg_active g then db w' = db w
     else db w' = (activate_effect i (sql_now w) (db w))\<lparr>outbox := outbox (db w) @ [(NotifyChannelSchemaUpdate, SchemaEvent ''activated'')]\<rparr>)"
proof (cases "row_at cg_id i (generations (db w))")
  case None
  with assms show ?thesis
    by (auto simp: activateGeneration_tx_def catchM_def q_GetConfigGeneration_def run_stmt_def split: if_splits)
next
  case (Some g)
  show ?thesis
  proof (cases "cg_active g")
    case True
    with Some assms show ?thesis
      by (auto simp: activateGeneration_tx_def catchM_def q_GetConfigGeneration_def run_stmt_def split: if_splits)
  next
    case False
    with Some assms have "bindM (activateConfigGeneration i) (\<lambda>_. notifySchemasUpdated ''activated'') (step_to (db w) w) = (Inr (), w')"
      by (auto simp: activateGeneration_tx_def catchM_def q_GetConfigGeneration_def run_stmt_def split: if_splits)
    then obtain w4 where "activateConfigGeneration i (step_to (db w) w) = (Inr (), w4)"
      "notifySchemasUpdated ''activated'' w4 = (Inr (), w')"
      by (auto simp: bindM_Inr_iff)
    with activateConfigGeneration_effect [OF this(1)] Some False show ?thesis
      by (simp add: notifySchemasUpdated_def pgNotify_iff activate_effect_def)
  qed
qed

lemma activateGeneration_tx_step:
  assumes "activateGeneration_tx i w = (Inr a, w')"
  shows "config_step (db w) (db w')"
  using activateGeneration_tx_effect [OF assms] config_step_trans [OF activate_effect_step outbox_step]
  by (metis config_step_refl)

lemma UpdateDeprecation_tx_effect:
  assumes "UpdateDeprecation_tx label enforced w = (Inr a, w')"
  shows "db w' = (db w)\<lparr>deprecations := put_row dep_label \<lparr>dep_label = label, dep_enforced = enforced\<rparr> (deprecations (db w)),
    outbox := outbox (db w) @ [(NotifyChannelDeprecationUpdate, DeprecationEvent label)]\<rparr>"
  using assms by (auto simp: UpdateDeprecation_tx_def bindM_Inr_iff q_UpsertDeprecation_def run_stmt_Inr_iff pgNotify_iff)

lemma UpdateDeprecation_tx_step:
  assumes "UpdateDeprecation_tx label enforced w = (Inr a, w')"
  shows "config_step (db w) (db w')"
  using distinct_put_row [of dep_label "deprecations (db w)"]
  by (simp add: UpdateDeprecation_tx_effect [OF assms] config_step_def config_frame_def config_ok_def
      config_kept_same)

end
