(* ===== verification/Store_Steps.thy ===== *)
theory Store_Steps
  imports Messages_Inv Settings_Inv Config_Facts
begin

text \<open>
  The store as a state machine: a step is one committed transaction of any operation, a
  statement of the sweeper, or a jump of the generation sequence by a rolled back registration.
  Each step has one of a few effects (\<open>store_effect\<close>), the invariants of all components hold in
  every reachable database, and the three streams are ordered by commit. \<open>step_runner\<close> is the
  contract of \<open>pg.WithTX\<close> with these steps as the interference of other calls.
\<close>

section \<open>Steps\<close>

inductive store_step :: "db \<Rightarrow> db \<Rightarrow> bool" where
  push_message: "InsertMessage_tx m w = (Inr a, w') \<Longrightarrow> store_step (db w) (db w')"
| push_inbox: "InsertInboxMessage_tx im w = (Inr i, w') \<Longrightarrow> store_step (db w) (db w')"
| set_read: "SetInboxMessageRead_tx reader i b t w = (Inr a, w') \<Longrightarrow> store_step (db w) (db w')"
| hide: "HideInboxMessage_tx reader i t w = (Inr a, w') \<Longrightarrow> store_step (db w) (db w')"
| sweep_messages: "q_DeleteOldMessages w = (Inr a, w') \<Longrightarrow> store_step (db w) (db w')"
| sweep_inbox: "q_DeleteOldInboxMessages w = (Inr a, w') \<Longrightarrow> store_step (db w) (db w')"
| update_document: "UpdateDocument_tx u w = (Inr a, w') \<Longrightarrow> store_step (db w) (db w')"
| delete_document: "DeleteDocument_tx ow ap ty ky by w = (Inr a, w') \<Longrightarrow> store_step (db w) (db w')"
| set_properties: "SetProperties_tx sortu ow us w = (Inr a, w') \<Longrightarrow> store_step (db w) (db w')"
| delete_properties: "DeleteProperties_tx sortd ow ds w = (Inr a, w') \<Longrightarrow> store_step (db w) (db w')"
| register: "registerConfigGeneration_tx f64 desc ss act h w = (Inr i, w') \<Longrightarrow> store_step (db w) (db w')"
| activate: "activateGeneration_tx i w = (Inr a, w') \<Longrightarrow> store_step (db w) (db w')"
| deprecate: "UpdateDeprecation_tx label enforced w = (Inr a, w') \<Longrightarrow> store_step (db w) (db w')"
| sequence_gap: "generation_seq d \<le> n \<Longrightarrow> store_step d (d\<lparr>generation_seq := n\<rparr>)"

definition reachable :: "db \<Rightarrow> bool" where
  "reachable d \<longleftrightarrow> store_step\<^sup>*\<^sup>* empty_db d"

definition step_runner :: "'a tx_runner \<Rightarrow> bool" where
  "step_runner tx \<longleftrightarrow> tx_contract store_step\<^sup>*\<^sup>* tx"

lemma run_tx_step_runner: "step_runner run_tx"
  unfolding step_runner_def by (rule run_tx_contract) (simp add: reflp_def)

section \<open>What a step can do\<close>

inductive store_effect :: "db \<Rightarrow> db \<Rightarrow> bool" where
  system_pushed: "store_effect d (insert_message_effect m d)"
| inbox_pushed: "counters d sequenceInbox = Some v \<Longrightarrow>
    (ib_Recipient im, ib_UUID im) \<notin> im_key ` set (inbox d) \<Longrightarrow> v + 1 \<notin> im_id ` set (inbox d) \<Longrightarrow>
    store_effect d (insert_inbox_effect im (v + 1) d)"
| read_changed: "x \<in> set (inbox d) \<Longrightarrow> im_recipient x \<in> set (ir_Owners reader) \<Longrightarrow>
    store_effect d (set_read_effect reader x b t d)"
| message_hidden: "x \<in> set (inbox d) \<Longrightarrow> im_recipient x \<in> set (ir_Owners reader) \<Longrightarrow>
    store_effect d (hide_effect reader x t d)"
| messages_swept: "store_effect d (delete_old_messages_effect cutoff d)"
| inbox_swept: "store_effect d (delete_old_inbox_effect cutoff d)"
| document_updated: "store_effect d (update_document_effect u created now clk p d)"
| document_deleted: "store_effect d (delete_document_effect ow ap ty ky by clk p d)"
| properties_set: "store_effect d (set_properties_effect ow us created now clk p d)"
| properties_deleted: "store_effect d (delete_properties_effect ow ds clk p d)"
| configured: "config_step d d' \<Longrightarrow> store_effect d d'"

lemma sequence_gap_step: "generation_seq d \<le> n \<Longrightarrow> config_step d (d\<lparr>generation_seq := n\<rparr>)"
proof -
  assume le: "generation_seq d \<le> n"
  have "generations_ok gs n" if ok: "generations_ok gs (generation_seq d)" for gs
  proof -
    have "1 \<le> cg_id g \<and> cg_id g \<le> n \<and> (cg_active g \<longrightarrow> cg_activated_at g \<noteq> None)" if "g \<in> set gs" for g
      using ok le that unfolding generations_ok_def by (meson order_trans)
    moreover have "0 \<le> n" using ok le by (simp add: generations_ok_def)
    ultimately show ?thesis using ok unfolding generations_ok_def by blast
  qed
  then have "config_ok d \<Longrightarrow> config_ok (d\<lparr>generation_seq := n\<rparr>)"
    by (simp add: config_ok_def)
  moreover have "config_kept d (d\<lparr>generation_seq := n\<rparr>)"
    by (rule config_keptI) (simp_all add: generation_refs_def generation_among le)
  ultimately show ?thesis by (simp add: config_step_def config_frame_def)
qed

lemma store_step_effect: "store_step d d' \<Longrightarrow> store_effect d d'"
proof (induction rule: store_step.induct)
  case (push_message m w a w')
  show ?case
    unfolding InsertMessage_tx_effect(1) [OF push_message] by (rule store_effect.intros)
next
  case (push_inbox im w i w')
  obtain v where v: "counters (db w) sequenceInbox = Some v" "i = v + 1"
    using InsertInboxMessage_tx_effect(2) [OF push_inbox] by blast
  show ?case
    unfolding InsertInboxMessage_tx_effect(1) [OF push_inbox] v(2)
    using v InsertInboxMessage_tx_effect(3,4) [OF push_inbox] by (intro store_effect.inbox_pushed) simp_all
next
  case (set_read reader i b t w a w')
  obtain x where x: "addressed reader i (db w) = Some x" and d: "db w' = set_read_effect reader x b t (db w)"
    using SetInboxMessageRead_tx_effect [OF set_read] by blast
  show ?case unfolding d using addressed_SomeD [OF x] by (intro store_effect.read_changed) simp_all
next
  case (hide reader i t w a w')
  obtain x where x: "addressed reader i (db w) = Some x" and d: "db w' = hide_effect reader x t (db w)"
    using HideInboxMessage_tx_effect [OF hide] by blast
  show ?case unfolding d using addressed_SomeD [OF x] by (intro store_effect.message_hidden) simp_all
next
  case (sweep_messages w a w')
  then show ?case by (auto simp: q_DeleteOldMessages_eq intro: store_effect.messages_swept split: if_splits)
next
  case (sweep_inbox w a w')
  then show ?case by (auto simp: q_DeleteOldInboxMessages_eq intro: store_effect.inbox_swept split: if_splits)
next
  case (update_document u w a w')
  show ?case unfolding UpdateDocument_tx_effect(1) [OF update_document] by (rule store_effect.intros)
next
  case (delete_document ow ap ty ky "by" w a w')
  show ?case unfolding DeleteDocument_tx_effect [OF delete_document] by (rule store_effect.intros)
next
  case (set_properties sortu ow us w a w')
  show ?case unfolding SetProperties_tx_effect(1) [OF set_properties] by (rule store_effect.intros)
next
  case (delete_properties sortd ow ds w a w')
  show ?case unfolding DeleteProperties_tx_effect [OF delete_properties] by (rule store_effect.intros)
next
  case (register f64 desc ss act h w i w')
  show ?case by (rule store_effect.configured) (rule registerConfigGeneration_tx_step [OF register])
next
  case (activate i w a w')
  show ?case by (rule store_effect.configured) (rule activateGeneration_tx_step [OF activate])
next
  case (deprecate label enforced w a w')
  show ?case by (rule store_effect.configured) (rule UpdateDeprecation_tx_step [OF deprecate])
next
  case (sequence_gap d n)
  show ?case by (rule store_effect.configured) (rule sequence_gap_step [OF sequence_gap])
qed

section \<open>The invariants hold in every reachable database\<close>

lemmas effect_defs = insert_message_effect_def Let_def insert_inbox_effect_def set_read_effect_def
  hide_effect_def delete_old_messages_effect_def delete_old_inbox_effect_def

lemmas settings_effects = update_document_effect_def delete_document_effect_def set_properties_effect_def
  delete_properties_effect_def

lemma sequences_differ [simp]: "sequenceInbox \<noteq> sequenceEventLog" "sequenceEventLog \<noteq> sequenceInbox"
  by (simp_all add: sequenceInbox_def sequenceEventLog_def)

lemma store_effect_system_ok:
  assumes "store_effect d d'" "system_ok d"
  shows "system_ok d'"
  using assms
proof (cases rule: store_effect.cases)
  case (system_pushed m)
  then show ?thesis using assms(2) insert_message_ok by simp
next
  case (messages_swept cutoff)
  then show ?thesis using assms(2) delete_old_messages_ok by simp
next
  case configured
  then show ?thesis using assms(2) by (simp add: config_step_def config_frame_def system_ok_def)
qed (use assms(2) in \<open>simp_all add: effect_defs system_ok_def\<close>)

lemma store_effect_inbox_ok:
  assumes "store_effect d d'" "inbox_ok d"
  shows "inbox_ok d'"
  using assms
proof (cases rule: store_effect.cases)
  case (inbox_pushed v im)
  then show ?thesis using assms(2) insert_inbox_ok by simp
next
  case (read_changed x reader b t)
  then show ?thesis using assms(2) set_read_ok by simp
next
  case (message_hidden x reader t)
  then show ?thesis using assms(2) hide_ok by simp
next
  case (inbox_swept cutoff)
  then show ?thesis using assms(2) delete_old_inbox_ok by simp
next
  case configured
  then show ?thesis using assms(2) by (simp add: config_step_def config_frame_def inbox_ok_def)
qed (use assms(2) in \<open>simp_all add: effect_defs inbox_ok_def\<close>)

lemma store_effect_settings_ok:
  assumes "store_effect d d'" "settings_ok d"
  shows "settings_ok d'"
  using assms
proof (cases rule: store_effect.cases)
  case document_updated
  then show ?thesis using assms(2) update_document_ok by simp
next
  case document_deleted
  then show ?thesis using assms(2) delete_document_ok by simp
next
  case properties_set
  then show ?thesis using assms(2) set_properties_ok by simp
next
  case properties_deleted
  then show ?thesis using assms(2) delete_properties_ok by simp
next
  case configured
  then show ?thesis using assms(2) settings_ok_cong [of d' d] by (simp add: config_step_def config_frame_def)
qed (use assms(2) in \<open>simp_all add: effect_defs settings_ok_def eventlog_ok_def\<close>)

lemma store_effect_config:
  assumes "store_effect d d'"
  shows "(config_ok d \<longrightarrow> config_ok d' \<and> config_kept d d')"
  using assms
proof (cases rule: store_effect.cases)
  case configured
  then show ?thesis by (simp add: config_step_def)
qed (simp_all add: effect_defs config_ok_def config_kept_same)

definition store_ok :: "db \<Rightarrow> bool" where
  "store_ok d \<longleftrightarrow> system_ok d \<and> inbox_ok d \<and> settings_ok d \<and> config_ok d"

lemma store_ok_step: "store_step d d' \<Longrightarrow> store_ok d \<Longrightarrow> store_ok d'"
  using store_step_effect store_effect_system_ok store_effect_inbox_ok store_effect_settings_ok store_effect_config
  unfolding store_ok_def by metis

lemma store_ok_steps: "store_step\<^sup>*\<^sup>* d d' \<Longrightarrow> store_ok d \<Longrightarrow> store_ok d'"
  by (induction rule: rtranclp_induct) (auto intro: store_ok_step)

lemma store_ok_empty: "store_ok empty_db"
  by (simp add: store_ok_def system_ok_empty inbox_ok_empty settings_ok_empty config_ok_empty)

lemma reachable_ok: "reachable d \<Longrightarrow> store_ok d"
  unfolding reachable_def using store_ok_steps store_ok_empty by blast

lemma reachable_steps: "reachable d \<Longrightarrow> store_step\<^sup>*\<^sup>* d d' \<Longrightarrow> reachable d'"
  unfolding reachable_def by (rule rtranclp_trans)

lemma reachable_step: "reachable d \<Longrightarrow> store_step d d' \<Longrightarrow> reachable d'"
  by (rule reachable_steps) auto

lemma reachable_empty: "reachable empty_db"
  by (simp add: reachable_def)

lemma config_kept_steps: "store_step\<^sup>*\<^sup>* d d' \<Longrightarrow> store_ok d \<Longrightarrow> config_kept d d'"
proof (induction rule: rtranclp_induct)
  case (step e f)
  then have "store_ok e" using store_ok_steps by blast
  then have "config_kept e f"
    using store_effect_config [OF store_step_effect [OF step.hyps(2)]] by (simp add: store_ok_def)
  with step show ?case using config_kept_trans by blast
qed simp

section \<open>Streams in commit order\<close>

definition system_top :: "string \<Rightarrow> db \<Rightarrow> int" where
  "system_top r d = (case write_locks d (r, ''system'') of None \<Rightarrow> 0 | Some c \<Rightarrow> c)"

definition inbox_top :: "db \<Rightarrow> int" where
  "inbox_top d = (case counters d sequenceInbox of None \<Rightarrow> 0 | Some v \<Rightarrow> v)"

lemma next_system_id_top: "next_system_id r d = system_top r d + 1"
  by (simp add: next_system_id_def system_top_def split: option.splits)

lemma system_step:
  assumes "store_effect d d'" "m \<in> set (system_rows r d')"
  shows "m \<in> set (system_rows r d) \<or> m_id m = system_top r d + 1"
  using assms
proof (cases rule: store_effect.cases)
  case (system_pushed x)
  with assms(2) show ?thesis
    by (auto simp: system_rows_def effect_defs system_row_def next_system_id_top split: if_splits)
next
  case (messages_swept cutoff)
  with assms(2) show ?thesis by (auto simp: system_rows_def effect_defs)
next
  case configured
  with assms(2) show ?thesis by (simp add: system_rows_def config_step_def config_frame_def)
qed (use assms(2) in \<open>simp_all add: system_rows_def effect_defs\<close>)

lemma system_top_step:
  assumes "store_effect d d'"
  shows "system_top r d \<le> system_top r d'"
  using assms
proof (cases rule: store_effect.cases)
  case (system_pushed x)
  then show ?thesis
    by (simp add: effect_defs system_top_def next_system_id_def split: option.splits)
next
  case configured
  then show ?thesis by (simp add: system_top_def config_step_def config_frame_def)
qed (simp_all add: system_top_def effect_defs)

lemma system_below_top: "system_ok d \<Longrightarrow> m \<in> set (system_rows r d) \<Longrightarrow> m_id m \<le> system_top r d"
  by (fastforce simp: system_ok_def system_rows_def system_top_def)

interpretation system_tail: commit_ordered_stream
  "\<lambda>d. page_after m_id (system_rows r d)" m_id "system_rows r" system_ok store_step "system_top r" for r
proof
  show "system_ok s \<Longrightarrow> store_step s t \<Longrightarrow> system_ok t" for s t
    using store_step_effect store_effect_system_ok by blast
  show "system_ok s \<Longrightarrow> store_step s t \<Longrightarrow> system_top r s \<le> system_top r t" for s t
    using store_step_effect system_top_step by blast
  show "system_ok s \<Longrightarrow> store_step s t \<Longrightarrow> m \<in> set (system_rows r t) \<Longrightarrow>
      m_id m \<in> m_id ` set (system_rows r s) \<or> system_top r s < m_id m" for s t m
    using system_step [OF store_step_effect] by force
  show "system_ok s \<Longrightarrow> m \<in> set (system_rows r s) \<Longrightarrow> m_id m \<le> system_top r s" for s m
    by (rule system_below_top)
qed

lemma inbox_step:
  assumes "store_effect d d'" "m \<in> set (inbox d')"
  shows "m \<in> set (inbox d) \<or> im_id m = inbox_top d + 1"
  using assms
proof (cases rule: store_effect.cases)
  case (inbox_pushed v im)
  with assms(2) show ?thesis
    by (auto simp: effect_defs inbox_row_of_def inbox_top_def)
next
  case (inbox_swept cutoff)
  with assms(2) show ?thesis by (auto simp: effect_defs)
next
  case configured
  with assms(2) show ?thesis by (simp add: config_step_def config_frame_def)
qed (use assms(2) in \<open>simp_all add: effect_defs\<close>)

lemma inbox_top_step:
  assumes "store_effect d d'"
  shows "inbox_top d \<le> inbox_top d'"
  using assms
proof (cases rule: store_effect.cases)
  case configured
  then show ?thesis by (simp add: inbox_top_def config_step_def config_frame_def)
qed (simp_all add: inbox_top_def effect_defs)

text \<open>A message that stays in the table stays hidden.\<close>

lemma hidden_step:
  assumes "store_effect d d'" "m \<in> set (inbox d)" "m \<in> set (inbox d')" "state_hidden d s m" "inbox_ok d"
  shows "state_hidden d' s m"
  using assms
proof (cases rule: store_effect.cases)
  case (read_changed x reader b t)
  then show ?thesis using assms(4) by (simp add: state_flags_set_read)
next
  case (message_hidden x reader t)
  then show ?thesis using assms(4) by (simp add: state_flags_hide)
next
  case (inbox_swept cutoff)
  have inj: "inj_on im_id (set (inbox d))" using assms(5) by (simp add: inbox_ok_def distinct_map)
  have "im_id m \<notin> im_id ` (set (inbox d) - set (filter (\<lambda>m. \<not> im_created m < cutoff) (inbox d)))"
    using assms(2,3) inbox_swept inj_on_image_mem_iff [OF inj assms(2), of "set (inbox d) - set (filter (\<lambda>m. \<not> im_created m < cutoff) (inbox d))"]
    by (auto simp: delete_old_inbox_effect_def Let_def)
  then show ?thesis
    using assms(4) inbox_swept by (simp add: delete_old_inbox_effect_def Let_def state_hidden_def)
next
  case configured
  then show ?thesis using assms(4) by (simp add: config_step_def config_frame_def state_hidden_def)
qed (use assms(4) in \<open>simp_all add: effect_defs state_hidden_def\<close>)

lemma inbox_below_top: "inbox_ok d \<Longrightarrow> m \<in> set (inbox d) \<Longrightarrow> im_id m \<le> inbox_top d"
  by (auto simp: inbox_ok_def inbox_top_def)

interpretation inbox_tail: commit_ordered_stream
  "\<lambda>d. page_after im_id (inbox_rows reader d)" im_id "inbox_rows reader" inbox_ok store_step inbox_top for reader
proof
  show "inbox_ok s \<Longrightarrow> store_step s t \<Longrightarrow> inbox_ok t" for s t
    using store_step_effect store_effect_inbox_ok by blast
  show "inbox_ok s \<Longrightarrow> store_step s t \<Longrightarrow> inbox_top s \<le> inbox_top t" for s t
    using store_step_effect inbox_top_step by blast
  show "im_id m \<in> im_id ` set (inbox_rows reader s) \<or> inbox_top s < im_id m"
    if "inbox_ok s" "store_step s t" "m \<in> set (inbox_rows reader t)" for s t m
  proof -
    have eff: "store_effect s t" using that(2) by (rule store_step_effect)
    have m: "m \<in> set (inbox t)" "im_recipient m \<in> set (ir_Owners reader)" "\<not> state_hidden t (ir_Subject reader) m"
      using that(3) by (auto simp: inbox_rows_def)
    from inbox_step [OF eff m(1)] show ?thesis
    proof
      assume "m \<in> set (inbox s)"
      with hidden_step [OF eff this m(1) _ that(1)] m(2,3) show ?thesis by (auto simp: inbox_rows_def)
    qed simp
  qed
  show "inbox_ok s \<Longrightarrow> m \<in> set (inbox_rows reader s) \<Longrightarrow> im_id m \<le> inbox_top s" for s m
    using inbox_below_top by (simp add: inbox_rows_def)
qed

text \<open>
  Rows are immutable and ids are not handed out twice: a row with an id that was in use is the row
  that had it.
\<close>

lemma inbox_row_kept:
  "store_step\<^sup>*\<^sup>* d d' \<Longrightarrow> inbox_ok d \<Longrightarrow> x \<in> set (inbox d') \<Longrightarrow> im_id x \<le> inbox_top d \<Longrightarrow> x \<in> set (inbox d)"
proof (induction rule: rtranclp_induct)
  case (step e f)
  have "inbox_top d \<le> inbox_top e" using inbox_tail.steps_top step by blast
  with inbox_step [OF store_step_effect [OF step.hyps(2)] step.prems(2)] step show ?case by auto
qed

lemma hidden_steps:
  assumes "store_step\<^sup>*\<^sup>* d d'" "inbox_ok d" "x \<in> set (inbox d')" "im_id x \<le> inbox_top d" "state_hidden d s x"
  shows "state_hidden d' s x"
  using assms
proof (induction arbitrary: x rule: rtranclp_induct)
  case (step e f)
  have ok: "inbox_ok e" using inbox_tail.steps_ok step.hyps(1) step.prems(1) by blast
  have top: "inbox_top d \<le> inbox_top e" using inbox_tail.steps_top step.hyps(1) step.prems(1) by blast
  have x: "x \<in> set (inbox e)"
    using inbox_step [OF store_step_effect [OF step.hyps(2)] step.prems(2)] step.prems(3) top by auto
  have "state_hidden e s x" using step.IH [OF step.prems(1) x step.prems(3,4)] .
  then show ?case
    using hidden_step [OF store_step_effect [OF step.hyps(2)] x step.prems(2) _ ok] by blast
qed simp

text \<open>The eventlog only grows, at its end.\<close>

lemma eventlog_step:
  assumes "store_effect d d'" "eventlog_ok d"
  shows "\<exists>new. eventlog d' = eventlog d @ new \<and> map ev_id new = [event_counter d + 1..event_counter d'] \<and>
    event_counter d \<le> event_counter d' \<and> eventlog_ok d'"
proof -
  have same: ?thesis if "eventlog d' = eventlog d" "counters d' sequenceEventLog = counters d sequenceEventLog"
    using that eventlog_ok_cong [OF that] assms(2) by (simp add: event_counter_def)
  have grown: ?thesis if "d' = logged clk p es e" "eventlog e = eventlog d" "counters e = counters d" for clk p es e
  proof -
    have "event_counter e = event_counter d" using that(3) by (simp add: event_counter_def)
    moreover have "eventlog_ok e" using that eventlog_ok_cong [of e d] assms(2) by simp
    then have "eventlog_ok (logged clk p es e)" by (rule eventlog_ok_logged)
    ultimately show ?thesis
      using that by (simp add: event_counter_logged ids_log_rows algebra_simps)
  qed
  from assms(1) show ?thesis
  proof (cases rule: store_effect.cases)
    case document_updated
    then show ?thesis unfolding update_document_effect_def by (rule grown) (simp_all add: put_document_def)
  next
    case (document_deleted ow ap ty ky "by" clk p)
    show ?thesis
    proof (cases "row_at doc_key (ow, ap, ty, ky) (documents d) = None")
      case True
      with document_deleted show ?thesis by (intro same) (simp_all add: delete_document_effect_def)
    next
      case False
      with document_deleted have "d' = logged clk p [document_event ow EventTypeDelete ap ty ky None by]
          (d\<lparr>documents := drop_row doc_key (ow, ap, ty, ky) (documents d)\<rparr>)"
        unfolding delete_document_effect_def by (simp only: if_False)
      then show ?thesis by (rule grown) simp_all
    qed
  next
    case properties_set
    then show ?thesis unfolding set_properties_effect_def by (rule grown) simp_all
  next
    case properties_deleted
    then show ?thesis unfolding delete_properties_effect_def by (rule grown) simp_all
  next
    case configured
    then show ?thesis by (intro same) (simp_all add: config_step_def config_frame_def)
  qed (rule same; simp add: effect_defs)+
qed

interpretation eventlog_tail: commit_ordered_stream
  "\<lambda>d. page_after ev_id (eventlog_rows owners d)" ev_id "eventlog_rows owners" eventlog_ok store_step event_counter for owners
proof
  show "eventlog_ok s \<Longrightarrow> store_step s t \<Longrightarrow> eventlog_ok t" for s t
    using eventlog_step [OF store_step_effect] by blast
  show "eventlog_ok s \<Longrightarrow> store_step s t \<Longrightarrow> event_counter s \<le> event_counter t" for s t
    using eventlog_step [OF store_step_effect] by blast
  show "ev_id m \<in> ev_id ` set (eventlog_rows owners s) \<or> event_counter s < ev_id m"
    if ok: "eventlog_ok s" and st: "store_step s t" and m: "m \<in> set (eventlog_rows owners t)" for s t m
  proof -
    obtain new where new: "eventlog t = eventlog s @ new" "map ev_id new = [event_counter s + 1..event_counter t]"
      using eventlog_step [OF store_step_effect [OF st] ok] by blast
    have "ev_id m \<in> set (map ev_id new)" if "m \<in> set new" using that by simp
    with new m show ?thesis by (auto simp: eventlog_rows_def)
  qed
  show "ev_id m \<le> event_counter s" if "eventlog_ok s" "m \<in> set (eventlog_rows owners s)" for s m
  proof -
    have "ev_id m \<in> set (map ev_id (eventlog s))" using that(2) by (auto simp: eventlog_rows_def)
    then show ?thesis using eventlog_ok_counter [OF that(1)] by auto
  qed
qed

end
