(* ===== verification/Messages_Service.thy ===== *)
theory Messages_Service
  imports Messages_Inv
begin

text \<open>
  The Messages handlers of \<open>internal/messages_service.go\<close> over the interface
  \<open>MessagesStore\<close> (a record of its operations, on any world). A handler is an action that
  ends in an RPC error or a response. The document type of \<open>elephant-api\<close>, \<open>uuid.Parse\<close> and the
  validator are arguments; the wait of a long poll is the argument \<open>wait\<close>.
\<close>

section \<open>The store interface\<close>

record 'w messages_store =
  ms_GetLatestMessageID :: "string \<Rightarrow> ('w, store_error, int) action"
  ms_ListMessagesAfterID :: "string \<Rightarrow> int \<Rightarrow> int \<Rightarrow> ('w, store_error, message list) action"
  ms_InsertMessage :: "message \<Rightarrow> ('w, store_error, unit) action"
  ms_GetLatestInboxMessageID :: "inbox_reader \<Rightarrow> ('w, store_error, int) action"
  ms_ListInboxMessagesBeforeID :: "inbox_reader \<Rightarrow> int \<Rightarrow> int \<Rightarrow> ('w, store_error, inbox_message list) action"
  ms_ListInboxMessagesAfterID :: "inbox_reader \<Rightarrow> int \<Rightarrow> int \<Rightarrow> ('w, store_error, inbox_message list) action"
  ms_InsertInboxMessage :: "inbox_message \<Rightarrow> ('w, store_error, int) action"
  ms_SetInboxMessageRead :: "inbox_reader \<Rightarrow> int \<Rightarrow> bool \<Rightarrow> int \<Rightarrow> ('w, store_error, unit) action"
  ms_HideInboxMessage :: "inbox_reader \<Rightarrow> int \<Rightarrow> int \<Rightarrow> ('w, store_error, unit) action"

definition pg_messages_store :: "unit tx_runner \<Rightarrow> int tx_runner \<Rightarrow> world messages_store" where
  "pg_messages_store tx txi = \<lparr>ms_GetLatestMessageID = GetLatestMessageID,
     ms_ListMessagesAfterID = ListMessagesAfterID, ms_InsertMessage = InsertMessage tx,
     ms_GetLatestInboxMessageID = GetLatestInboxMessageID,
     ms_ListInboxMessagesBeforeID = ListInboxMessagesBeforeID,
     ms_ListInboxMessagesAfterID = ListInboxMessagesAfterID,
     ms_InsertInboxMessage = InsertInboxMessage txi,
     ms_SetInboxMessageRead = SetInboxMessageRead tx, ms_HideInboxMessage = HideInboxMessage tx\<rparr>"

text \<open>What the handlers use of the document type and of \<open>uuid\<close>.\<close>

record 'doc doc_api =
  doc_encode :: "'doc \<Rightarrow> json option"
  doc_decode :: "json \<Rightarrow> 'doc option"
  doc_uuid :: "'doc \<Rightarrow> string"
  doc_title :: "'doc \<Rightarrow> string"
  doc_blank :: 'doc

type_synonym uuid_parser = "string \<Rightarrow> string + string"
type_synonym 'doc validate = "schema_usage \<Rightarrow> 'doc \<Rightarrow> store_error + string list"

section \<open>Errors on the way to the client\<close>

definition orInternal :: "string \<Rightarrow> ('w, 'e, 'a) action \<Rightarrow> ('w, rpc_error, 'a) action" where
  "orInternal what f = catchM f (\<lambda>r. case r of Inl _ \<Rightarrow> failM (Internalf what) | Inr a \<Rightarrow> returnM a)"

definition requireScope :: "call_ctx \<Rightarrow> (auth_info \<Rightarrow> ('w, rpc_error, 'a) action) \<Rightarrow> ('w, rpc_error, 'a) action" where
  "requireScope ctx f =
     (case RequireAnyScope ctx [ScopeUser] of Inl e \<Rightarrow> failM e | Inr auth \<Rightarrow> f auth)"

lemma orInternal_Inr [simp]: "orInternal what f w = (Inr a, w') \<longleftrightarrow> f w = (Inr a, w')"
  by (auto simp: orInternal_def catchM_def split: prod.splits sum.splits)

lemma orInternal_Inl: "orInternal what f w = (Inl e, w') \<longleftrightarrow> e = Internalf what \<and> (\<exists>x. f w = (Inl x, w'))"
  by (auto simp: orInternal_def catchM_def split: prod.splits sum.splits)

lemma requireScope_Inr:
  "requireScope ctx f w = (Inr a, w') \<longleftrightarrow>
     (\<exists>auth. RequireAnyScope ctx [ScopeUser] = Inr auth \<and> f auth w = (Inr a, w'))"
  by (auto simp: requireScope_def split: sum.splits)

text \<open>
  The shape the three polls share: list, answer when there is something, else wait for a
  notification or the timer and list once more.
\<close>

definition long_poll :: "'w waiter \<Rightarrow> ('w, rpc_error, 'm list) action \<Rightarrow> ('m list \<Rightarrow> 'r) \<Rightarrow> ('w, rpc_error, 'r) action" where
  "long_poll wait list_items respond =
     bindM list_items (\<lambda>ms.
       if ms \<noteq> [] then returnM (respond ms)
       else (\<lambda>w. case wait w of
           (WaitDone err, w1) \<Rightarrow> (Inl (waitEndedError err), w1)
         | (_, w1) \<Rightarrow> bindM list_items (\<lambda>ms. returnM (respond ms)) w1))"

lemma long_poll_cases:
  assumes "long_poll wait list_items respond w = (Inr r, w')"
  obtains (ready) ms where "list_items w = (Inr ms, w')" "ms \<noteq> []" "r = respond ms"
    | (waited) w1 e w2 ms where "list_items w = (Inr [], w1)" "wait w1 = (e, w2)"
      "\<And>err. e \<noteq> WaitDone err" "list_items w2 = (Inr ms, w')" "r = respond ms"
proof -
  from assms obtain ms w1 where l: "list_items w = (Inr ms, w1)"
    and rest: "(if ms \<noteq> [] then returnM (respond ms)
       else (\<lambda>w. case wait w of
           (WaitDone err, w1) \<Rightarrow> (Inl (waitEndedError err), w1)
         | (_, w1) \<Rightarrow> bindM list_items (\<lambda>ms. returnM (respond ms)) w1)) w1 = (Inr r, w')"
    unfolding long_poll_def bindM_Inr_iff by blast
  show thesis
  proof (cases "ms = []")
    case False
    with l rest show thesis by (auto intro: ready)
  next
    case True
    obtain e w2 where e: "wait w1 = (e, w2)" by fastforce
    have nd: "\<And>err. e \<noteq> WaitDone err" using rest True e by auto
    have "bindM list_items (\<lambda>ms. returnM (respond ms)) w2 = (Inr r, w')"
      using rest True e by (cases e) auto
    then obtain ms' where l2: "list_items w2 = (Inr ms', w')" and r: "r = respond ms'"
      unfolding bindM_Inr_iff by auto
    have "list_items w = (Inr [], w1)" using l True by simp
    then show thesis using e nd l2 r by (rule waited)
  qed
qed

text \<open>A call the context ends while it waits is answered with that error and nothing else happens.\<close>

lemma long_poll_done:
  "list_items w = (Inr [], w1) \<Longrightarrow> wait w1 = (WaitDone err, w2) \<Longrightarrow>
     long_poll wait list_items respond w = (Inl (waitEndedError err), w2)"
  by (simp add: long_poll_def)

section \<open>System messages\<close>

record push_message_request =
  pm_Recipient :: string
  pm_Type :: string
  pm_DocUuid :: string
  pm_DocType :: string
  pm_Payload :: "(string \<times> string) list option"

record rpc_message =
  rm_Recipient :: string
  rm_Id :: int
  rm_Type :: string
  rm_Created :: int
  rm_CreatedBy :: string
  rm_DocUuid :: string
  rm_DocType :: string
  rm_Payload :: "(string \<times> string) list"

record 'm poll_response =
  pr_LastId :: int
  pr_Items :: "'m list"

text \<open>
  \<open>json.Marshal\<close> of a \<open>map[string]string\<close> writes the members in key order; \<open>json.Unmarshal\<close> into
  one takes an object of strings (null for the zero string) or null.
\<close>

definition marshal_map :: "(string \<times> string) list \<Rightarrow> json" where
  "marshal_map m = JObj (map (map_prod id JStr) (sort_key fst m))"

definition unmarshal_string :: "json \<Rightarrow> string option" where
  "unmarshal_string j = (case j of JStr s \<Rightarrow> Some s | JNull \<Rightarrow> Some [] | _ \<Rightarrow> None)"

definition unmarshal_map :: "json \<Rightarrow> (string \<times> string) list option" where
  "unmarshal_map j =
     (case j of
        JNull \<Rightarrow> Some []
      | JObj kvs \<Rightarrow> map_option last_wins (those (map (\<lambda>(k, v). map_option (Pair k) (unmarshal_string v)) kvs))
      | _ \<Rightarrow> None)"

definition PushMessage ::
    "'w messages_store \<Rightarrow> uuid_parser \<Rightarrow> call_ctx \<Rightarrow> push_message_request \<Rightarrow> ('w, rpc_error, unit) action" where
  "PushMessage store uuid_Parse ctx req = requireScope ctx (\<lambda>auth.
     if pm_Recipient req = [] then failM (RequiredArgument ''recipient'')
     else case pm_Payload req of
       None \<Rightarrow> failM (RequiredArgument ''payload'')
     | Some payload \<Rightarrow>
         (case (if pm_DocUuid req \<noteq> [] then map_sum id Some (uuid_Parse (pm_DocUuid req)) else Inr None) of
            Inl msg \<Rightarrow> failM (InvalidArgument ''doc_uuid'' msg)
          | Inr docUUID \<Rightarrow>
              orInternal ''push message''
                (ms_InsertMessage store
                  \<lparr>msg_Recipient = pm_Recipient req, msg_ID = 0, msg_Type = pm_Type req, msg_Created = Now ctx,
                   msg_CreatedBy = Subject auth, msg_DocUUID = docUUID, msg_DocType = pm_DocType req,
                   msg_Payload = marshal_map payload\<rparr>)))"

definition message_to_rpc :: "message \<Rightarrow> rpc_message option" where
  "message_to_rpc m =
     map_option (\<lambda>payload. \<lparr>rm_Recipient = msg_Recipient m, rm_Id = msg_ID m, rm_Type = msg_Type m,
         rm_Created = rfc3339 (msg_Created m), rm_CreatedBy = msg_CreatedBy m,
         rm_DocUuid = (case msg_DocUUID m of None \<Rightarrow> [] | Some u \<Rightarrow> u),
         rm_DocType = msg_DocType m, rm_Payload = payload\<rparr>)
       (unmarshal_map (msg_Payload m))"

definition listMessages :: "'w messages_store \<Rightarrow> string \<Rightarrow> int \<Rightarrow> int \<Rightarrow> ('w, rpc_error, rpc_message list) action" where
  "listMessages store subject after limit = orInternal ''list messages''
     (bindM (ms_ListMessagesAfterID store subject after limit) (\<lambda>msgs.
        case those (map message_to_rpc msgs) of
          None \<Rightarrow> failM ErrBadJson
        | Some res \<Rightarrow> returnM res))"

definition PollMessages ::
    "'w messages_store \<Rightarrow> 'w waiter \<Rightarrow> call_ctx \<Rightarrow> int \<Rightarrow> ('w, rpc_error, rpc_message poll_response) action" where
  "PollMessages store wait ctx afterID = requireScope ctx (\<lambda>auth.
     bindM (if afterID = -1
            then orInternal ''get latest message id'' (ms_GetLatestMessageID store (Subject auth))
            else returnM afterID) (\<lambda>after.
     long_poll wait (listMessages store (Subject auth) after 10)
       (\<lambda>msgs. \<lparr>pr_LastId = (if msgs = [] then after else rm_Id (last msgs)), pr_Items = msgs\<rparr>)))"

section \<open>The inbox\<close>

definition inboxReader :: "auth_info \<Rightarrow> inbox_reader" where
  "inboxReader auth = \<lparr>ir_Owners = getAllOwners auth, ir_Subject = Subject auth\<rparr>"

definition isGroupRecipient :: "string \<Rightarrow> bool" where
  "isGroupRecipient recipient \<longleftrightarrow>
     has_prefix recipient ''core://unit/'' \<or> has_prefix recipient ''core://org/''"

record 'doc push_inbox_request =
  pi_Recipient :: string
  pi_Payload :: "'doc option"

record 'doc rpc_inbox_message =
  ri_Recipient :: string
  ri_Id :: int
  ri_Created :: int
  ri_CreatedBy :: string
  ri_Updated :: int
  ri_IsRead :: bool
  ri_Payload :: 'doc

record 'doc list_inbox_response =
  li_Messages :: "'doc rpc_inbox_message list"
  li_LatestId :: int
  li_EarliestId :: int

definition PushInboxMessage ::
    "'w messages_store \<Rightarrow> 'doc doc_api \<Rightarrow> uuid_parser \<Rightarrow> 'doc validate \<Rightarrow> call_ctx \<Rightarrow>
     'doc push_inbox_request \<Rightarrow> ('w, rpc_error, int) action" where
  "PushInboxMessage store api uuid_Parse validate ctx req = requireScope ctx (\<lambda>auth.
     if pi_Recipient req = [] then failM (RequiredArgument ''recipient'')
     else if isGroupRecipient (pi_Recipient req) \<and> \<not> HasScope auth ScopeDocAdmin
     then failM (PermissionDeniedf ''only admins can push messages to a unit or org'' [])
     else if isGroupRecipient (pi_Recipient req) \<and> \<not> isAllowedOwner auth (pi_Recipient req)
     then failM (PermissionDeniedf ''not allowed to push messages to %q'' [pi_Recipient req])
     else case pi_Payload req of
       None \<Rightarrow> failM (RequiredArgument ''payload'')
     | Some doc \<Rightarrow>
         (case validate SchemaUsageMessages doc of
            Inl _ \<Rightarrow> failM (Internalf ''validate newsdoc payload'')
          | Inr results \<Rightarrow>
              if results \<noteq> [] then failM (validationError results)
              else (case uuid_Parse (doc_uuid api doc) of
                 Inl msg \<Rightarrow> failM (InvalidArgument ''payload.uuid'' msg)
               | Inr docUUID \<Rightarrow>
                   (case doc_encode api doc of
                      None \<Rightarrow> failM (Internalf ''marshal message payload'')
                    | Some payload \<Rightarrow>
                        catchM (ms_InsertInboxMessage store
                          \<lparr>ib_ID = 0, ib_UUID = docUUID, ib_Recipient = pi_Recipient req, ib_Created = Now ctx,
                           ib_CreatedBy = Subject auth, ib_IsRead = False, ib_Payload = payload\<rparr>) (\<lambda>r.
                          case r of
                            Inl e \<Rightarrow>
                              if e = ErrInboxMessageConflict
                              then failM (AlreadyExists ''a different message with uuid %s already exists for %q''
                                [doc_uuid api doc, pi_Recipient req])
                              else failM (Internalf ''push inbox message'')
                          | Inr msgID \<Rightarrow> returnM msgID)))))"

definition inboxMessageToRPC :: "'doc doc_api \<Rightarrow> inbox_message \<Rightarrow> 'doc rpc_inbox_message option" where
  "inboxMessageToRPC api m =
     map_option (\<lambda>payload. \<lparr>ri_Recipient = ib_Recipient m, ri_Id = ib_ID m,
         ri_Created = rfc3339 (ib_Created m), ri_CreatedBy = ib_CreatedBy m,
         ri_Updated = rfc3339 (ib_Created m), ri_IsRead = ib_IsRead m, ri_Payload = payload\<rparr>)
       (doc_decode api (ib_Payload m))"

definition listInbox ::
    "'w messages_store \<Rightarrow> 'doc doc_api \<Rightarrow> inbox_reader \<Rightarrow> int \<Rightarrow> int \<Rightarrow>
     ('w, rpc_error, 'doc rpc_inbox_message list) action" where
  "listInbox store api reader after limit = orInternal ''list inbox messages''
     (bindM (ms_ListInboxMessagesAfterID store reader after limit) (\<lambda>msgs.
        case those (map (inboxMessageToRPC api) msgs) of
          None \<Rightarrow> failM ErrBadJson
        | Some res \<Rightarrow> returnM res))"

definition PollInboxMessages ::
    "'w messages_store \<Rightarrow> 'doc doc_api \<Rightarrow> 'w waiter \<Rightarrow> call_ctx \<Rightarrow> int \<Rightarrow> int \<Rightarrow>
     ('w, rpc_error, 'doc rpc_inbox_message poll_response) action" where
  "PollInboxMessages store api wait ctx afterID n = requireScope ctx (\<lambda>auth.
     let reader = inboxReader auth; limit = clampSize n in
     bindM (if afterID = -1
            then orInternal ''get latest inbox message id'' (ms_GetLatestInboxMessageID store reader)
            else returnM afterID) (\<lambda>after.
     long_poll wait (listInbox store api reader after limit)
       (\<lambda>msgs. \<lparr>pr_LastId = (if msgs = [] then after else ri_Id (last msgs)), pr_Items = msgs\<rparr>)))"

definition ListInboxMessages ::
    "'w messages_store \<Rightarrow> 'doc doc_api \<Rightarrow> call_ctx \<Rightarrow> int \<Rightarrow> int \<Rightarrow>
     ('w, rpc_error, 'doc list_inbox_response) action" where
  "ListInboxMessages store api ctx beforeID n = requireScope ctx (\<lambda>auth.
     bindM (orInternal ''list inbox messages''
       (ms_ListInboxMessagesBeforeID store (inboxReader auth) beforeID (clampSize n))) (\<lambda>msgs.
     case those (map (inboxMessageToRPC api) msgs) of
       None \<Rightarrow> failM (Internalf ''list inbox messages'')
     | Some res \<Rightarrow> returnM \<lparr>li_Messages = res,
         li_LatestId = (if msgs = [] then 0 else ib_ID (hd msgs)),
         li_EarliestId = (if msgs = [] then 0 else ib_ID (last msgs))\<rparr>))"

definition UpdateInboxMessage ::
    "'w messages_store \<Rightarrow> call_ctx \<Rightarrow> int \<Rightarrow> bool \<Rightarrow> ('w, rpc_error, unit) action" where
  "UpdateInboxMessage store ctx msgID isRead = requireScope ctx (\<lambda>auth.
     if msgID < 1 then failM (InvalidArgument ''id'' ''cannot be less than 1'')
     else catchM (ms_SetInboxMessageRead store (inboxReader auth) msgID isRead (Now ctx)) (\<lambda>r.
       case r of
         Inl e \<Rightarrow> if e = ErrInboxMessageNotFound then failM (NotFound ''no such inbox message'')
                  else failM (Internalf ''update inbox message'')
       | Inr _ \<Rightarrow> returnM ()))"

definition DeleteInboxMessage :: "'w messages_store \<Rightarrow> call_ctx \<Rightarrow> int \<Rightarrow> ('w, rpc_error, unit) action" where
  "DeleteInboxMessage store ctx msgID = requireScope ctx (\<lambda>auth.
     if msgID < 1 then failM (InvalidArgument ''id'' ''cannot be less than 1'')
     else catchM (ms_HideInboxMessage store (inboxReader auth) msgID (Now ctx)) (\<lambda>r.
       case r of
         Inl e \<Rightarrow> if e = ErrInboxMessageNotFound then failM (NotFound ''no such inbox message'')
                  else failM (Internalf ''delete inbox message'')
       | Inr _ \<Rightarrow> returnM ()))"

end
