(* ===== verification/Config_Service.thy ===== *)
theory Config_Service
  imports Config_Facts Messages_Service
begin

text \<open>
  The Configuration handlers of \<open>internal/config_service.go\<close> over the interface
  \<open>ConfigurationStore\<close>. Constraint sets and validators are revisor's: what the code uses of them
  is the record \<open>revisor_api\<close>. A JSON text is decoded by two readers, the store's (\<open>parse_json\<close>)
  and the strict decoder of constraint sets.
\<close>

section \<open>The store interface\<close>

record 'w config_store =
  cs_RegisterConfigGeneration :: "string \<Rightarrow> config_schema list \<Rightarrow> bool \<Rightarrow> ('w, store_error, config_generation) action"
  cs_ActivateConfigGeneration :: "int \<Rightarrow> ('w, store_error, config_generation) action"
  cs_GetActiveConfigGeneration :: "('w, store_error, config_generation option) action"
  cs_GetActiveConfigGenerationID :: "('w, store_error, int) action"
  cs_ListConfigGenerations :: "int \<Rightarrow> int \<Rightarrow> ('w, store_error, config_generation list) action"
  cs_GetSchema :: "string \<Rightarrow> string \<Rightarrow> ('w, store_error, config_schema) action"
  cs_GetDeprecations :: "('w, store_error, (string \<times> bool) list) action"
  cs_UpdateDeprecation :: "string \<Rightarrow> bool \<Rightarrow> ('w, store_error, unit) action"

definition pg_config_store ::
    "unit tx_runner \<Rightarrow> int tx_runner \<Rightarrow> (string \<Rightarrow> string) \<Rightarrow> (rat \<Rightarrow> rat) \<Rightarrow> world config_store" where
  "pg_config_store tx txi sha f64 = \<lparr>cs_RegisterConfigGeneration = RegisterConfigGeneration txi sha f64,
     cs_ActivateConfigGeneration = ActivateConfigGeneration tx,
     cs_GetActiveConfigGeneration = GetActiveConfigGeneration,
     cs_GetActiveConfigGenerationID = GetActiveConfigGenerationID,
     cs_ListConfigGenerations = ListConfigGenerations, cs_GetSchema = GetSchema,
     cs_GetDeprecations = GetDeprecations, cs_UpdateDeprecation = UpdateDeprecation tx\<rparr>"

record ('c, 'v) revisor_api =
  parse_json :: "string \<Rightarrow> json option"
  decode_strict :: "string \<Rightarrow> 'c option"
  decode_stored :: "json \<Rightarrow> 'c option"
  new_validator :: "'c list \<Rightarrow> 'v option"

section \<open>Requests and responses\<close>

datatype rpc_schema_usage =
    SCHEMA_USAGE_UNSPECIFIED
  | SCHEMA_USAGE_EDITORIAL
  | SCHEMA_USAGE_DISTRIBUTION
  | SCHEMA_USAGE_SETTINGS
  | SCHEMA_USAGE_MESSAGES
  | SCHEMA_USAGE_OTHER int

record request_schema =
  rq_Name :: string
  rq_Version :: string
  rq_Spec :: string
  rq_Usage :: rpc_schema_usage

record rpc_schema =
  rs_Name :: string
  rs_Version :: string
  rs_Spec :: "json option option"
  rs_Usage :: rpc_schema_usage

record get_schema_response =
  gs_Version :: string
  gs_Spec :: "json option option"
  gs_Usage :: rpc_schema_usage

record rpc_generation =
  rg_Id :: int
  rg_Description :: string
  rg_Active :: bool
  rg_Created :: int
  rg_Activated :: "int option"
  rg_Schemas :: "rpc_schema list"

record active_generation_response =
  ag_Unchanged :: bool
  ag_Generation :: "rpc_generation option"

definition schemaUsageFromRPC :: "rpc_schema_usage \<Rightarrow> string + schema_usage" where
  "schemaUsageFromRPC usage =
     (case usage of
        SCHEMA_USAGE_SETTINGS \<Rightarrow> Inr SchemaUsageSettings
      | SCHEMA_USAGE_MESSAGES \<Rightarrow> Inr SchemaUsageMessages
      | SCHEMA_USAGE_OTHER _ \<Rightarrow> Inl ''unknown usage %d''
      | _ \<Rightarrow> Inl ''usage must be one of %q or %q'')"

fun schemaUsageToRPC :: "schema_usage \<Rightarrow> rpc_schema_usage" where
  "schemaUsageToRPC SchemaUsageSettings = SCHEMA_USAGE_SETTINGS"
| "schemaUsageToRPC SchemaUsageMessages = SCHEMA_USAGE_MESSAGES"

definition schema_to_rpc :: "config_schema \<Rightarrow> rpc_schema" where
  "schema_to_rpc s = \<lparr>rs_Name = sc_Name s, rs_Version = sc_Version s, rs_Spec = sc_Spec s,
     rs_Usage = schemaUsageToRPC (sc_Usage s)\<rparr>"

definition configGenerationToRPC :: "config_generation \<Rightarrow> rpc_generation" where
  "configGenerationToRPC gen = \<lparr>rg_Id = gen_ID gen, rg_Description = gen_Description gen,
     rg_Active = gen_Active gen, rg_Created = rfc3339 (gen_Created gen),
     rg_Activated = map_option rfc3339 (gen_Activated gen),
     rg_Schemas = map schema_to_rpc (gen_Schemas gen)\<rparr>"

lemma usage_roundtrip: "schemaUsageFromRPC (schemaUsageToRPC u) = Inr u"
  by (cases u) (simp_all add: schemaUsageFromRPC_def)

lemma usage_from_rpc: "schemaUsageFromRPC r = Inr u \<Longrightarrow> schemaUsageToRPC u = r"
  by (cases r) (auto simp: schemaUsageFromRPC_def)

section \<open>Registering\<close>

definition requireAny :: "call_ctx \<Rightarrow> string list \<Rightarrow> ('w, rpc_error, 'a) action \<Rightarrow> ('w, rpc_error, 'a) action" where
  "requireAny ctx needed f = (case RequireAnyScope ctx needed of Inl e \<Rightarrow> failM e | Inr _ \<Rightarrow> f)"

definition field_name :: "nat \<Rightarrow> string \<Rightarrow> string" where
  "field_name i what = ''schemas.'' @ itoa i @ ''.'' @ what"

definition resolveConstraintSet ::
    "'w config_store \<Rightarrow> ('c, 'v) revisor_api \<Rightarrow> nat \<Rightarrow> request_schema \<Rightarrow> ('w, rpc_error, 'c) action" where
  "resolveConstraintSet store api i s =
     (if rq_Spec s \<noteq> [] then
        (case decode_strict api (rq_Spec s) of
           None \<Rightarrow> failM (InvalidArgumentf (field_name i ''spec'') ''of %s@%s is not a valid constraint set''
             [rq_Name s, rq_Version s])
         | Some cs \<Rightarrow> returnM cs)
      else
        catchM (cs_GetSchema store (rq_Name s) (rq_Version s)) (\<lambda>r.
          case r of
            Inl e \<Rightarrow>
              if e = ErrSchemaNotFound
              then failM (InvalidArgumentf (field_name i ''spec'') ''is required, %s@%s is not stored''
                [rq_Name s, rq_Version s])
              else failM (Internalf ''get stored schema'')
          | Inr stored \<Rightarrow>
              (case Option.bind (Option.bind (sc_Spec stored) id) (decode_stored api) of
                 None \<Rightarrow> failM (Internalf ''decode stored schema'')
               | Some cs \<Rightarrow> returnM cs)))"

definition spec_of :: "('c, 'v) revisor_api \<Rightarrow> string \<Rightarrow> json option option" where
  "spec_of api text = (if text = [] then None else Some (parse_json api text))"

text \<open>
  The loop over the request's schemas: \<open>seen\<close> are the names so far; the result pairs each stored
  form with its constraint set, in order.
\<close>

fun check_schemas ::
    "'w config_store \<Rightarrow> ('c, 'v) revisor_api \<Rightarrow> nat \<Rightarrow> string list \<Rightarrow> request_schema list \<Rightarrow>
     ('w, rpc_error, (config_schema \<times> 'c) list) action" where
  "check_schemas store api i seen [] = returnM []"
| "check_schemas store api i seen (s # ss) =
     (if rq_Name s = [] then failM (RequiredArgument (field_name i ''name''))
      else if rq_Version s = [] then failM (RequiredArgument (field_name i ''version''))
      else if rq_Name s \<in> set seen
      then failM (InvalidArgumentf (field_name i ''name'') ''%q is listed twice'' [rq_Name s])
      else case schemaUsageFromRPC (rq_Usage s) of
        Inl msg \<Rightarrow> failM (InvalidArgumentf (field_name i ''usage'') (''of %s@%s: '' @ msg) [rq_Name s, rq_Version s])
      | Inr usage \<Rightarrow>
          bindM (resolveConstraintSet store api i s) (\<lambda>cs.
          bindM (check_schemas store api (Suc i) (rq_Name s # seen) ss) (\<lambda>rest.
          returnM ((\<lparr>sc_Name = rq_Name s, sc_Version = rq_Version s, sc_Spec = spec_of api (rq_Spec s),
            sc_Usage = usage\<rparr>, cs) # rest))))"

definition grouped :: "schema_usage \<Rightarrow> (config_schema \<times> 'c) list \<Rightarrow> 'c list" where
  "grouped usage checked = map snd (filter (\<lambda>x. sc_Usage (fst x) = usage) checked)"

text \<open>
  The dry run over the map of groups; Go ranges over a map in any order, which the argument
  \<open>order\<close> lists.
\<close>

fun dry_run :: "('c, 'v) revisor_api \<Rightarrow> (config_schema \<times> 'c) list \<Rightarrow> schema_usage list \<Rightarrow> schema_usage option" where
  "dry_run api checked [] = None"
| "dry_run api checked (u # us) =
     (if grouped u checked \<noteq> [] \<and> new_validator api (grouped u checked) = None then Some u
      else dry_run api checked us)"

fun usage_string :: "schema_usage \<Rightarrow> string" where
  "usage_string SchemaUsageSettings = ''settings''"
| "usage_string SchemaUsageMessages = ''messages''"

definition svc_RegisterConfigGeneration ::
    "'w config_store \<Rightarrow> ('c, 'v) revisor_api \<Rightarrow> schema_usage list \<Rightarrow> call_ctx \<Rightarrow> string \<Rightarrow> request_schema list \<Rightarrow> bool \<Rightarrow>
     ('w, rpc_error, rpc_generation) action" where
  "svc_RegisterConfigGeneration store api order ctx description ss activate = requireAny ctx [ScopeSchemaAdmin]
     (if ss = [] then failM (RequiredArgument ''schemas'')
      else bindM (check_schemas store api 0 [] ss) (\<lambda>checked.
        case dry_run api checked order of
          Some usage \<Rightarrow> failM (Errorf CodeInvalidArgument
            ''the schemas for usage %q cannot form a valid constraint set'' [usage_string usage])
        | None \<Rightarrow>
            catchM (cs_RegisterConfigGeneration store description (map fst checked) activate) (\<lambda>r.
              case r of
                Inl e \<Rightarrow>
                  if e = ErrSchemaMismatch \<or> e = ErrSchemaSpecMissing
                  then failM (Errorf CodeInvalidArgument ''%w'' [])
                  else failM (Internalf ''register generation'')
              | Inr gen \<Rightarrow> returnM (configGenerationToRPC gen))))"

definition svc_ActivateConfigGeneration ::
    "'w config_store \<Rightarrow> call_ctx \<Rightarrow> int \<Rightarrow> ('w, rpc_error, rpc_generation) action" where
  "svc_ActivateConfigGeneration store ctx genID = requireAny ctx [ScopeSchemaAdmin]
     (if genID < 1 then failM (RequiredArgument ''id'')
      else catchM (cs_ActivateConfigGeneration store genID) (\<lambda>r.
        case r of
          Inl e \<Rightarrow> if e = ErrGenerationNotFound then failM (NotFound ''no such generation'')
                   else failM (Internalf ''activate generation'')
        | Inr gen \<Rightarrow> returnM (configGenerationToRPC gen)))"

section \<open>Waiting for a change\<close>

definition wait_seconds :: "int \<Rightarrow> int" where
  "wait_seconds n = (if n \<le> 0 \<or> n > 10 then 10 else n)"

datatype wait_error = WaitStore store_error | WaitCtx ctx_err | WaitOutOfFuel

text \<open>
  Each round reads the active id and waits; a notification starts a new round with a new timer.
  Nothing bounds the number of rounds, so the loop has fuel, and running out of it is an outcome
  of its own. \<open>wait\<close> is the select of a round with a timer of that many seconds.
\<close>

fun waitForGenerationChange ::
    "nat \<Rightarrow> 'w config_store \<Rightarrow> (int \<Rightarrow> 'w waiter) \<Rightarrow> int \<Rightarrow> int \<Rightarrow> ('w, wait_error, bool) action" where
  "waitForGenerationChange 0 store wait knownID seconds = failM WaitOutOfFuel"
| "waitForGenerationChange (Suc k) store wait knownID seconds =
     catchM (cs_GetActiveConfigGenerationID store) (\<lambda>r.
       case r of
         Inl e \<Rightarrow> failM (WaitStore e)
       | Inr currentID \<Rightarrow>
           if currentID \<noteq> knownID then returnM True
           else (\<lambda>w. case wait (wait_seconds seconds) w of
               (WaitNotified, w1) \<Rightarrow> waitForGenerationChange k store wait knownID seconds w1
             | (WaitTimeout, w1) \<Rightarrow> (Inr False, w1)
             | (WaitDone err, w1) \<Rightarrow> (Inl (WaitCtx err), w1)))"

definition svc_GetActiveConfigGeneration ::
    "nat \<Rightarrow> 'w config_store \<Rightarrow> (int \<Rightarrow> 'w waiter) \<Rightarrow> ('w \<Rightarrow> ctx_err option) \<Rightarrow> call_ctx \<Rightarrow> int \<Rightarrow> int \<Rightarrow> bool \<Rightarrow>
     ('w, rpc_error, active_generation_response) action" where
  "svc_GetActiveConfigGeneration fuel store wait ctxErr ctx knownID seconds onlyChanged =
     requireAny ctx [ScopeSchemaAdmin, ScopeSchemaRead]
       (catchM (waitForGenerationChange fuel store wait knownID seconds) (\<lambda>r.
          case r of
            Inl (WaitCtx err) \<Rightarrow> failM (waitEndedError err)
          | Inl e \<Rightarrow> (\<lambda>w. case ctxErr w of
                Some err \<Rightarrow> (Inl (waitEndedError err), w)
              | None \<Rightarrow> (Inl (Internalf ''wait for generation change''), w))
          | Inr changed \<Rightarrow>
              if \<not> changed \<and> onlyChanged then returnM \<lparr>ag_Unchanged = True, ag_Generation = None\<rparr>
              else bindM (orInternal ''get active generation'' (cs_GetActiveConfigGeneration store)) (\<lambda>gen.
                returnM \<lparr>ag_Unchanged = False, ag_Generation = map_option configGenerationToRPC gen\<rparr>)))"

section \<open>The other handlers\<close>

definition list_page_size :: "int \<Rightarrow> int" where
  "list_page_size n = (if n \<le> 0 then 50 else if n > 200 then 200 else n)"

definition svc_ListConfigGenerations ::
    "'w config_store \<Rightarrow> call_ctx \<Rightarrow> int \<Rightarrow> int \<Rightarrow> ('w, rpc_error, rpc_generation list) action" where
  "svc_ListConfigGenerations store ctx before pageSize = requireAny ctx [ScopeSchemaAdmin, ScopeSchemaRead]
     (bindM (orInternal ''list generations'' (cs_ListConfigGenerations store before (list_page_size pageSize))) (\<lambda>gens.
      returnM (map configGenerationToRPC gens)))"

definition svc_GetSchema ::
    "'w config_store \<Rightarrow> call_ctx \<Rightarrow> string \<Rightarrow> string \<Rightarrow> ('w, rpc_error, get_schema_response) action" where
  "svc_GetSchema store ctx name version = requireAny ctx [ScopeSchemaAdmin, ScopeSchemaRead]
     (if name = [] then failM (RequiredArgument ''name'')
      else catchM (cs_GetSchema store name version) (\<lambda>r.
        case r of
          Inl e \<Rightarrow> if e = ErrSchemaNotFound then failM (NotFound ''no such schema'')
                   else failM (Internalf ''get schema'')
        | Inr s \<Rightarrow> returnM \<lparr>gs_Version = sc_Version s, gs_Spec = sc_Spec s, gs_Usage = schemaUsageToRPC (sc_Usage s)\<rparr>))"

definition svc_GetDeprecations :: "'w config_store \<Rightarrow> call_ctx \<Rightarrow> ('w, rpc_error, (string \<times> bool) list) action" where
  "svc_GetDeprecations store ctx = requireAny ctx [ScopeSchemaAdmin, ScopeSchemaRead]
     (orInternal ''list deprecations'' (cs_GetDeprecations store))"

definition svc_UpdateDeprecation ::
    "'w config_store \<Rightarrow> call_ctx \<Rightarrow> (string \<times> bool) option \<Rightarrow> ('w, rpc_error, unit) action" where
  "svc_UpdateDeprecation store ctx deprecation = requireAny ctx [ScopeSchemaAdmin]
     (case deprecation of
        None \<Rightarrow> failM (RequiredArgument ''deprecation'')
      | Some (label, enforced) \<Rightarrow>
          if label = [] then failM (RequiredArgument ''deprecation.label'')
          else orInternal ''update deprecation'' (cs_UpdateDeprecation store label enforced))"

end
