(* ===== verification/Validator.thy ===== *)
theory Validator
  imports Config_Service
begin

text \<open>
  The validator of \<open>internal/validator.go\<close>: one revisor validator per schema usage, built from
  the active generation, replaced as a whole on a reload and kept when a reload fails. It reads
  the store through \<open>ValidatorStore\<close>. Running a revisor validator on a document is the argument
  \<open>run\<close>; logging is not modelled, the metrics it counts are part of a decision.
\<close>

section \<open>State and store interface\<close>

record 'v validator =
  v_validators :: "schema_usage \<rightharpoonup> 'v"
  v_activeGenerationID :: int
  v_enforcedDeprecations :: "string \<rightharpoonup> bool"

record 'w validator_store =
  vs_GetActiveSchemas :: "('w, store_error, config_schema list) action"
  vs_GetActiveConfigGenerationID :: "('w, store_error, int) action"
  vs_GetEnforcedDeprecations :: "('w, store_error, string \<rightharpoonup> bool) action"

definition pg_validator_store :: "world validator_store" where
  "pg_validator_store = \<lparr>vs_GetActiveSchemas = GetActiveSchemas,
     vs_GetActiveConfigGenerationID = GetActiveConfigGenerationID,
     vs_GetEnforcedDeprecations = GetEnforcedDeprecations\<rparr>"

definition ActiveGenerationID :: "'v validator \<Rightarrow> int" where
  "ActiveGenerationID v = v_activeGenerationID v"

section \<open>Loading\<close>

fun decode_schemas :: "('c, 'v) revisor_api \<Rightarrow> config_schema list \<Rightarrow> (schema_usage \<times> 'c) list option" where
  "decode_schemas api [] = Some []"
| "decode_schemas api (s # ss) =
     (case Option.bind (Option.bind (sc_Spec s) id) (decode_stored api) of
        None \<Rightarrow> None
      | Some cs \<Rightarrow> map_option (\<lambda>rest. (sc_Usage s, cs) # rest) (decode_schemas api ss))"

definition sets_for :: "schema_usage \<Rightarrow> (schema_usage \<times> 'c) list \<Rightarrow> 'c list" where
  "sets_for usage decoded = map snd (filter (\<lambda>x. fst x = usage) decoded)"

text \<open>The validators of all groups; no group, no validator; one bad group, no result.\<close>

definition build_validators :: "('c, 'v) revisor_api \<Rightarrow> (schema_usage \<times> 'c) list \<Rightarrow> (schema_usage \<rightharpoonup> 'v) option" where
  "build_validators api decoded =
     (let build = (\<lambda>u. if sets_for u decoded = [] then None else new_validator api (sets_for u decoded));
          bad = (\<lambda>u. sets_for u decoded \<noteq> [] \<and> new_validator api (sets_for u decoded) = None)
      in if bad SchemaUsageSettings \<or> bad SchemaUsageMessages then None else Some build)"

definition loadSchemas ::
    "'w validator_store \<Rightarrow> ('c, 'v) revisor_api \<Rightarrow> 'v validator \<Rightarrow> ('w, store_error, 'v validator) action" where
  "loadSchemas store api v =
     bindM (vs_GetActiveSchemas store) (\<lambda>ss.
     bindM (vs_GetActiveConfigGenerationID store) (\<lambda>generationID.
     case Option.bind (decode_schemas api ss) (build_validators api) of
       None \<Rightarrow> failM ErrBadSchema
     | Some vals \<Rightarrow> returnM (v\<lparr>v_validators := vals, v_activeGenerationID := generationID\<rparr>)))"

definition loadDeprecations ::
    "'w validator_store \<Rightarrow> 'v validator \<Rightarrow> ('w, store_error, 'v validator) action" where
  "loadDeprecations store v =
     bindM (vs_GetEnforcedDeprecations store) (\<lambda>labels.
     returnM (v\<lparr>v_enforcedDeprecations := labels\<rparr>))"

definition NewValidator :: "'w validator_store \<Rightarrow> ('c, 'v) revisor_api \<Rightarrow> ('w, store_error, 'v validator) action" where
  "NewValidator store api =
     bindM (loadSchemas store api
       \<lparr>v_validators = Map.empty, v_activeGenerationID = 0, v_enforcedDeprecations = Map.empty\<rparr>) (\<lambda>v.
     loadDeprecations store v)"

text \<open>One round of \<open>reloadLoop\<close>, whatever woke it: a failing half keeps what was loaded before.\<close>

definition keep_on_error :: "'v \<Rightarrow> ('w, store_error, 'v) action \<Rightarrow> ('w, store_error, 'v) action" where
  "keep_on_error v f = catchM f (\<lambda>r. case r of Inl _ \<Rightarrow> returnM v | Inr v1 \<Rightarrow> returnM v1)"

definition reload :: "'w validator_store \<Rightarrow> ('c, 'v) revisor_api \<Rightarrow> 'v validator \<Rightarrow> ('w, store_error, 'v validator) action" where
  "reload store api v =
     bindM (keep_on_error v (loadSchemas store api v)) (\<lambda>v1.
     keep_on_error v1 (loadDeprecations store v1))"

text \<open>
  \<open>reloadLoop\<close>: a wake comes with what other calls did to the world before it; the context ending
  ends the loop without a reload. The result lists the refresh channels it closed, in order: a
  channel is closed only after the reload its request woke.
\<close>

datatype wake = CtxDone | Recheck | SchemaNotified | DeprecationNotified | RefreshAsked nat

definition closes :: "wake \<Rightarrow> nat list" where
  "closes k = (case k of RefreshAsked c \<Rightarrow> [c] | _ \<Rightarrow> [])"

fun reloadLoop ::
    "'w validator_store \<Rightarrow> ('c, 'v) revisor_api \<Rightarrow> (wake \<times> ('w \<Rightarrow> 'w)) list \<Rightarrow> 'v validator \<Rightarrow> 'w \<Rightarrow>
     nat list \<times> 'v validator \<times> 'w" where
  "reloadLoop store api [] v w = ([], v, w)"
| "reloadLoop store api ((k, move) # wakes) v w =
     (if k = CtxDone then ([], v, move w)
      else case reload store api v (move w) of
          (Inl _, w1) \<Rightarrow> reloadLoop store api wakes v w1
        | (Inr v1, w1) \<Rightarrow>
            (case reloadLoop store api wakes v1 w1 of (answered, r) \<Rightarrow> (closes k @ answered, r)))"

text \<open>
  \<open>RefreshSchemas\<close> hands a new channel to the loop and waits for it to be closed, with two seconds
  for both: \<open>taken\<close> says that the loop took the request in time, \<open>answered\<close> lists the channels it
  had closed by the end.
\<close>

definition RefreshSchemas :: "nat \<Rightarrow> bool \<Rightarrow> nat list \<Rightarrow> string + unit" where
  "RefreshSchemas c taken answered =
     (if \<not> taken then Inl ''request refresh: %w''
      else if c \<notin> set answered then Inl ''wait for refresh: %w''
      else Inr ())"

lemma keep_on_error_Inr: "\<exists>v' w'. keep_on_error v f w = (Inr v', w')"
  by (cases "f w") (auto simp: keep_on_error_def catchM_def split: sum.splits)

lemma reload_total: "\<exists>v' w'. reload store api v w = (Inr v', w')"
  using keep_on_error_Inr [of v "loadSchemas store api v" w] keep_on_error_Inr
  by (fastforce simp: reload_def)

text \<open>A refresh that was answered was answered by a reload that began after the request.\<close>

lemma RefreshSchemas_served:
  assumes "reloadLoop store api wakes v w = (answered, v', w')" "RefreshSchemas c taken answered = Inr ()"
  shows "\<exists>before move after v1 w1 v2 w2. wakes = before @ (RefreshAsked c, move) # after \<and>
    reload store api v1 (move w1) = (Inr v2, w2) \<and> snd (reloadLoop store api after v2 w2) = (v', w')"
proof -
  have "c \<in> set answered" using assms(2) by (simp add: RefreshSchemas_def split: if_splits)
  with assms(1) show ?thesis
  proof (induction wakes arbitrary: v w answered)
    case (Cons x wakes)
    obtain k move where x: "x = (k, move)" by fastforce
    obtain v1 w1 where 1: "reload store api v (move w) = (Inr v1, w1)" using reload_total [of store api v "move w"] by blast
    obtain answered1 where 2: "reloadLoop store api wakes v1 w1 = (answered1, v', w')" "answered = closes k @ answered1" "k \<noteq> CtxDone"
      using Cons.prems x 1 by (auto split: prod.splits if_splits)
    show ?case
    proof (cases "c \<in> set answered1")
      case True
      from Cons.IH [OF 2(1) True] obtain before move1 after v3 w3 v4 w4 where
        "wakes = before @ (RefreshAsked c, move1) # after" "reload store api v3 (move1 w3) = (Inr v4, w4)"
        "snd (reloadLoop store api after v4 w4) = (v', w')" by blast
      then show ?thesis using x by (intro exI [of _ "x # before"] exI [of _ move1] exI [of _ after] exI [of _ v3] exI [of _ w3]
          exI [of _ v4] exI [of _ w4]) simp
    next
      case False
      then have "k = RefreshAsked c" using Cons.prems(2) 2 by (auto simp: closes_def split: wake.splits)
      then show ?thesis using x 1 2 by (intro exI [of _ "[]"] exI [of _ move] exI [of _ wakes] exI [of _ v] exI [of _ w]
          exI [of _ v1] exI [of _ w1]) simp
    qed
  qed simp
qed

section \<open>The embedded schemas\<close>

text \<open>The constraint sets the service ships with; their files are arguments.\<close>

definition EmbeddedConfigSchemas :: "json option \<Rightarrow> json option \<Rightarrow> config_schema list" where
  "EmbeddedConfigSchemas schemaSettings schemaMessages =
     [\<lparr>sc_Name = ''se.ecms.user.settings'', sc_Version = ''v1.1.0'', sc_Spec = Some schemaSettings, sc_Usage = SchemaUsageSettings\<rparr>,
      \<lparr>sc_Name = ''se.ecms.user.messages'', sc_Version = ''v1.0.0'', sc_Spec = Some schemaMessages, sc_Usage = SchemaUsageMessages\<rparr>]"

section \<open>Validating\<close>

record deprecation_decision =
  dd_Enforce :: bool
  dd_Counted :: "(string \<times> string) option"

definition deprecationHandler :: "'v validator \<Rightarrow> string \<Rightarrow> string \<Rightarrow> deprecation_decision" where
  "deprecationHandler v docType label =
     (let enforced = (case v_enforcedDeprecations v label of None \<Rightarrow> False | Some b \<Rightarrow> b)
      in \<lparr>dd_Enforce = enforced, dd_Counted = (if enforced then None else Some (label, docType))\<rparr>)"

definition ValidateDocument ::
    "('v \<Rightarrow> (string \<Rightarrow> string \<Rightarrow> deprecation_decision) \<Rightarrow> bool \<Rightarrow> 'doc \<Rightarrow> store_error + string list) \<Rightarrow>
     'v validator \<Rightarrow> 'doc validate" where
  "ValidateDocument run v usage doc =
     (case v_validators v usage of
        None \<Rightarrow> Inl (ErrNoActiveSchema usage)
      | Some val \<Rightarrow> run val (deprecationHandler v) (usage = SchemaUsageSettings) doc)"

end
