(* ===== verification/Retention.thy ===== *)
theory Retention
  imports Store_Steps Validator
begin

text \<open>
  The background work and the readiness of the service: the sweeps of \<open>internal/store.go\<close> under
  the job lock, the error policy of the tasks (\<open>stopScoped\<close> of \<open>internal/app.go\<close>) and the
  readiness check of \<open>cmd/user/main.go\<close>.
\<close>

text \<open>A failing sweep is logged and left for the next tick: only the world remains.\<close>

definition sweepOldMessages :: "world \<Rightarrow> world" where
  "sweepOldMessages w = snd (removeOldMessages w)"

text \<open>
  The job \<open>RunCleaner\<close> hands to the job lock: a sweep, then one per tick until the context is done
  (\<open>None\<close>). A tick comes with what happened to the world since.
\<close>

fun cleaner_ticks :: "(world \<Rightarrow> world) option list \<Rightarrow> world \<Rightarrow> world" where
  "cleaner_ticks [] w = w"
| "cleaner_ticks (None # wakes) w = w"
| "cleaner_ticks (Some move # wakes) w = cleaner_ticks wakes (sweepOldMessages (move w))"

definition RunCleaner :: "(world \<Rightarrow> world) option list \<Rightarrow> world \<Rightarrow> world" where
  "RunCleaner wakes w = cleaner_ticks wakes (sweepOldMessages w)"

text \<open>A task's error counts unless a stop was requested.\<close>

definition stopScoped :: "bool \<Rightarrow> 'e option \<Rightarrow> 'e option" where
  "stopScoped stopRequested err = (if err \<noteq> None \<and> \<not> stopRequested then err else None)"

definition schemasReadyCheck :: "(world, store_error, unit) action" where
  "schemasReadyCheck =
     bindM GetActiveSchemas (\<lambda>ss.
       if SchemaUsageSettings \<notin> sc_Usage ` set ss then failM (ErrNoActiveSchema SchemaUsageSettings)
       else if SchemaUsageMessages \<notin> sc_Usage ` set ss then failM (ErrNoActiveSchema SchemaUsageMessages)
       else returnM ())"

lemma removeOldMessages_Inr:
  "(\<And>n. \<not> fault w n) \<Longrightarrow> removeOldMessages w =
     (Inr (), step_to (delete_old_inbox_effect (six_months_before w (sql_now w))
       (delete_old_messages_effect (two_weeks_before w (sql_now w)) (db w)))
       (step_to (delete_old_messages_effect (two_weeks_before w (sql_now w)) (db w)) w))"
  by (simp add: removeOldMessages_def bindM_def q_DeleteOldMessages_eq q_DeleteOldInboxMessages_eq)

text \<open>A sweep is at most two steps of the store.\<close>

lemma sweep_steps: "store_step\<^sup>*\<^sup>* (db w) (db (sweepOldMessages w))"
proof -
  let ?m = "delete_old_messages_effect (two_weeks_before w (sql_now w)) (db w)"
  have quiet: "\<exists>v :: world. db v = d \<and> two_weeks_before v (sql_now v) = c \<and> six_months_before v (sql_now v) = c'
      \<and> (\<forall>n. \<not> fault v n)" for d c c'
    by (rule exI [of _ "\<lparr>db = d, sql_now = 0, clock = \<lambda>_. 0, fault = \<lambda>_. False, pos = 0, collate = id,
      two_weeks_before = \<lambda>_. c, six_months_before = \<lambda>_. c'\<rparr>"]) simp
  have m: "store_step d (delete_old_messages_effect c d)" for c d
  proof -
    obtain v :: world where v: "db v = d" "two_weeks_before v (sql_now v) = c" "\<forall>n. \<not> fault v n" using quiet by blast
    then show ?thesis
      using store_step.sweep_messages [of v "()" "step_to (delete_old_messages_effect c d) v"]
      by (simp add: q_DeleteOldMessages_eq)
  qed
  have i: "store_step d (delete_old_inbox_effect c d)" for c d
  proof -
    obtain v :: world where v: "db v = d" "six_months_before v (sql_now v) = c" "\<forall>n. \<not> fault v n" using quiet by blast
    then show ?thesis
      using store_step.sweep_inbox [of v "()" "step_to (delete_old_inbox_effect c d) v"]
      by (simp add: q_DeleteOldInboxMessages_eq)
  qed
  obtain r w' where r: "removeOldMessages w = (r, w')" by fastforce
  from removeOldMessages_effect(1) [OF r] show ?thesis
    unfolding sweepOldMessages_def r snd_conv
  proof (elim disjE)
    assume "db w' = ?m"
    then show "store_step\<^sup>*\<^sup>* (db w) (db w')" using m by (auto intro: r_into_rtranclp)
  next
    assume "db w' = delete_old_inbox_effect (six_months_before w (sql_now w)) ?m"
    then have "store_step ?m (db w')" using i by (simp only:)
    then have "store_step\<^sup>*\<^sup>* ?m (db w')" by (rule r_into_rtranclp)
    moreover have "store_step (db w) ?m" by (rule m)
    ultimately show "store_step\<^sup>*\<^sup>* (db w) (db w')" by (rule converse_rtranclp_into_rtranclp [rotated])
  qed simp
qed

end
