(* ===== verification/Runner.thy ===== *)
theory Runner
  imports Retention
begin

text \<open>
  How an operation handed to the transaction runner moves the store: on success the body's
  effect on a database other calls may have reached meanwhile, on failure a database reached
  by other calls, by the body, or by a used up generation id. Whatever fails at whatever
  statement, the store stays in a reachable state. The generation sequence is the only thing
  that survives a rollback; \<open>keeps_seq\<close> says that an action never lowers it.
\<close>

section \<open>The generation sequence\<close>

named_theorems seq_intros "actions that never lower the generation sequence"

definition keeps_seq :: "(world, 'e, 'a) action \<Rightarrow> bool" where
  "keeps_seq f \<longleftrightarrow> (\<forall>w. generation_seq (db w) \<le> generation_seq (db (snd (f w))))"

lemma keeps_seq_bind [seq_intros]:
  assumes "keeps_seq f" "\<And>a. keeps_seq (g a)"
  shows "keeps_seq (bindM f g)"
  unfolding keeps_seq_def
proof
  fix w
  obtain r w1 where f: "f w = (r, w1)" by fastforce
  have 1: "generation_seq (db w) \<le> generation_seq (db w1)"
    using assms(1) f unfolding keeps_seq_def by (metis snd_conv)
  show "generation_seq (db w) \<le> generation_seq (db (snd (bindM f g w)))"
  proof (cases r)
    case (Inr a)
    then have "generation_seq (db w1) \<le> generation_seq (db (snd (g a w1)))"
      using assms(2) by (simp add: keeps_seq_def)
    with 1 f Inr show ?thesis by simp
  qed (use 1 f in simp)
qed

lemma keeps_seq_catch [seq_intros]:
  assumes "keeps_seq f" "\<And>r. keeps_seq (g r)"
  shows "keeps_seq (catchM f g)"
  unfolding keeps_seq_def
proof
  fix w
  obtain r w1 where f: "f w = (r, w1)" by fastforce
  have "generation_seq (db w) \<le> generation_seq (db w1)"
    using assms(1) f unfolding keeps_seq_def by (metis snd_conv)
  also have "\<dots> \<le> generation_seq (db (snd (g r w1)))"
    using assms(2) by (simp add: keeps_seq_def)
  finally show "generation_seq (db w) \<le> generation_seq (db (snd (catchM f g w)))"
    using f by simp
qed

lemma keeps_seq_return [seq_intros]: "keeps_seq (returnM a)" "keeps_seq (failM e)" "keeps_seq time_now"
  by (simp_all add: keeps_seq_def time_now_def)

lemma keeps_seq_stmt:
  assumes "\<And>w a d. s w = Inr (a, d) \<Longrightarrow> generation_seq d = generation_seq (db w)"
  shows "keeps_seq (run_stmt s)"
  using assms by (auto simp: keeps_seq_def run_stmt_def split: sum.splits)

lemma keeps_seq_for_each [seq_intros]:
  "(\<And>x. keeps_seq (f x)) \<Longrightarrow> keeps_seq (for_each f xs)"
  by (induction xs) (auto intro!: seq_intros)

lemma keeps_seq_if [seq_intros]: "keeps_seq f \<Longrightarrow> keeps_seq g \<Longrightarrow> keeps_seq (if b then f else g)"
  by simp

lemma keeps_seq_option [seq_intros]:
  "keeps_seq f \<Longrightarrow> (\<And>x. keeps_seq (g x)) \<Longrightarrow> keeps_seq (case x of None \<Rightarrow> f | Some y \<Rightarrow> g y)"
  by (cases x) simp_all

lemma keeps_seq_sum [seq_intros]:
  "(\<And>e. keeps_seq (f e)) \<Longrightarrow> (\<And>a. keeps_seq (g a)) \<Longrightarrow> keeps_seq (case r of Inl e \<Rightarrow> f e | Inr a \<Rightarrow> g a)"
  by (cases r) simp_all

lemma keeps_seq_prod [seq_intros]: "(\<And>a b. keeps_seq (f a b)) \<Longrightarrow> keeps_seq (case p of (a, b) \<Rightarrow> f a b)"
  by (cases p) simp

lemma keeps_seq_let [seq_intros]: "(\<And>x. keeps_seq (f x)) \<Longrightarrow> keeps_seq (Let x f)"
  by simp

lemma keeps_seq_statements [seq_intros]:
  "keeps_seq (q_UpsertUser s t k)" "keeps_seq (q_Notify c ev)" "keeps_seq (q_ReserveSequenceValues n nm)"
  "keeps_seq (q_NextMessageID r ty)" "keeps_seq (q_InsertMessage row)" "keeps_seq (q_GetInboxMessageByUUID p r u)"
  "keeps_seq (q_InsertInboxMessage irow)" "keeps_seq (q_GetInboxMessageForReader i os)"
  "keeps_seq (q_SetInboxMessageRead i s b t)" "keeps_seq (q_HideInboxMessage i s t)"
  "keeps_seq (q_UpsertDocument upd)" "keeps_seq (q_DeleteDocument ow ap ty ky)"
  "keeps_seq (q_UpsertProperty ow ap ky v)" "keeps_seq (q_DeleteProperty ow ap ky)"
  "keeps_seq (q_InsertEventLog erow)" "keeps_seq (q_GetSchema sn sv)" "keeps_seq (q_EnsureSchema sn sv sp us)"
  "keeps_seq (q_GetConfigGeneration i)" "keeps_seq (q_GetConfigGenerationByIdentityHash h)"
  "keeps_seq (q_InsertConfigGenerationSchema gr)" "keeps_seq (q_DeactivateActiveConfigGeneration i)"
  "keeps_seq (q_ActivateConfigGeneration i)" "keeps_seq (q_UpsertDeprecation lab en)"
  unfolding q_UpsertUser_def q_Notify_def q_ReserveSequenceValues_def q_NextMessageID_def q_InsertMessage_def
    q_GetInboxMessageByUUID_def q_InsertInboxMessage_def q_GetInboxMessageForReader_def q_SetInboxMessageRead_def
    q_HideInboxMessage_def q_UpsertDocument_def q_DeleteDocument_def q_UpsertProperty_def q_DeleteProperty_def
    q_InsertEventLog_def q_GetSchema_def q_EnsureSchema_def q_GetConfigGeneration_def
    q_GetConfigGenerationByIdentityHash_def q_InsertConfigGenerationSchema_def
    q_DeactivateActiveConfigGeneration_def q_ActivateConfigGeneration_def q_UpsertDeprecation_def
  by (rule keeps_seq_stmt, auto split: if_splits option.splits)+

lemma keeps_seq_insert_generation [seq_intros]: "keeps_seq (q_InsertConfigGeneration h desc)"
  by (auto simp: keeps_seq_def q_InsertConfigGeneration_def Let_def)

lemma keeps_seq_pgNotify [seq_intros]: "keeps_seq (pgNotify c ev)" "keeps_seq (notifyEventLogUpdated le)"
  by (simp_all add: pgNotify_def notifyEventLogUpdated_def seq_intros)

lemma keeps_seq_log_entries: "keeps_seq (log_entries n es)"
  by (induction es arbitrary: n) (auto intro!: seq_intros)

lemma keeps_seq_log [seq_intros]: "keeps_seq (logAndNotifyAll es)" "keeps_seq (logAndNotify ev)"
  by (auto simp: logAndNotifyAll_def logAndNotify_def intro!: seq_intros keeps_seq_log_entries)

lemma keeps_seq_insert_schemas [seq_intros]: "keeps_seq (insertGenerationSchemas i k ss)"
  by (induction ss arbitrary: k) (auto intro!: seq_intros)

lemma keeps_seq_bodies:
  "keeps_seq (InsertMessage_tx m)" "keeps_seq (InsertInboxMessage_tx im)"
  "keeps_seq (SetInboxMessageRead_tx reader i b t)" "keeps_seq (HideInboxMessage_tx reader i t)"
  "keeps_seq (UpdateDocument_tx u)" "keeps_seq (DeleteDocument_tx ow ap ty ky by)"
  "keeps_seq (SetProperties_tx sortu ow us)" "keeps_seq (DeleteProperties_tx sortd ow ds)"
  "keeps_seq (registerConfigGeneration_tx f64 desc ss act h)" "keeps_seq (activateGeneration_tx i)"
  "keeps_seq (UpdateDeprecation_tx l en)"
  unfolding InsertMessage_tx_def InsertInboxMessage_tx_def SetInboxMessageRead_tx_def HideInboxMessage_tx_def
    UpdateDocument_tx_def DeleteDocument_tx_def SetProperties_tx_def DeleteProperties_tx_def
    registerConfigGeneration_tx_def activateGeneration_tx_def UpdateDeprecation_tx_def
    nextMessageID_def notifyMessageUpdated_def existingInboxMessage_def notifyInboxMessageUpdated_def
    readableInboxMessage_def notifyInboxStateUpdated_def set_property_def delete_property_def
    ensureConfigSchemas_def ensureConfigSchema_def activateConfigGeneration_def notifySchemasUpdated_def
  by (auto intro!: seq_intros)

section \<open>Running a body\<close>

definition commits_step :: "'a query \<Rightarrow> bool" where
  "commits_step body \<longleftrightarrow> (\<forall>v a v'. body v = (Inr a, v') \<longrightarrow> store_step (db v) (db v'))"

lemma commits_step_bodies:
  "commits_step (InsertMessage_tx m)" "commits_step (InsertInboxMessage_tx im)"
  "commits_step (SetInboxMessageRead_tx reader i b t)" "commits_step (HideInboxMessage_tx reader i t)"
  "commits_step (UpdateDocument_tx u)" "commits_step (DeleteDocument_tx ow ap ty ky by)"
  "commits_step (SetProperties_tx sortu ow us)" "commits_step (DeleteProperties_tx sortd ow ds)"
  "commits_step (registerConfigGeneration_tx f64 desc ss act h)" "commits_step (activateGeneration_tx i)"
  "commits_step (UpdateDeprecation_tx l en)"
  by (auto simp: commits_step_def intro: store_step.intros)

lemma runner_commit:
  assumes "step_runner tx" "tx body w = (Inr a, w')"
  obtains v v' where "store_step\<^sup>*\<^sup>* (db w) (db v)" "body v = (Inr a, v')" "db w' = db v'"
    "clock v = clock w" "fault v = fault w" "same_env w' v'"
proof -
  from assms obtain d t p wc p' where "store_step\<^sup>*\<^sup>* (db w) d" "body (begun d t p w) = (Inr a, wc)" "w' = wc\<lparr>pos := p'\<rparr>"
    unfolding step_runner_def by (elim tx_contract_Inr)
  then show thesis by (intro that [of "begun d t p w" wc]) (simp_all add: same_env_def)
qed

lemma seq_gap_back: "keeps_seq body \<Longrightarrow> body (begun d t p w) = (r, wc) \<Longrightarrow>
    store_step\<^sup>*\<^sup>* d (d\<lparr>generation_seq := generation_seq (db wc)\<rparr>)"
proof -
  assume "keeps_seq body" "body (begun d t p w) = (r, wc)"
  then have "generation_seq d \<le> generation_seq (db wc)"
    unfolding keeps_seq_def by (metis begun_simps(1) snd_conv)
  then show ?thesis by (intro r_into_rtranclp store_step.sequence_gap)
qed

lemma runner_steps:
  assumes "step_runner tx" "tx body w = (r, w')" "commits_step body" "keeps_seq body"
  shows "store_step\<^sup>*\<^sup>* (db w) (db w')"
proof (cases r)
  case (Inr a)
  with assms(2) obtain v v' where "store_step\<^sup>*\<^sup>* (db w) (db v)" "body v = (Inr a, v')" "db w' = db v'"
    using runner_commit [OF assms(1)] by metis
  moreover from this have "store_step (db v) (db v')" using assms(3) by (auto simp: commits_step_def)
  ultimately show ?thesis by (auto intro: rtranclp.rtrancl_into_rtrancl)
next
  case (Inl e)
  have "tx_contract store_step\<^sup>*\<^sup>* tx" "tx body w = (Inl e, w')"
    using assms(1,2) Inl by (simp_all add: step_runner_def)
  then show ?thesis
  proof (cases rule: tx_contract_Inl)
    case (body_failed d t p wc)
    then show ?thesis using seq_gap_back [OF assms(4)] by (metis rtranclp_trans)
  next
    case not_begun
    then show ?thesis by simp
  next
    case (lost d t p wc a)
    then show ?thesis using seq_gap_back [OF assms(4)] by (metis rtranclp_trans)
  next
    case (applied d t p wc a)
    then have "store_step d (db wc)" using assms(3) unfolding commits_step_def by (metis begun_simps(1))
    with applied show ?thesis by (metis rtranclp.rtrancl_into_rtrancl)
  qed
qed

lemmas runner_bodies = commits_step_bodies keeps_seq_bodies

end
