(* ===== verification/Settings_Service.thy ===== *)
theory Settings_Service
  imports Messages_Service Settings_Inv
begin

text \<open>
  The Settings handlers of \<open>internal/settings_service.go\<close> over the interface \<open>SettingsStore\<close>,
  in the style of the Messages handlers.
\<close>

section \<open>The store interface\<close>

record 'w settings_store =
  ss_GetDocument :: "string \<Rightarrow> string \<Rightarrow> string \<Rightarrow> string \<Rightarrow> ('w, store_error, document) action"
  ss_ListDocuments :: "string list \<Rightarrow> string \<Rightarrow> string \<Rightarrow> bool \<Rightarrow> ('w, store_error, document list) action"
  ss_UpdateDocument :: "document_update \<Rightarrow> ('w, store_error, unit) action"
  ss_DeleteDocument :: "string \<Rightarrow> string \<Rightarrow> string \<Rightarrow> string \<Rightarrow> string \<Rightarrow> ('w, store_error, unit) action"
  ss_GetProperties :: "string \<Rightarrow> string \<Rightarrow> string list option \<Rightarrow> ('w, store_error, property list) action"
  ss_SetProperties :: "string \<Rightarrow> property_update list \<Rightarrow> ('w, store_error, unit) action"
  ss_DeleteProperties :: "string \<Rightarrow> property_delete list \<Rightarrow> ('w, store_error, unit) action"
  ss_GetLatestEventLogID :: "string list \<Rightarrow> ('w, store_error, int) action"
  ss_GetEventLogEntriesAfterID :: "string list \<Rightarrow> int \<Rightarrow> int \<Rightarrow> ('w, store_error, event_log_entry list) action"

definition pg_settings_store ::
    "unit tx_runner \<Rightarrow> property_update sorter \<Rightarrow> property_delete sorter \<Rightarrow> world settings_store" where
  "pg_settings_store tx sortu sortd = \<lparr>ss_GetDocument = GetDocument, ss_ListDocuments = ListDocuments,
     ss_UpdateDocument = UpdateDocument tx, ss_DeleteDocument = DeleteDocument tx,
     ss_GetProperties = GetProperties, ss_SetProperties = SetProperties tx sortu,
     ss_DeleteProperties = DeleteProperties tx sortd, ss_GetLatestEventLogID = GetLatestEventLogID,
     ss_GetEventLogEntriesAfterID = GetEventLogEntriesAfterID\<rparr>"

section \<open>Requests and responses\<close>

record doc_ref =
  dr_Owner :: string
  dr_Application :: string
  dr_Type :: string
  dr_Key :: string

record 'doc update_document_request =
  ud_Owner :: string
  ud_Application :: string
  ud_Type :: string
  ud_Key :: string
  ud_SchemaVersion :: string
  ud_Payload :: "'doc option"

record 'doc rpc_document =
  rd_Owner :: string
  rd_Application :: string
  rd_Type :: string
  rd_Key :: string
  rd_Version :: int
  rd_ReadOnly :: bool
  rd_SchemaVersion :: string
  rd_Title :: string
  rd_Created :: int
  rd_Updated :: int
  rd_UpdatedBy :: string
  rd_Payload :: 'doc

record rpc_property =
  rp_Owner :: string
  rp_Application :: string
  rp_Key :: string
  rp_Value :: string
  rp_Created :: int
  rp_Updated :: int

datatype event_log_entry_type = EVENT_LOG_ENTRY_UPDATE | EVENT_LOG_ENTRY_DELETE
datatype rpc_resource_kind = RESOURCE_KIND_DOCUMENT | RESOURCE_KIND_PROPERTY

record rpc_event =
  re_Id :: int
  re_Created :: int
  re_Owner :: string
  re_Application :: string
  re_DocumentType :: string
  re_Key :: string
  re_Version :: int
  re_UpdatedBy :: string
  re_Type :: event_log_entry_type
  re_Kind :: rpc_resource_kind

fun mapEventType :: "event_type \<Rightarrow> event_log_entry_type" where
  "mapEventType EventTypeUpdate = EVENT_LOG_ENTRY_UPDATE"
| "mapEventType EventTypeDelete = EVENT_LOG_ENTRY_DELETE"

fun mapResourceKind :: "resource_kind \<Rightarrow> rpc_resource_kind" where
  "mapResourceKind ResourceKindDocument = RESOURCE_KIND_DOCUMENT"
| "mapResourceKind ResourceKindProperty = RESOURCE_KIND_PROPERTY"

section \<open>Documents\<close>

definition document_to_rpc :: "auth_info \<Rightarrow> document \<Rightarrow> 'doc \<Rightarrow> 'doc rpc_document" where
  "document_to_rpc auth d payload = \<lparr>rd_Owner = doc_Owner d, rd_Application = doc_Application d,
     rd_Type = doc_Type d, rd_Key = doc_Key d, rd_Version = doc_Version d,
     rd_ReadOnly = (doc_Owner d \<noteq> Subject auth \<and> \<not> HasScope auth ScopeDocAdmin),
     rd_SchemaVersion = doc_SchemaVersion d, rd_Title = doc_Title d,
     rd_Created = rfc3339 (doc_Created d), rd_Updated = rfc3339 (doc_Updated d),
     rd_UpdatedBy = doc_UpdatedBy d, rd_Payload = payload\<rparr>"

definition unmarshalDocument :: "'doc doc_api \<Rightarrow> json option \<Rightarrow> 'doc option" where
  "unmarshalDocument api raw = Option.bind raw (doc_decode api)"

definition svc_GetDocument ::
    "'w settings_store \<Rightarrow> 'doc doc_api \<Rightarrow> call_ctx \<Rightarrow> doc_ref \<Rightarrow> ('w, rpc_error, 'doc rpc_document) action" where
  "svc_GetDocument store api ctx req = requireScope ctx (\<lambda>auth.
     if dr_Owner req \<noteq> [] \<and> \<not> isAllowedOwner auth (dr_Owner req)
     then failM (PermissionDeniedf ''not allowed to read documents for %q'' [dr_Owner req])
     else
       let targetOwner = (if dr_Owner req \<noteq> [] then dr_Owner req else Subject auth) in
       catchM (ss_GetDocument store targetOwner (dr_Application req) (dr_Type req) (dr_Key req)) (\<lambda>r.
         case r of
           Inl e \<Rightarrow> if e = ErrDocNotFound then failM (NotFound ''no such document'')
                    else failM (Internalf ''get document'')
         | Inr doc \<Rightarrow>
             (case unmarshalDocument api (doc_Payload doc) of
                None \<Rightarrow> failM (Internalf ''unmarshal payload'')
              | Some newsdoc \<Rightarrow> returnM (document_to_rpc auth doc newsdoc))))"

definition svc_ListDocuments ::
    "'w settings_store \<Rightarrow> 'doc doc_api \<Rightarrow> call_ctx \<Rightarrow> string \<Rightarrow> string \<Rightarrow> bool \<Rightarrow>
     ('w, rpc_error, 'doc rpc_document list) action" where
  "svc_ListDocuments store api ctx application docType includePayload = requireScope ctx (\<lambda>auth.
     bindM (orInternal ''list documents''
       (ss_ListDocuments store (getAllOwners auth) application docType includePayload)) (\<lambda>docs.
     case those (map (\<lambda>d.
         map_option (document_to_rpc auth d)
           (if includePayload \<and> doc_Payload d \<noteq> None then unmarshalDocument api (doc_Payload d)
            else Some (doc_blank api))) docs) of
       None \<Rightarrow> failM (Internalf ''unmarshal payload'')
     | Some res \<Rightarrow> returnM res))"

text \<open>Who may write documents for an owner: the shared-write rule.\<close>

definition writeOwner :: "string \<Rightarrow> string \<Rightarrow> auth_info \<Rightarrow> string \<Rightarrow> rpc_error + string" where
  "writeOwner onlyAdmins notAllowed auth owner =
     (if owner \<noteq> [] then
        if owner \<noteq> Subject auth \<and> \<not> HasScope auth ScopeDocAdmin then Inl (PermissionDeniedf onlyAdmins [])
        else if owner \<noteq> Subject auth \<and> \<not> isAllowedOwner auth owner then Inl (PermissionDeniedf notAllowed [owner])
        else Inr owner
      else Inr (Subject auth))"

definition svc_UpdateDocument ::
    "'w settings_store \<Rightarrow> 'doc doc_api \<Rightarrow> 'doc validate \<Rightarrow> call_ctx \<Rightarrow> 'doc update_document_request \<Rightarrow>
     ('w, rpc_error, unit) action" where
  "svc_UpdateDocument store api validate ctx req = requireScope ctx (\<lambda>auth.
     case writeOwner ''only admins can update documents for other owners''
         ''not allowed to update documents for %q'' auth (ud_Owner req) of
       Inl e \<Rightarrow> failM e
     | Inr targetOwner \<Rightarrow>
         (case ud_Payload req of
            None \<Rightarrow> failM (RequiredArgument ''payload'')
          | Some doc \<Rightarrow>
              (case validate SchemaUsageSettings doc of
                 Inl _ \<Rightarrow> failM (Internalf ''validate newsdoc payload'')
               | Inr results \<Rightarrow>
                   if results \<noteq> [] then failM (validationError results)
                   else (case doc_encode api doc of
                      None \<Rightarrow> failM (Internalf ''marshal document payload'')
                    | Some payload \<Rightarrow>
                        orInternal ''update document'' (ss_UpdateDocument store
                          \<lparr>du_Owner = targetOwner, du_Application = ud_Application req, du_Type = ud_Type req,
                           du_Key = ud_Key req, du_SchemaVersion = ud_SchemaVersion req,
                           du_Title = doc_title api doc, du_UpdatedBy = Subject auth, du_Payload = payload\<rparr>)))))"

definition svc_DeleteDocument :: "'w settings_store \<Rightarrow> call_ctx \<Rightarrow> doc_ref \<Rightarrow> ('w, rpc_error, unit) action" where
  "svc_DeleteDocument store ctx req = requireScope ctx (\<lambda>auth.
     case writeOwner ''only admins can delete documents for other owners''
         ''not allowed to delete documents for %q'' auth (dr_Owner req) of
       Inl e \<Rightarrow> failM e
     | Inr targetOwner \<Rightarrow>
         orInternal ''delete document''
           (ss_DeleteDocument store targetOwner (dr_Application req) (dr_Type req) (dr_Key req) (Subject auth)))"

section \<open>Properties\<close>

definition property_to_rpc :: "property \<Rightarrow> rpc_property" where
  "property_to_rpc p = \<lparr>rp_Owner = prop_Owner p, rp_Application = prop_Application p, rp_Key = prop_Key p,
     rp_Value = prop_Value p, rp_Created = rfc3339 (prop_Created p), rp_Updated = rfc3339 (prop_Updated p)\<rparr>"

text \<open>A repeated field of a request that is empty is a nil slice, which the query takes for NULL.\<close>

definition repeated_param :: "string list \<Rightarrow> string list option" where
  "repeated_param ks = (if ks = [] then None else Some ks)"

definition svc_GetProperties ::
    "'w settings_store \<Rightarrow> call_ctx \<Rightarrow> string \<Rightarrow> string list \<Rightarrow> ('w, rpc_error, rpc_property list) action" where
  "svc_GetProperties store ctx application keys = requireScope ctx (\<lambda>auth.
     bindM (orInternal ''get properties''
       (ss_GetProperties store (Subject auth) application (repeated_param keys))) (\<lambda>props.
     returnM (map property_to_rpc props)))"

definition svc_SetProperties ::
    "'w settings_store \<Rightarrow> call_ctx \<Rightarrow> (string \<times> string \<times> string) list \<Rightarrow> ('w, rpc_error, unit) action" where
  "svc_SetProperties store ctx props = requireScope ctx (\<lambda>auth.
     orInternal ''set properties'' (ss_SetProperties store (Subject auth)
       (map (\<lambda>(ap, ky, v). \<lparr>pu_Application = ap, pu_Key = ky, pu_Value = v\<rparr>) props)))"

definition svc_DeleteProperties ::
    "'w settings_store \<Rightarrow> call_ctx \<Rightarrow> (string \<times> string) list \<Rightarrow> ('w, rpc_error, unit) action" where
  "svc_DeleteProperties store ctx props = requireScope ctx (\<lambda>auth.
     orInternal ''delete properties'' (ss_DeleteProperties store (Subject auth)
       (map (\<lambda>(ap, ky). \<lparr>pd_Application = ap, pd_Key = ky\<rparr>) props)))"

section \<open>The eventlog\<close>

definition event_to_rpc :: "event_log_entry \<Rightarrow> rpc_event" where
  "event_to_rpc e = \<lparr>re_Id = ent_ID e, re_Created = rfc3339 (ent_Created e), re_Owner = ent_Owner e,
     re_Application = ent_Application e, re_DocumentType = ent_DocumentType e, re_Key = ent_Key e,
     re_Version = ent_Version e, re_UpdatedBy = ent_UpdatedBy e, re_Type = mapEventType (ent_Type e),
     re_Kind = mapResourceKind (ent_ResourceKind e)\<rparr>"

definition listLogEntries ::
    "'w settings_store \<Rightarrow> string list \<Rightarrow> int \<Rightarrow> int \<Rightarrow> ('w, rpc_error, rpc_event list) action" where
  "listLogEntries store owners after limit = orInternal ''list log entries''
     (bindM (ss_GetEventLogEntriesAfterID store owners after limit) (\<lambda>events.
      returnM (map event_to_rpc events)))"

definition maxEventID :: "int \<Rightarrow> rpc_event list \<Rightarrow> int" where
  "maxEventID after events = fold (\<lambda>e m. if m < re_Id e then re_Id e else m) events after"

definition PollEventLog ::
    "'w settings_store \<Rightarrow> 'w waiter \<Rightarrow> call_ctx \<Rightarrow> int \<Rightarrow> int \<Rightarrow> ('w, rpc_error, rpc_event poll_response) action" where
  "PollEventLog store wait ctx afterID n = requireScope ctx (\<lambda>auth.
     let owners = getAllOwners auth; limit = clampSize n in
     bindM (if afterID = -1
            then orInternal ''get latest event log id'' (ss_GetLatestEventLogID store owners)
            else returnM afterID) (\<lambda>after.
     long_poll wait (listLogEntries store owners after limit)
       (\<lambda>events. \<lparr>pr_LastId = maxEventID after events, pr_Items = events\<rparr>)))"

end
