(* ===== verification/Service_Contracts.thy ===== *)
theory Service_Contracts
  imports Runner Settings_Service
begin

text \<open>
  What the handlers promise of any store that keeps the laws of its interface. The locales
  \<open>inbox_provider\<close> and \<open>log_provider\<close> name the operations the handlers call and the laws of what
  they return; the lemmas of the handlers are proved in them. The PostgreSQL store is an instance
  for every transaction runner that meets the contract; the interpretations here are the ones with
  the reference runner.
\<close>

section \<open>Lists of mapped results\<close>

lemma those_map_Some: "those (map f xs) = Some ys \<longleftrightarrow> list_all2 (\<lambda>x y. f x = Some y) xs ys"
proof (induction xs arbitrary: ys)
  case (Cons x xs)
  then show ?case by (cases "f x"; cases ys) (auto split: option.splits)
qed auto

lemma list_all2_in_right: "list_all2 P xs ys \<Longrightarrow> y \<in> set ys \<Longrightarrow> \<exists>x \<in> set xs. P x y"
  by (induction rule: list_all2_induct) auto

lemma page_after_map: "(\<And>x. g (f x) = h x) \<Longrightarrow> page_after g (map f rows) a n = map f (page_after h rows a n)"
  by (simp add: page_after_def page_asc_def filter_map comp_def sort_key_map_commute take_map)

lemma page_desc_map: "(\<And>x. g (f x) = h x) \<Longrightarrow> page_desc g n (map f rows) = map f (page_desc h n rows)"
  by (simp add: page_desc_def sort_key_map_commute rev_map take_map)

lemma last_id_map: "last_id ident a xs = (if xs = [] then a else ident (last xs))"
  by (simp add: last_id_last)

section \<open>The inbox half of \<open>MessagesStore\<close>\<close>

locale inbox_provider =
  fixes store :: "'w messages_store"
    and view :: "inbox_reader \<Rightarrow> 'w \<Rightarrow> inbox_message list"
    and good :: "'w \<Rightarrow> bool"
    and moved :: "'w \<Rightarrow> 'w \<Rightarrow> bool"
  assumes list_after: "good w \<Longrightarrow> ms_ListInboxMessagesAfterID store reader a n w = (Inr ms, w') \<Longrightarrow>
      good w' \<and> ms = page_after ib_ID (view reader w') a n"
    and list_before: "good w \<Longrightarrow> ms_ListInboxMessagesBeforeID store reader before n w = (Inr ms, w') \<Longrightarrow>
      good w' \<and> ms = page_desc ib_ID n (filter (\<lambda>m. before = 0 \<or> ib_ID m < before) (view reader w'))"
    and latest: "good w \<Longrightarrow> ms_GetLatestInboxMessageID store reader w = (Inr i, w') \<Longrightarrow>
      good w' \<and> (\<forall>m \<in> set (view reader w'). ib_ID m \<le> i)"
    and view_ids: "good w \<Longrightarrow> distinct (map ib_ID (view reader w))"
    and view_addressed: "good w \<Longrightarrow> m \<in> set (view reader w) \<Longrightarrow> ib_Recipient m \<in> set (ir_Owners reader)"
    and set_read: "good w \<Longrightarrow> ms_SetInboxMessageRead store reader i b t w = (Inr (), w') \<Longrightarrow>
      good w' \<and> (\<exists>v. moved w v \<and> (\<forall>other. view other w' =
        (if ir_Subject other = ir_Subject reader
         then map (\<lambda>m. if ib_ID m = i then m\<lparr>ib_IsRead := b\<rparr> else m) (view other v) else view other v)))"
    and hide: "good w \<Longrightarrow> ms_HideInboxMessage store reader i t w = (Inr (), w') \<Longrightarrow>
      good w' \<and> (\<exists>v. moved w v \<and> (\<forall>other. view other w' =
        (if ir_Subject other = ir_Subject reader
         then filter (\<lambda>m. ib_ID m \<noteq> i) (view other v) else view other v)))"
begin

lemma listInbox_page:
  assumes "good w" "listInbox store api reader a n w = (Inr res, w')"
  shows "good w' \<and> list_all2 (\<lambda>m r. inboxMessageToRPC api m = Some r) (page_after ib_ID (view reader w') a n) res"
proof -
  from assms(2) obtain ms w1 where l: "ms_ListInboxMessagesAfterID store reader a n w = (Inr ms, w1)"
    and r: "(case those (map (inboxMessageToRPC api) ms) of None \<Rightarrow> failM ErrBadJson | Some res \<Rightarrow> returnM res) w1 = (Inr res, w')"
    unfolding listInbox_def orInternal_Inr bindM_Inr_iff by blast
  from r have "those (map (inboxMessageToRPC api) ms) = Some res" "w' = w1"
    by (auto split: option.splits)
  with list_after [OF assms(1) l] show ?thesis by (simp add: those_map_Some)
qed

text \<open>
  A poll answers with the page of the caller's own view after the cursor; the last id is the last
  row's, or the cursor when the page is empty.
\<close>

lemma poll_inbox:
  assumes "good w" "\<And>v. good v \<Longrightarrow> good (snd (wait v))"
    and "PollInboxMessages store api wait ctx afterID n w = (Inr resp, w')"
  obtains (found) auth start where "RequireAnyScope ctx [ScopeUser] = Inr auth" "good w'"
    "afterID \<noteq> -1 \<longrightarrow> start = afterID"
    "list_all2 (\<lambda>m r. inboxMessageToRPC api m = Some r)
      (page_after ib_ID (view (inboxReader auth) w') start (clampSize n)) (pr_Items resp)"
    "pr_LastId resp = last_id ri_Id start (pr_Items resp)"
proof -
  from assms(3) obtain auth where auth: "RequireAnyScope ctx [ScopeUser] = Inr auth"
    and "bindM (if afterID = -1 then orInternal ''get latest inbox message id'' (ms_GetLatestInboxMessageID store (inboxReader auth))
            else returnM afterID) (\<lambda>after. long_poll wait (listInbox store api (inboxReader auth) after (clampSize n))
       (\<lambda>msgs. \<lparr>pr_LastId = (if msgs = [] then after else ri_Id (last msgs)), pr_Items = msgs\<rparr>)) w = (Inr resp, w')"
    unfolding PollInboxMessages_def requireScope_Inr Let_def by blast
  then obtain start w1 where s: "(if afterID = -1 then orInternal ''get latest inbox message id'' (ms_GetLatestInboxMessageID store (inboxReader auth))
            else returnM afterID) w = (Inr start, w1)"
    and p: "long_poll wait (listInbox store api (inboxReader auth) start (clampSize n))
       (\<lambda>msgs. \<lparr>pr_LastId = (if msgs = [] then start else ri_Id (last msgs)), pr_Items = msgs\<rparr>) w1 = (Inr resp, w')"
    unfolding bindM_Inr_iff by blast
  have w1: "good w1" "afterID \<noteq> -1 \<longrightarrow> start = afterID"
    using s assms(1) latest by (auto split: if_splits)
  have fin: thesis if "good v" "listInbox store api (inboxReader auth) start (clampSize n) v = (Inr ms, w')"
    "resp = \<lparr>pr_LastId = (if ms = [] then start else ri_Id (last ms)), pr_Items = ms\<rparr>" for v ms
    using listInbox_page [OF that(1,2)] w1(2) by (intro found [OF auth]) (simp_all add: that(3) last_id_map)
  from p show thesis
  proof (cases rule: long_poll_cases)
    case (ready ms)
    then show thesis using fin w1(1) by blast
  next
    case (waited w2 e w3 ms)
    have "good w2" using listInbox_page [OF w1(1) waited(1)] by blast
    then have "good w3" using assms(2) [of w2] waited(2) by simp
    then show thesis using fin waited(4,5) by blast
  qed
qed

lemma list_inbox:
  assumes "good w" "ListInboxMessages store api ctx before n w = (Inr resp, w')"
  obtains (found) auth where "RequireAnyScope ctx [ScopeUser] = Inr auth" "good w'"
    "list_all2 (\<lambda>m r. inboxMessageToRPC api m = Some r)
      (page_desc ib_ID (clampSize n) (filter (\<lambda>m. before = 0 \<or> ib_ID m < before) (view (inboxReader auth) w')))
      (li_Messages resp)"
    "li_LatestId resp = (if li_Messages resp = [] then 0 else ri_Id (hd (li_Messages resp)))"
    "li_EarliestId resp = (if li_Messages resp = [] then 0 else ri_Id (last (li_Messages resp)))"
proof -
  from assms(2) obtain auth ms w1 where auth: "RequireAnyScope ctx [ScopeUser] = Inr auth"
    and l: "ms_ListInboxMessagesBeforeID store (inboxReader auth) before (clampSize n) w = (Inr ms, w1)"
    and r: "(case those (map (inboxMessageToRPC api) ms) of None \<Rightarrow> failM (Internalf ''list inbox messages'')
       | Some res \<Rightarrow> returnM \<lparr>li_Messages = res, li_LatestId = (if ms = [] then 0 else ib_ID (hd ms)),
           li_EarliestId = (if ms = [] then 0 else ib_ID (last ms))\<rparr>) w1 = (Inr resp, w')"
    unfolding ListInboxMessages_def requireScope_Inr bindM_Inr_iff orInternal_Inr by blast
  from r obtain res where res: "those (map (inboxMessageToRPC api) ms) = Some res" "w' = w1"
    "resp = \<lparr>li_Messages = res, li_LatestId = (if ms = [] then 0 else ib_ID (hd ms)),
       li_EarliestId = (if ms = [] then 0 else ib_ID (last ms))\<rparr>"
    by (auto split: option.splits)
  have all: "list_all2 (\<lambda>m r. inboxMessageToRPC api m = Some r) ms res" using res(1) by (simp add: those_map_Some)
  have ids: "inboxMessageToRPC api m = Some r \<Longrightarrow> ri_Id r = ib_ID m" for m r
    by (auto simp: inboxMessageToRPC_def)
  have "ms = [] \<longleftrightarrow> res = []" using all by (cases ms; cases res) auto
  moreover have "ri_Id (hd res) = ib_ID (hd ms)" if "ms \<noteq> []" using all that ids by (cases ms; cases res) auto
  moreover have "ri_Id (last res) = ib_ID (last ms)" if "ms \<noteq> []"
    using list_all2_nthD [OF all, of "length ms - 1"] that ids list_all2_lengthD [OF all] calculation(1)
    by (simp add: last_conv_nth)
  ultimately show thesis
    using list_before [OF assms(1) l] all res by (intro found [OF auth]) auto
qed

lemma update_inbox:
  assumes "good w" "UpdateInboxMessage store ctx i rd w = (Inr (), w')"
  obtains (found) auth v where "RequireAnyScope ctx [ScopeUser] = Inr auth" "good w'" "moved w v"
    "\<And>other. view other w' = (if ir_Subject other = Subject auth
       then map (\<lambda>m. if ib_ID m = i then m\<lparr>ib_IsRead := rd\<rparr> else m) (view other v) else view other v)"
proof -
  from assms(2) obtain auth where auth: "RequireAnyScope ctx [ScopeUser] = Inr auth"
    and "ms_SetInboxMessageRead store (inboxReader auth) i rd (Now ctx) w = (Inr (), w')"
    by (auto simp: UpdateInboxMessage_def requireScope_Inr catchM_def split: if_splits prod.splits sum.splits)
  from set_read [OF assms(1) this(2)] show thesis
    using found [OF auth] by (auto simp: inboxReader_def)
qed

lemma delete_inbox:
  assumes "good w" "DeleteInboxMessage store ctx i w = (Inr (), w')"
  obtains (found) auth v where "RequireAnyScope ctx [ScopeUser] = Inr auth" "good w'" "moved w v"
    "\<And>other. view other w' = (if ir_Subject other = Subject auth
       then filter (\<lambda>m. ib_ID m \<noteq> i) (view other v) else view other v)"
proof -
  from assms(2) obtain auth where auth: "RequireAnyScope ctx [ScopeUser] = Inr auth"
    and "ms_HideInboxMessage store (inboxReader auth) i (Now ctx) w = (Inr (), w')"
    by (auto simp: DeleteInboxMessage_def requireScope_Inr catchM_def split: if_splits prod.splits sum.splits)
  from hide [OF assms(1) this(2)] show thesis
    using found [OF auth] by (auto simp: inboxReader_def)
qed

end

section \<open>The eventlog half of \<open>SettingsStore\<close>\<close>

locale log_provider =
  fixes store :: "'w settings_store"
    and log :: "string list \<Rightarrow> 'w \<Rightarrow> event_log_entry list"
    and good :: "'w \<Rightarrow> bool"
  assumes entries_after: "good w \<Longrightarrow> ss_GetEventLogEntriesAfterID store owners a n w = (Inr es, w') \<Longrightarrow>
      good w' \<and> es = page_after ent_ID (log owners w') a n"
    and latest: "good w \<Longrightarrow> ss_GetLatestEventLogID store owners w = (Inr i, w') \<Longrightarrow>
      good w' \<and> (\<forall>e \<in> set (log owners w'). ent_ID e \<le> i)"
    and log_ids: "good w \<Longrightarrow> distinct (map ent_ID (log owners w))"
    and log_owned: "good w \<Longrightarrow> e \<in> set (log owners w) \<Longrightarrow> ent_Owner e \<in> set owners"
begin

lemma maxEventID_last: "sorted (map re_Id es) \<Longrightarrow> (\<And>e. e \<in> set es \<Longrightarrow> a \<le> re_Id e) \<Longrightarrow>
    maxEventID a es = last_id re_Id a es"
proof (induction es arbitrary: a)
  case (Cons x es)
  have "maxEventID a (x # es) = maxEventID (re_Id x) es"
    using Cons.prems(2) [of x] by (simp add: maxEventID_def)
  also have "\<dots> = last_id re_Id (re_Id x) es"
    by (rule Cons.IH) (use Cons.prems(1) in auto)
  finally show ?case by simp
qed (simp add: maxEventID_def)

lemma page_sorted: "good w \<Longrightarrow> sorted (map ent_ID (page_after ent_ID (log owners w) a n))"
  by (simp add: page_after_def sorted_page_asc)

lemma page_past: "e \<in> set (page_after ent_ID (log owners w) a n) \<Longrightarrow> e \<in> set (log owners w) \<and> a < ent_ID e"
  using set_page_asc [of ent_ID n "filter (\<lambda>m. a < ent_ID m) (log owners w)"] by (auto simp: page_after_def)

lemma poll_log:
  assumes "good w" "\<And>v. good v \<Longrightarrow> good (snd (wait v))"
    and "PollEventLog store wait ctx afterID n w = (Inr resp, w')"
  obtains (found) auth start where "RequireAnyScope ctx [ScopeUser] = Inr auth" "good w'"
    "afterID \<noteq> -1 \<longrightarrow> start = afterID"
    "pr_Items resp = map event_to_rpc (page_after ent_ID (log (getAllOwners auth) w') start (clampSize n))"
    "pr_LastId resp = last_id re_Id start (pr_Items resp)"
proof -
  from assms(3) obtain auth where auth: "RequireAnyScope ctx [ScopeUser] = Inr auth"
    and "bindM (if afterID = -1 then orInternal ''get latest event log id'' (ss_GetLatestEventLogID store (getAllOwners auth))
            else returnM afterID) (\<lambda>after. long_poll wait (listLogEntries store (getAllOwners auth) after (clampSize n))
       (\<lambda>events. \<lparr>pr_LastId = maxEventID after events, pr_Items = events\<rparr>)) w = (Inr resp, w')"
    unfolding PollEventLog_def requireScope_Inr Let_def by blast
  then obtain start w1 where s: "(if afterID = -1 then orInternal ''get latest event log id'' (ss_GetLatestEventLogID store (getAllOwners auth))
            else returnM afterID) w = (Inr start, w1)"
    and p: "long_poll wait (listLogEntries store (getAllOwners auth) start (clampSize n))
       (\<lambda>events. \<lparr>pr_LastId = maxEventID start events, pr_Items = events\<rparr>) w1 = (Inr resp, w')"
    unfolding bindM_Inr_iff by blast
  have w1: "good w1" "afterID \<noteq> -1 \<longrightarrow> start = afterID"
    using s assms(1) latest by (auto split: if_splits)
  have listed: "good v' \<and> es = map event_to_rpc (page_after ent_ID (log (getAllOwners auth) v') start (clampSize n))"
    if "good v" "listLogEntries store (getAllOwners auth) start (clampSize n) v = (Inr es, v')" for v es v'
    using that(2) entries_after [OF that(1)] by (auto simp: listLogEntries_def bindM_Inr_iff)
  have fin: thesis if "good v" "listLogEntries store (getAllOwners auth) start (clampSize n) v = (Inr es, w')"
    "resp = \<lparr>pr_LastId = maxEventID start es, pr_Items = es\<rparr>" for v es
  proof -
    have es: "good w'" "es = map event_to_rpc (page_after ent_ID (log (getAllOwners auth) w') start (clampSize n))"
      using listed [OF that(1,2)] by auto
    have "maxEventID start es = last_id re_Id start es"
    proof (rule maxEventID_last)
      show "sorted (map re_Id es)"
        using page_sorted [OF es(1), of "getAllOwners auth" start "clampSize n"] by (simp add: es(2) comp_def event_to_rpc_def)
      show "start \<le> re_Id e" if "e \<in> set es" for e
        using that page_past by (fastforce simp: es(2) event_to_rpc_def)
    qed
    then show thesis using es that(3) w1(2) by (intro found [OF auth]) simp_all
  qed
  from p show thesis
  proof (cases rule: long_poll_cases)
    case (ready es)
    then show thesis using fin w1(1) by blast
  next
    case (waited w2 e w3 es)
    have "good w2" using listed [OF w1(1) waited(1)] by blast
    then have "good w3" using assms(2) [of w2] waited(2) by simp
    then show thesis using fin waited(4,5) by blast
  qed
qed

end

section \<open>The PostgreSQL store keeps the laws\<close>

definition good_world :: "world \<Rightarrow> bool" where
  "good_world w \<longleftrightarrow> reachable (db w)"

definition db_moved :: "world \<Rightarrow> world \<Rightarrow> bool" where
  "db_moved v w \<longleftrightarrow> store_step\<^sup>*\<^sup>* (db v) (db w)"

definition world_inbox :: "inbox_reader \<Rightarrow> world \<Rightarrow> inbox_message list" where
  "world_inbox reader w = inbox_view reader (db w)"

definition world_log :: "string list \<Rightarrow> world \<Rightarrow> event_log_entry list" where
  "world_log owners w = map entry_of_row (eventlog_rows owners (db w))"

lemma inbox_view_page: "page_after ib_ID (inbox_view reader d) a n = map (inbox_seen reader d) (page_after im_id (inbox_rows reader d) a n)"
  unfolding inbox_view_def by (rule page_after_map) (simp add: inbox_seen_def inbox_message_of_row_def)

lemma good_ok: "good_world w \<Longrightarrow> store_ok (db w)"
  by (simp add: good_world_def reachable_ok)

lemma tx_good:
  assumes "step_runner tx" "tx body w = (r, w')" "commits_step body" "keeps_seq body" "good_world w"
  shows "good_world w'"
  using runner_steps [OF assms(1-4)] assms(5) reachable_steps by (auto simp: good_world_def)

lemma distinct_inbox_view: "inbox_ok d \<Longrightarrow> distinct (map ib_ID (inbox_view reader d))"
  using distinct_inbox_rows [of d reader]
  by (simp add: inbox_view_def comp_def inbox_seen_def inbox_message_of_row_def)

lemma pg_set_read:
  assumes "step_runner tx" "good_world w" "SetInboxMessageRead tx reader i rd t w = (Inr (), w')"
  shows "good_world w' \<and> (\<exists>v. db_moved w v \<and> (\<forall>other. world_inbox other w' =
    (if ir_Subject other = ir_Subject reader
     then map (\<lambda>m. if ib_ID m = i then m\<lparr>ib_IsRead := rd\<rparr> else m) (world_inbox other v) else world_inbox other v)))"
proof -
  have run: "tx (SetInboxMessageRead_tx reader i rd t) w = (Inr (), w')"
    using assms(3) by (simp add: SetInboxMessageRead_def)
  obtain v v' where v: "store_step\<^sup>*\<^sup>* (db w) (db v)" "SetInboxMessageRead_tx reader i rd t v = (Inr (), v')" "db w' = db v'"
    using runner_commit [OF assms(1) run] by metis
  obtain x where x: "addressed reader i (db v) = Some x" "db w' = set_read_effect reader x rd t (db v)"
    using SetInboxMessageRead_tx_effect [OF v(2)] v(3) by auto
  have "im_id x = i" using addressed_SomeD [OF x(1)] by simp
  then have "world_inbox other w' = (if ir_Subject other = ir_Subject reader
     then map (\<lambda>m. if ib_ID m = i then m\<lparr>ib_IsRead := rd\<rparr> else m) (world_inbox other v) else world_inbox other v)" for other
    by (simp add: world_inbox_def x(2) inbox_view_set_read inbox_view_other_subject)
  moreover have "good_world w'" by (rule tx_good [OF assms(1) run _ _ assms(2)]) (rule runner_bodies)+
  ultimately show ?thesis using v(1) unfolding db_moved_def by blast
qed

lemma pg_hide:
  assumes "step_runner tx" "good_world w" "HideInboxMessage tx reader i t w = (Inr (), w')"
  shows "good_world w' \<and> (\<exists>v. db_moved w v \<and> (\<forall>other. world_inbox other w' =
    (if ir_Subject other = ir_Subject reader
     then filter (\<lambda>m. ib_ID m \<noteq> i) (world_inbox other v) else world_inbox other v)))"
proof -
  have run: "tx (HideInboxMessage_tx reader i t) w = (Inr (), w')"
    using assms(3) by (simp add: HideInboxMessage_def)
  obtain v v' where v: "store_step\<^sup>*\<^sup>* (db w) (db v)" "HideInboxMessage_tx reader i t v = (Inr (), v')" "db w' = db v'"
    using runner_commit [OF assms(1) run] by metis
  obtain x where x: "addressed reader i (db v) = Some x" "db w' = hide_effect reader x t (db v)"
    using HideInboxMessage_tx_effect [OF v(2)] v(3) by auto
  have "im_id x = i" using addressed_SomeD [OF x(1)] by simp
  then have "world_inbox other w' = (if ir_Subject other = ir_Subject reader
     then filter (\<lambda>m. ib_ID m \<noteq> i) (world_inbox other v) else world_inbox other v)" for other
    by (simp add: world_inbox_def x(2) inbox_view_hide inbox_view_other_subject)
  moreover have "good_world w'" by (rule tx_good [OF assms(1) run _ _ assms(2)]) (rule runner_bodies)+
  ultimately show ?thesis using v(1) unfolding db_moved_def by blast
qed

lemma pg_inbox_provider:
  assumes "step_runner tx"
  shows "inbox_provider (pg_messages_store tx txi) world_inbox good_world db_moved"
proof
  fix w w' :: world and reader a n ms before i t rd m
  assume good: "good_world w"
  have ok: "inbox_ok (db w)" using good_ok [OF good] by (simp add: store_ok_def)
  show "ms_ListInboxMessagesAfterID (pg_messages_store tx txi) reader a n w = (Inr ms, w') \<Longrightarrow>
      good_world w' \<and> ms = page_after ib_ID (world_inbox reader w') a n"
    using good by (simp add: pg_messages_store_def ListInboxMessagesAfterID_Inr world_inbox_def inbox_view_page good_world_def)
  show "ms_ListInboxMessagesBeforeID (pg_messages_store tx txi) reader before n w = (Inr ms, w') \<Longrightarrow>
      good_world w' \<and> ms = page_desc ib_ID n (filter (\<lambda>m. before = 0 \<or> ib_ID m < before) (world_inbox reader w'))"
    using good page_desc_map [of ib_ID "inbox_seen reader (db w)" im_id n "filter (\<lambda>m. before = 0 \<or> im_id m < before) (inbox_rows reader (db w))"]
    by (simp add: pg_messages_store_def ListInboxMessagesBeforeID_Inr world_inbox_def inbox_view_def good_world_def
        filter_map comp_def inbox_seen_def inbox_message_of_row_def)
  show "ms_GetLatestInboxMessageID (pg_messages_store tx txi) reader w = (Inr i, w') \<Longrightarrow>
      good_world w' \<and> (\<forall>m \<in> set (world_inbox reader w'). ib_ID m \<le> i)"
    using good by (auto simp: pg_messages_store_def GetLatestInboxMessageID_def q_GetLatestInboxMessageId_def
        run_stmt_Inr_iff max_or_zero_def good_world_def world_inbox_def inbox_view_def inbox_rows_def inbox_seen_def
        inbox_message_of_row_def filter_empty_conv intro!: Max_ge)
  show "distinct (map ib_ID (world_inbox reader w))"
    using ok by (simp add: world_inbox_def distinct_inbox_view)
  show "m \<in> set (world_inbox reader w) \<Longrightarrow> ib_Recipient m \<in> set (ir_Owners reader)"
    by (auto simp: world_inbox_def inbox_view_def inbox_rows_def inbox_seen_def inbox_message_of_row_def)
  show "ms_SetInboxMessageRead (pg_messages_store tx txi) reader i rd t w = (Inr (), w') \<Longrightarrow>
      good_world w' \<and> (\<exists>v. db_moved w v \<and> (\<forall>other. world_inbox other w' =
        (if ir_Subject other = ir_Subject reader
         then map (\<lambda>m. if ib_ID m = i then m\<lparr>ib_IsRead := rd\<rparr> else m) (world_inbox other v) else world_inbox other v)))"
    using pg_set_read [OF assms good] by (simp add: pg_messages_store_def)
  show "ms_HideInboxMessage (pg_messages_store tx txi) reader i t w = (Inr (), w') \<Longrightarrow>
      good_world w' \<and> (\<exists>v. db_moved w v \<and> (\<forall>other. world_inbox other w' =
        (if ir_Subject other = ir_Subject reader
         then filter (\<lambda>m. ib_ID m \<noteq> i) (world_inbox other v) else world_inbox other v)))"
    using pg_hide [OF assms good] by (simp add: pg_messages_store_def)
qed

lemma pg_log_provider: "log_provider (pg_settings_store tx sortu sortd) world_log good_world"
proof
  fix w w' :: world and owners a n es i e
  assume good: "good_world w"
  have ok: "eventlog_ok (db w)" using good_ok [OF good] by (simp add: store_ok_def settings_ok_def)
  show "ss_GetEventLogEntriesAfterID (pg_settings_store tx sortu sortd) owners a n w = (Inr es, w') \<Longrightarrow>
      good_world w' \<and> es = page_after ent_ID (world_log owners w') a n"
    using good page_after_map [of ent_ID entry_of_row ev_id "eventlog_rows owners (db w)" a n]
    by (simp add: pg_settings_store_def GetEventLogEntriesAfterID_Inr world_log_def good_world_def entry_of_row_def)
  show "ss_GetLatestEventLogID (pg_settings_store tx sortu sortd) owners w = (Inr i, w') \<Longrightarrow>
      good_world w' \<and> (\<forall>e \<in> set (world_log owners w'). ent_ID e \<le> i)"
    using good by (auto simp: pg_settings_store_def GetLatestEventLogID_def q_GetLatestEventLogId_def run_stmt_Inr_iff
        Let_def good_world_def world_log_def eventlog_rows_def entry_of_row_def filter_empty_conv intro!: Max_ge)
  show "distinct (map ent_ID (world_log owners w))"
    using distinct_eventlog_rows [OF ok, of owners] by (simp add: world_log_def comp_def entry_of_row_def)
  show "e \<in> set (world_log owners w) \<Longrightarrow> ent_Owner e \<in> set owners"
    by (auto simp: world_log_def eventlog_rows_def entry_of_row_def)
qed

interpretation pg_inbox: inbox_provider "pg_messages_store run_tx run_tx" world_inbox good_world db_moved
  by (rule pg_inbox_provider) (rule run_tx_step_runner)

interpretation pg_log: log_provider "pg_settings_store run_tx sortu sortd" world_log good_world for sortu sortd
  by (rule pg_log_provider)

end
