(* ===== verification/Document_Contract.thy ===== *)
theory Document_Contract
  imports Service_Contracts
begin

text \<open>
  The documents half of \<open>SettingsStore\<close> as an interface: a map from keys to documents that the
  handlers read, write and delete in. The handlers' promises (what was written is what is read, a
  reader sees only its owners' documents, the read-only flag tells who may write) are proved from
  the laws alone; the PostgreSQL store keeps the laws.
\<close>

section \<open>Who may read and write\<close>

lemma writeOwner_Inr:
  "writeOwner m1 m2 auth owner = Inr t \<Longrightarrow>
     t = (if owner = [] then Subject auth else owner) \<and>
     (t = Subject auth \<or> HasScope auth ScopeDocAdmin \<and> isAllowedOwner auth t)"
  by (auto simp: writeOwner_def split: if_splits)

lemma writeOwner_allowed:
  "owner = [] \<or> owner = Subject auth \<or> HasScope auth ScopeDocAdmin \<and> owner \<in> set (getAllOwners auth) \<Longrightarrow>
     writeOwner m1 m2 auth owner = Inr (if owner = [] then Subject auth else owner)"
  by (cases "owner = []") (auto simp: writeOwner_def isAllowedOwner_set)

lemma writeOwner_refused:
  "\<not> (owner = [] \<or> owner = Subject auth \<or> HasScope auth ScopeDocAdmin \<and> owner \<in> set (getAllOwners auth)) \<Longrightarrow>
     \<exists>msg args. writeOwner m1 m2 auth owner = Inl (PermissionDeniedf msg args)"
  by (auto simp: writeOwner_def isAllowedOwner_set)

text \<open>What a successful call went through.\<close>

lemma svc_UpdateDocument_Inr:
  assumes "svc_UpdateDocument store api validate ctx req w = (Inr (), w')"
  obtains auth owner doc payload where "RequireAnyScope ctx [ScopeUser] = Inr auth"
    "owner = (if ud_Owner req = [] then Subject auth else ud_Owner req)"
    "owner = Subject auth \<or> HasScope auth ScopeDocAdmin \<and> isAllowedOwner auth owner"
    "ud_Payload req = Some doc" "validate SchemaUsageSettings doc = Inr []" "doc_encode api doc = Some payload"
    "ss_UpdateDocument store \<lparr>du_Owner = owner, du_Application = ud_Application req, du_Type = ud_Type req,
       du_Key = ud_Key req, du_SchemaVersion = ud_SchemaVersion req, du_Title = doc_title api doc,
       du_UpdatedBy = Subject auth, du_Payload = payload\<rparr> w = (Inr (), w')"
proof -
  let ?can = "writeOwner ''only admins can update documents for other owners'' ''not allowed to update documents for %q''"
  from assms obtain auth where auth: "RequireAnyScope ctx [ScopeUser] = Inr auth"
    and body: "(case ?can auth (ud_Owner req) of Inl e \<Rightarrow> failM e
      | Inr targetOwner \<Rightarrow> (case ud_Payload req of
            None \<Rightarrow> failM (RequiredArgument ''payload'')
          | Some doc \<Rightarrow>
              (case validate SchemaUsageSettings doc of
                 Inl _ \<Rightarrow> failM (Internalf ''validate newsdoc payload'')
               | Inr results \<Rightarrow>
                   if results \<noteq> [] then failM (validationError results)
                   else (case doc_encode api doc of
                      None \<Rightarrow> failM (Internalf ''marshal document payload'')
                    | Some payload \<Rightarrow>
                        orInternal ''update document'' (ss_UpdateDocument store
                          \<lparr>du_Owner = targetOwner, du_Application = ud_Application req, du_Type = ud_Type req,
                           du_Key = ud_Key req, du_SchemaVersion = ud_SchemaVersion req,
                           du_Title = doc_title api doc, du_UpdatedBy = Subject auth, du_Payload = payload\<rparr>))))) w = (Inr (), w')"
    unfolding svc_UpdateDocument_def requireScope_Inr by blast
  from body obtain owner where ow: "?can auth (ud_Owner req) = Inr owner" by (cases "?can auth (ud_Owner req)") auto
  from body ow obtain doc where doc: "ud_Payload req = Some doc" by (cases "ud_Payload req") auto
  from body ow doc obtain rs where rs: "validate SchemaUsageSettings doc = Inr rs"
    by (cases "validate SchemaUsageSettings doc") auto
  with body ow doc have ok: "rs = []" by (cases "rs = []") auto
  with body ow doc rs obtain payload where payload: "doc_encode api doc = Some payload" by (cases "doc_encode api doc") auto
  from writeOwner_Inr [OF ow] show thesis
    using body ow doc rs ok payload by (intro that [OF auth]) (auto simp: orInternal_Inr)
qed

lemma svc_DeleteDocument_Inr:
  assumes "svc_DeleteDocument store ctx req w = (Inr (), w')"
  obtains auth owner where "RequireAnyScope ctx [ScopeUser] = Inr auth"
    "owner = (if dr_Owner req = [] then Subject auth else dr_Owner req)"
    "owner = Subject auth \<or> HasScope auth ScopeDocAdmin \<and> isAllowedOwner auth owner"
    "ss_DeleteDocument store owner (dr_Application req) (dr_Type req) (dr_Key req) (Subject auth) w = (Inr (), w')"
proof -
  let ?can = "writeOwner ''only admins can delete documents for other owners'' ''not allowed to delete documents for %q''"
  from assms obtain auth where auth: "RequireAnyScope ctx [ScopeUser] = Inr auth"
    and body: "(case ?can auth (dr_Owner req) of Inl e \<Rightarrow> failM e
      | Inr targetOwner \<Rightarrow> orInternal ''delete document''
           (ss_DeleteDocument store targetOwner (dr_Application req) (dr_Type req) (dr_Key req) (Subject auth))) w = (Inr (), w')"
    unfolding svc_DeleteDocument_def requireScope_Inr by blast
  from body obtain owner where ow: "?can auth (dr_Owner req) = Inr owner" by (cases "?can auth (dr_Owner req)") auto
  from writeOwner_Inr [OF ow] show thesis
    using body ow by (intro that [OF auth]) (auto simp: orInternal_Inr)
qed

lemma svc_GetDocument_Inr:
  assumes "svc_GetDocument store api ctx req w = (Inr r, w')"
  obtains (got) auth owner doc raw where "RequireAnyScope ctx [ScopeUser] = Inr auth"
    "owner = (if dr_Owner req = [] then Subject auth else dr_Owner req)" "isAllowedOwner auth owner"
    "ss_GetDocument store owner (dr_Application req) (dr_Type req) (dr_Key req) w = (Inr doc, w')"
    "unmarshalDocument api (doc_Payload doc) = Some raw" "r = document_to_rpc auth doc raw"
  using assms unfolding svc_GetDocument_def requireScope_Inr
  by (auto simp: catchM_def Let_def isAllowedOwner_def split: sum.splits option.splits if_splits prod.splits)

section \<open>The interface\<close>

definition updated_doc :: "(json \<Rightarrow> json) \<Rightarrow> document_update \<Rightarrow> int \<Rightarrow> document option \<Rightarrow> document" where
  "updated_doc stored u now old = \<lparr>doc_Owner = du_Owner u, doc_Application = du_Application u, doc_Type = du_Type u,
     doc_Key = du_Key u, doc_Version = (case old of None \<Rightarrow> 1 | Some d \<Rightarrow> doc_Version d + 1),
     doc_SchemaVersion = du_SchemaVersion u, doc_Title = du_Title u,
     doc_Created = (case old of None \<Rightarrow> now | Some d \<Rightarrow> doc_Created d), doc_Updated = now,
     doc_UpdatedBy = du_UpdatedBy u, doc_Payload = Some (stored (du_Payload u))\<rparr>"

locale document_provider =
  fixes store :: "'w settings_store"
    and docs :: "'w \<Rightarrow> string \<times> string \<times> string \<times> string \<Rightarrow> document option"
    and stored :: "json \<Rightarrow> json"
    and moved :: "'w \<Rightarrow> 'w \<Rightarrow> bool"
    and available :: "'w \<Rightarrow> bool"
  assumes get_found: "ss_GetDocument store ow ap ty ky w = (Inr d, w') \<Longrightarrow>
      docs w (ow, ap, ty, ky) = Some d \<and> docs w' = docs w"
    and get_available: "available w \<Longrightarrow>
      \<exists>w'. ss_GetDocument store ow ap ty ky w =
        ((case docs w (ow, ap, ty, ky) of None \<Rightarrow> Inl ErrDocNotFound | Some d \<Rightarrow> Inr d), w')"
    and docs_key: "docs w (ow, ap, ty, ky) = Some d \<Longrightarrow>
      doc_Owner d = ow \<and> doc_Application d = ap \<and> doc_Type d = ty \<and> doc_Key d = ky"
    and update: "ss_UpdateDocument store u w = (Inr (), w') \<Longrightarrow>
      \<exists>v now. moved w v \<and> docs w' = (docs v)(update_key u \<mapsto> updated_doc stored u now (docs v (update_key u)))"
    and delete: "ss_DeleteDocument store ow ap ty ky by w = (Inr (), w') \<Longrightarrow>
      \<exists>v. moved w v \<and> docs w' = (docs v)((ow, ap, ty, ky) := None)"
begin

text \<open>A reader gets a document of one of its owners, and the flag tells whether it may write it.\<close>

lemma get_visible:
  assumes "svc_GetDocument store api ctx req w = (Inr r, w')" "RequireAnyScope ctx [ScopeUser] = Inr auth"
    and "Subject auth \<noteq> []"
  shows "rd_Owner r = (if dr_Owner req = [] then Subject auth else dr_Owner req) \<and>
    rd_Owner r \<in> set (getAllOwners auth) \<and>
    docs w (rd_Owner r, rd_Application r, rd_Type r, rd_Key r) \<noteq> None \<and>
    (rd_ReadOnly r \<longleftrightarrow> (\<exists>e. writeOwner only_admins not_allowed auth (rd_Owner r) = Inl e))"
proof -
  from assms(1,2) obtain owner doc raw where
    owner: "owner = (if dr_Owner req = [] then Subject auth else dr_Owner req)" "isAllowedOwner auth owner"
    and get: "ss_GetDocument store owner (dr_Application req) (dr_Type req) (dr_Key req) w = (Inr doc, w')"
    and r: "r = document_to_rpc auth doc raw"
    by (elim svc_GetDocument_Inr) auto
  note found = get_found [OF get]
  have own: "doc_Owner doc = owner" "doc_Application doc = dr_Application req" "doc_Type doc = dr_Type req" "doc_Key doc = dr_Key req"
    using docs_key found by blast+
  have "owner \<noteq> []" using owner(1) assms(3) by (auto split: if_splits)
  then show ?thesis
    using own owner found by (auto simp: r document_to_rpc_def isAllowedOwner_set writeOwner_def)
qed

text \<open>Who could write can read, and reads what was written.\<close>

lemma svc_GetDocument_allowed:
  assumes "RequireAnyScope ctx [ScopeUser] = Inr auth" "owner = (if dr_Owner req = [] then Subject auth else dr_Owner req)"
    and "isAllowedOwner auth owner"
    and "ss_GetDocument store owner (dr_Application req) (dr_Type req) (dr_Key req) w = (res, w')"
  shows "svc_GetDocument store api ctx req w = (case res of
     Inl e \<Rightarrow> (Inl (if e = ErrDocNotFound then NotFound ''no such document'' else Internalf ''get document''), w')
   | Inr d \<Rightarrow> (case unmarshalDocument api (doc_Payload d) of None \<Rightarrow> (Inl (Internalf ''unmarshal payload''), w')
      | Some raw \<Rightarrow> (Inr (document_to_rpc auth d raw), w')))"
  using assms by (cases "dr_Owner req = []") (auto simp: svc_GetDocument_def requireScope_def catchM_def split: sum.splits option.splits)

lemma update_get:
  assumes "svc_UpdateDocument store api validate ctx req w = (Inr (), w1)" "available w1"
    and "ud_Payload req = Some doc" "\<And>p. doc_encode api doc = Some p \<Longrightarrow> doc_decode api (stored p) = Some doc"
  shows "\<exists>r w2. svc_GetDocument store api ctx \<lparr>dr_Owner = ud_Owner req, dr_Application = ud_Application req,
      dr_Type = ud_Type req, dr_Key = ud_Key req\<rparr> w1 = (Inr r, w2) \<and>
    rd_Payload r = doc \<and> rd_Title r = doc_title api doc \<and> rd_SchemaVersion r = ud_SchemaVersion req \<and> \<not> rd_ReadOnly r"
proof -
  from assms(1,3) obtain auth owner p where auth: "RequireAnyScope ctx [ScopeUser] = Inr auth"
    and owner: "owner = (if ud_Owner req = [] then Subject auth else ud_Owner req)"
      "owner = Subject auth \<or> HasScope auth ScopeDocAdmin \<and> isAllowedOwner auth owner"
    and p: "doc_encode api doc = Some p"
    and upd: "ss_UpdateDocument store \<lparr>du_Owner = owner, du_Application = ud_Application req, du_Type = ud_Type req,
       du_Key = ud_Key req, du_SchemaVersion = ud_SchemaVersion req, du_Title = doc_title api doc,
       du_UpdatedBy = Subject auth, du_Payload = p\<rparr> w = (Inr (), w1)"
    by (elim svc_UpdateDocument_Inr) auto
  obtain d where d: "docs w1 (owner, ud_Application req, ud_Type req, ud_Key req) = Some d"
    "doc_Payload d = Some (stored p)" "doc_Title d = doc_title api doc" "doc_SchemaVersion d = ud_SchemaVersion req"
    "doc_Owner d = owner"
    using update [OF upd] by (auto simp: updated_doc_def)
  obtain w2 where get: "ss_GetDocument store owner (ud_Application req) (ud_Type req) (ud_Key req) w1 = (Inr d, w2)"
    using get_available [OF assms(2)] d(1) by (metis option.simps(5))
  have allowed: "isAllowedOwner auth owner" using owner(2) by (auto simp: isAllowedOwner_def)
  let ?ref = "\<lparr>dr_Owner = ud_Owner req, dr_Application = ud_Application req, dr_Type = ud_Type req, dr_Key = ud_Key req\<rparr>"
  have "svc_GetDocument store api ctx ?ref w1 = (Inr (document_to_rpc auth d doc), w2)"
  proof -
    have "owner = (if dr_Owner ?ref = [] then Subject auth else dr_Owner ?ref)" using owner(1) by (simp cong: if_cong)
    moreover have "ss_GetDocument store owner (dr_Application ?ref) (dr_Type ?ref) (dr_Key ?ref) w1 = (Inr d, w2)"
      using get by simp
    ultimately show ?thesis
      using svc_GetDocument_allowed [OF auth _ allowed, of ?ref w1 "Inr d" w2 api] d(2) assms(4) [OF p]
      by (simp add: unmarshalDocument_def)
  qed
  moreover have "\<not> rd_ReadOnly (document_to_rpc auth d doc)" using d(5) owner(2) by (auto simp: document_to_rpc_def)
  ultimately show ?thesis using d by (intro exI [of _ "document_to_rpc auth d doc"]) (simp add: document_to_rpc_def)
qed

lemma delete_get:
  assumes "svc_DeleteDocument store ctx req w = (Inr (), w1)" "available w1"
  shows "\<exists>w2. svc_GetDocument store api ctx req w1 = (Inl (NotFound ''no such document''), w2)"
proof -
  from assms(1) obtain auth owner where auth: "RequireAnyScope ctx [ScopeUser] = Inr auth"
    and owner: "owner = (if dr_Owner req = [] then Subject auth else dr_Owner req)"
      "owner = Subject auth \<or> HasScope auth ScopeDocAdmin \<and> isAllowedOwner auth owner"
    and del: "ss_DeleteDocument store owner (dr_Application req) (dr_Type req) (dr_Key req) (Subject auth) w = (Inr (), w1)"
    by (elim svc_DeleteDocument_Inr) auto
  have "docs w1 (owner, dr_Application req, dr_Type req, dr_Key req) = None" using delete [OF del] by auto
  then obtain w2 where get: "ss_GetDocument store owner (dr_Application req) (dr_Type req) (dr_Key req) w1 = (Inl ErrDocNotFound, w2)"
    using get_available [OF assms(2)] by (metis option.simps(4))
  have "isAllowedOwner auth owner" using owner(2) by (auto simp: isAllowedOwner_def)
  from svc_GetDocument_allowed [OF auth owner(1) this get, of api] show ?thesis by simp
qed

end

section \<open>The PostgreSQL store keeps the laws\<close>

definition world_docs :: "world \<Rightarrow> string \<times> string \<times> string \<times> string \<Rightarrow> document option" where
  "world_docs w k = map_option document_of_row (row_at doc_key k (documents (db w)))"

lemma GetDocument_eq:
  "GetDocument ow ap ty ky w =
     (if fault w (pos w) then (Inl DbFault, step_to (db w) w)
      else case world_docs w (ow, ap, ty, ky) of
        None \<Rightarrow> (Inl ErrDocNotFound, step_to (db w) w) | Some d \<Rightarrow> (Inr d, step_to (db w) w))"
  by (simp add: GetDocument_def q_GetDocument_def run_stmt_def catchM_def world_docs_def split: option.splits)

lemma world_docs_read [simp]: "world_docs (step_to (db w) w) = world_docs w"
  by (rule ext) (simp add: world_docs_def)

lemma documents_logged_put [simp]: "documents (update_document_effect u created now clk p d) = put_row doc_key (updated_document u now d) (documents d)"
  by (simp add: update_document_effect_def put_document_def)

lemma documents_delete_effect [simp]: "documents (delete_document_effect ow ap ty ky by clk p d) = drop_row doc_key (ow, ap, ty, ky) (documents d)"
  by (simp add: delete_document_effect_def drop_row_None)

lemma updated_document_view:
  "document_of_row (updated_document u now (db v)) = updated_doc jsonb_norm u now (world_docs v (update_key u))"
  by (simp add: updated_document_def updated_doc_def document_of_row_def world_docs_def Let_def split: option.splits)

lemma pg_document_provider:
  assumes "step_runner tx"
  shows "document_provider (pg_settings_store tx sortu sortd) world_docs jsonb_norm db_moved (\<lambda>w. \<not> fault w (pos w))"
proof
  fix w w' :: world and ow ap ty ky "by" d u
  show "ss_GetDocument (pg_settings_store tx sortu sortd) ow ap ty ky w = (Inr d, w') \<Longrightarrow>
      world_docs w (ow, ap, ty, ky) = Some d \<and> world_docs w' = world_docs w"
    by (cases "world_docs w (ow, ap, ty, ky)") (auto simp: pg_settings_store_def GetDocument_eq split: if_splits)
  show "\<not> fault w (pos w) \<Longrightarrow> \<exists>w'. ss_GetDocument (pg_settings_store tx sortu sortd) ow ap ty ky w =
      ((case world_docs w (ow, ap, ty, ky) of None \<Rightarrow> Inl ErrDocNotFound | Some d \<Rightarrow> Inr d), w')"
    by (cases "world_docs w (ow, ap, ty, ky)") (auto simp: pg_settings_store_def GetDocument_eq)
  show "doc_Owner d = ow \<and> doc_Application d = ap \<and> doc_Type d = ty \<and> doc_Key d = ky"
    if "world_docs w (ow, ap, ty, ky) = Some d"
  proof -
    from that obtain r where "row_at doc_key (ow, ap, ty, ky) (documents (db w)) = Some r" "d = document_of_row r"
      by (auto simp: world_docs_def)
    with row_at_SomeD [OF this(1)] show ?thesis by (simp add: document_of_row_def)
  qed
  show "\<exists>v now. db_moved w v \<and> world_docs w' = (world_docs v)(update_key u \<mapsto> updated_doc jsonb_norm u now (world_docs v (update_key u)))"
    if "ss_UpdateDocument (pg_settings_store tx sortu sortd) u w = (Inr (), w')"
  proof -
    from that have run: "tx (UpdateDocument_tx u) w = (Inr (), w')" by (simp add: pg_settings_store_def UpdateDocument_def)
    obtain v v' where v: "store_step\<^sup>*\<^sup>* (db w) (db v)" "UpdateDocument_tx u v = (Inr (), v')" "db w' = db v'"
      using runner_commit [OF assms run] by metis
    have d: "documents (db w') = put_row doc_key (updated_document u (sql_now v) (db v)) (documents (db v))"
      by (simp add: v(3) UpdateDocument_tx_effect(1) [OF v(2)])
    have "world_docs w' k = ((world_docs v)(update_key u \<mapsto> updated_doc jsonb_norm u (sql_now v) (world_docs v (update_key u)))) k" for k
      unfolding updated_document_view [symmetric] by (simp add: world_docs_def d row_at_put_row)
    then have "world_docs w' = (world_docs v)(update_key u \<mapsto> updated_doc jsonb_norm u (sql_now v) (world_docs v (update_key u)))"
      by (rule ext)
    with v(1) show ?thesis unfolding db_moved_def by blast
  qed
  show "\<exists>v. db_moved w v \<and> world_docs w' = (world_docs v)((ow, ap, ty, ky) := None)"
    if "ss_DeleteDocument (pg_settings_store tx sortu sortd) ow ap ty ky by w = (Inr (), w')"
  proof -
    from that have run: "tx (DeleteDocument_tx ow ap ty ky by) w = (Inr (), w')"
      by (simp add: pg_settings_store_def DeleteDocument_def)
    obtain v v' where v: "store_step\<^sup>*\<^sup>* (db w) (db v)" "DeleteDocument_tx ow ap ty ky by v = (Inr (), v')" "db w' = db v'"
      using runner_commit [OF assms run] by metis
    have d: "documents (db w') = drop_row doc_key (ow, ap, ty, ky) (documents (db v))"
      by (simp add: v(3) DeleteDocument_tx_effect [OF v(2)])
    have "world_docs w' = (world_docs v)((ow, ap, ty, ky) := None)"
      by (rule ext) (simp add: world_docs_def d row_at_drop_row)
    with v(1) show ?thesis unfolding db_moved_def by blast
  qed
qed

interpretation pg_docs: document_provider "pg_settings_store run_tx sortu sortd" world_docs jsonb_norm db_moved "\<lambda>w. \<not> fault w (pos w)" for sortu sortd
  by (rule pg_document_provider) (rule run_tx_step_runner)

end
