(* ===== verification/Samples.thy ===== *)
theory Samples
  imports Document_Contract
begin

text \<open>
  What the witnesses of the properties run on: a world in which nothing fails, a caller with the
  scopes \<open>user\<close> and \<open>doc_admin\<close>, documents that are their own encoding, a validator that accepts
  and a wait that ends with its timer.
\<close>

text \<open>A database as a call sees it when nothing fails: the worlds the witnesses run in.\<close>

definition snapshot :: "db \<Rightarrow> world" where
  "snapshot d = \<lparr>db = d, sql_now = 0, clock = (\<lambda>n. int n), fault = (\<lambda>_. False), pos = 0, collate = id,
     two_weeks_before = (\<lambda>t. t - 14), six_months_before = (\<lambda>t. t - 180)\<rparr>"

lemma snapshot_simps [simp]:
  "db (snapshot d) = d" "sql_now (snapshot d) = 0" "clock (snapshot d) n = int n" "fault (snapshot d) n = False"
  "pos (snapshot d) = 0" "two_weeks_before (snapshot d) t = t - 14" "six_months_before (snapshot d) t = t - 180"
  by (simp_all add: snapshot_def)

definition sample_user :: auth_info where
  "sample_user = \<lparr>Subject = ''u'', Org = ''core://org/o'', Units = [''core://unit/a''],
     HasScope = (\<lambda>s. s = ScopeUser \<or> s = ScopeDocAdmin)\<rparr>"

lemma Subject_sample_user [simp]: "Subject sample_user = ''u''"
  by (simp add: sample_user_def)

definition sample_ctx :: call_ctx where
  "sample_ctx = caller_ctx sample_user 5"

text \<open>A wait that always ends with the timer, nothing having happened.\<close>

definition idle_wait :: "'w waiter" where
  "idle_wait w = (WaitTimeout, w)"

text \<open>A document type of one uuid and one body, for the witnesses.\<close>

definition sample_api :: "json doc_api" where
  "sample_api = \<lparr>doc_encode = Some, doc_decode = Some, doc_uuid = (\<lambda>_. ''id''), doc_title = (\<lambda>_. ''t''), doc_blank = JNull\<rparr>"

definition accept_all :: "json validate" where
  "accept_all usage doc = Inr []"

lemma sample_ctx_user: "RequireAnyScope sample_ctx [ScopeUser] = Inr sample_user"
  by (simp add: sample_ctx_def caller_ctx_def sample_user_def ScopeUser_def)

section \<open>Validation errors are not refusals\<close>

lemma with_results_not_denied: "with_results (WithMeta err k v) i rs \<noteq> PermissionDeniedf msg args"
  by (induction rs arbitrary: err k v i) auto

lemma validationError_not_denied: "validationError rs \<noteq> PermissionDeniedf msg args"
  by (auto simp: validationError_def with_results_not_denied split: list.splits)

end
