(* ===== verification/Config_Props.thy ===== *)
theory Config_Props
  imports Samples
begin

text \<open>
  The properties of the configuration half of the service: one active generation, schemas and
  generations that never change, registration that is idempotent, and what identifies a generation.
\<close>

section \<open>Generations\<close>

lemma reachable_config_ok: "reachable d \<Longrightarrow> config_ok d"
  using reachable_ok by (simp add: store_ok_def)

lemma generation_unique:
  "config_ok d \<Longrightarrow> g \<in> set (generations d) \<Longrightarrow> h \<in> set (generations d) \<Longrightarrow> cg_id g = cg_id h \<Longrightarrow> g = h"
  using generations_okD(1) [of "generations d" "generation_seq d"]
  by (simp add: config_ok_def distinct_map) (auto dest: inj_onD)

lemma hash_unique:
  "config_ok d \<Longrightarrow> g \<in> set (generations d) \<Longrightarrow> h \<in> set (generations d) \<Longrightarrow> cg_identity_hash g = cg_identity_hash h \<Longrightarrow> g = h"
  using generations_okD(2) [of "generations d" "generation_seq d"]
  by (simp add: config_ok_def distinct_map) (auto dest: inj_onD)

lemma active_unique:
  "config_ok d \<Longrightarrow> g \<in> set (generations d) \<Longrightarrow> h \<in> set (generations d) \<Longrightarrow> cg_active g \<Longrightarrow> cg_active h \<Longrightarrow> g = h"
  using generations_okD(7) [of "generations d" "generation_seq d" g h] generation_unique [of d g h] by (simp add: config_ok_def)

lemma filter_active:
  assumes "config_ok d"
  shows "filter cg_active (generations d) = (case active_generation d of None \<Rightarrow> [] | Some g \<Rightarrow> [g])"
proof (cases "active_generation d")
  case None
  then have "filter cg_active (generations d) = []"
    by (simp add: active_generation_def find_None_iff filter_empty_conv)
  with None show ?thesis by simp
next
  case (Some g)
  then have g: "g \<in> set (generations d)" "cg_active g" by (auto simp: active_generation_def find_Some_iff)
  have "filter cg_active (generations d) = filter (\<lambda>h. cg_id h = cg_id g) (generations d)"
    using active_unique [OF assms _ g(1)] generation_unique [OF assms _ g(1)] g(2) by (intro filter_cong) auto
  also have "\<dots> = [g]"
    using generations_okD(1) [of "generations d" "generation_seq d"] assms g(1)
    by (intro filter_unique_key) (simp_all add: config_ok_def del: distinct_map)
  finally show ?thesis using Some by simp
qed

text \<open>In every reachable database at most one generation is active, whatever registrations, activations
  and rollbacks led there.\<close>

lemma single_active_generation:
  assumes "reachable d"
  shows "length (filter cg_active (generations d)) \<le> 1 \<and>
    (\<forall>g \<in> set (generations d). cg_active g \<longrightarrow> active_generation d = Some g \<and> cg_activated_at g \<noteq> None)"
proof -
  note ok = reachable_config_ok [OF assms]
  have "active_generation d = Some g" if g: "g \<in> set (generations d)" "cg_active g" for g
  proof -
    have "g \<in> set (filter cg_active (generations d))" using g by simp
    then show ?thesis unfolding filter_active [OF ok] by (cases "active_generation d") simp_all
  qed
  moreover have "cg_activated_at g \<noteq> None" if "g \<in> set (generations d)" "cg_active g" for g
    using ok that by (simp add: config_ok_def generations_ok_def)
  moreover have "length (filter cg_active (generations d)) \<le> 1"
    unfolding filter_active [OF ok] by (cases "active_generation d") simp_all
  ultimately show ?thesis by blast
qed

definition sample_schema :: config_schema where
  "sample_schema = \<lparr>sc_Name = ''core'', sc_Version = ''1'', sc_Spec = Some (Some JNull), sc_Usage = SchemaUsageSettings\<rparr>"

definition registered :: world where
  "registered = snd (RegisterConfigGeneration run_tx id id ''first'' [sample_schema] True (snapshot empty_db))"

lemmas register_eval = RegisterConfigGeneration_def Let_def bindM_def catchM_def run_tx_def run_stmt_def
  registerConfigGeneration_tx_def ensureConfigSchemas_def ensureConfigSchema_def q_GetSchema_def q_EnsureSchema_def
  q_GetConfigGenerationByIdentityHash_def q_InsertConfigGeneration_def insertGenerationSchemas.simps
  q_InsertConfigGenerationSchema_def activateConfigGeneration_def q_DeactivateActiveConfigGeneration_def
  q_ActivateConfigGeneration_def other_active_def notifySchemasUpdated_def pgNotify_def q_Notify_def GetConfigGeneration_def
  q_GetConfigGeneration_def addGenerationSchemaRefs_def q_GetConfigGenerationSchemas_def joined_schemas_def row_at_def
  configGenerationFromRow_def sample_schema_def empty_db_def in_bigint_def min_bigint_def max_bigint_def

lemma generations_registered: "map cg_id (generations (db registered)) = [1]" "map cg_active (generations (db registered)) = [True]"
  "map schema_key (schemas (db registered)) = [(''core'', ''1'')]"
  by (simp_all add: registered_def) (simp_all add: register_eval numeral_2_eq_2)

lemma register_steps:
  assumes "step_runner tx" "register_loop k e (tx (registerConfigGeneration_tx f64 desc ss act h)) w = (r, w')"
  shows "store_step\<^sup>*\<^sup>* (db w) (db w')"
  using assms(2)
proof (induction k arbitrary: e w)
  case (Suc k)
  obtain r1 w1 where 1: "tx (registerConfigGeneration_tx f64 desc ss act h) w = (r1, w1)" by fastforce
  have steps: "store_step\<^sup>*\<^sup>* (db w) (db w1)"
    by (rule runner_steps [OF assms(1) 1]) (rule runner_bodies)+
  show ?case
  proof (cases "r1 = Inl (UniqueViolation identityHashKey)")
    case True
    then have "register_loop k (UniqueViolation identityHashKey) (tx (registerConfigGeneration_tx f64 desc ss act h)) w1 = (r, w')"
      using Suc.prems 1 by simp
    from Suc.IH [OF this] show ?thesis using steps by (rule rtranclp_trans [rotated])
  next
    case False
    then show ?thesis using Suc.prems 1 steps by (auto split: sum.splits if_splits)
  qed
qed simp

lemma register_loop_commit:
  assumes "step_runner tx" "register_loop k e (tx (registerConfigGeneration_tx f64 desc ss act h)) w = (Inr i, w')"
  obtains v v' where "store_step\<^sup>*\<^sup>* (db w) (db v)" "registerConfigGeneration_tx f64 desc ss act h v = (Inr i, v')" "db w' = db v'"
  using assms(2)
proof (induction k arbitrary: e w thesis)
  case (Suc k)
  obtain r1 w1 where 1: "tx (registerConfigGeneration_tx f64 desc ss act h) w = (r1, w1)" by fastforce
  have steps: "store_step\<^sup>*\<^sup>* (db w) (db w1)"
    by (rule runner_steps [OF assms(1) 1]) (rule runner_bodies)+
  show ?case
  proof (cases r1)
    case (Inl e1)
    then have "register_loop k e1 (tx (registerConfigGeneration_tx f64 desc ss act h)) w1 = (Inr i, w')"
      using Suc.prems(2) 1 by (simp split: if_splits)
    from Suc.IH [OF _ this] show ?thesis using Suc.prems(1) rtranclp_trans [OF steps] by metis
  next
    case (Inr j)
    then have "tx (registerConfigGeneration_tx f64 desc ss act h) w = (Inr i, w')"
      using Suc.prems(2) 1 by simp
    from runner_commit [OF assms(1) this] show ?thesis using Suc.prems(1) by metis
  qed
qed simp

lemma GetConfigGeneration_db: "GetConfigGeneration i w = (r, w') \<Longrightarrow> db w' = db w"
  by (auto simp: GetConfigGeneration_def catchM_def q_GetConfigGeneration_def run_stmt_def addGenerationSchemaRefs_def
      bindM_def q_GetConfigGenerationSchemas_def split: if_splits option.splits sum.splits)

lemma GetConfigGeneration_Inr:
  "GetConfigGeneration i w = (Inr gen, w') \<Longrightarrow>
     db w' = db w \<and> (\<exists>g. row_at cg_id i (generations (db w)) = Some g \<and>
       gen = (configGenerationFromRow g)\<lparr>gen_Schemas := map schema_ref (joined_schemas (db w) (cg_id g))\<rparr>)"
  by (auto simp: GetConfigGeneration_def catchM_def q_GetConfigGeneration_def run_stmt_def addGenerationSchemaRefs_def
      bindM_Inr_iff q_GetConfigGenerationSchemas_def configGenerationFromRow_def split: if_splits option.splits)

text \<open>What a successful registration leaves: the generation with the hash of its schemas, all covered.\<close>

lemma registered_body:
  assumes "registerConfigGeneration_tx f64 desc ss act h v = (Inr i, v')" "config_ok (db v)"
  obtains g where "g \<in> set (generations (db v'))" "cg_id g = i" "cg_identity_hash g = h"
    "\<forall>s \<in> set ss. ensured f64 (schemas (db v')) s" "act \<Longrightarrow> active_generation (db v') = Some g"
    "h \<notin> cg_identity_hash ` set (generations (db v)) \<Longrightarrow> generation_refs (db v') i = generation_rows i 0 ss \<and> cg_description g = desc \<and>
       (cg_active g \<longleftrightarrow> act) \<and> generation_seq (db v) < i"
proof -
  obtain w1 w2 :: world and row where 1:
    "schemas_added (db v) (db w1)" "\<forall>s \<in> set ss. ensured f64 (schemas (db w1)) s"
    "row_at cg_identity_hash h (generations (db w1)) = Some row \<and> db w2 = db w1 \<or>
     row_at cg_identity_hash h (generations (db w1)) = None \<and>
       row = new_generation h desc (sql_now w1) (db w1) \<and>
       db w2 = insert_generation_effect h desc ss (sql_now w1) (db w1) \<and> config_step (db w1) (db w2)"
    "i = cg_id row"
    "if act \<and> \<not> cg_active row
     then db v' = (activate_effect i (sql_now w2) (db w2))\<lparr>outbox := outbox (db w2) @ [(NotifyChannelSchemaUpdate, SchemaEvent ''activated'')]\<rparr>
     else db v' = db w2"
    by (rule registerConfigGeneration_tx_phases [OF assms(1)])
  have gens1: "generations (db w1) = generations (db v)" "generation_schemas (db w1) = generation_schemas (db v)"
      "generation_seq (db w1) = generation_seq (db v)"
    using 1(1) by (auto simp: schemas_added_def)
  have ok1: "config_ok (db w1)" using schemas_added_step [OF 1(1)] assms(2) by (simp add: config_step_def)
  have ok2: "config_ok (db w2)" using 1(3) ok1 by (auto simp: config_step_def)
  have row: "row \<in> set (generations (db w2))" "cg_identity_hash row = h"
    using 1(3) row_at_SomeD [of cg_identity_hash h "generations (db w1)" row]
    by (auto simp: insert_generation_effect_def new_generation_def)
  have sch: "schemas (db w2) = schemas (db w1)" "schemas (db v') = schemas (db w2)" "generation_schemas (db v') = generation_schemas (db w2)"
    using 1(3,5) by (auto simp: insert_generation_effect_def activate_effect_def split: if_splits)
  have ens: "\<forall>s \<in> set ss. ensured f64 (schemas (db v')) s" using 1(2) sch by simp
  have fresh: "generation_refs (db v') i = generation_rows i 0 ss \<and> cg_description row = desc \<and>
      \<not> cg_active row \<and> generation_seq (db v) < i"
    if "h \<notin> cg_identity_hash ` set (generations (db v))"
  proof -
    have new: "row = new_generation h desc (sql_now w1) (db w1)" "db w2 = insert_generation_effect h desc ss (sql_now w1) (db w1)"
      using 1(3) that row_at_None [of cg_identity_hash h "generations (db w1)"] gens1 by auto
    have i: "i = generation_seq (db w1) + 1" by (simp add: 1(4) new(1) new_generation_def)
    have "cgs_generation_id r \<noteq> i" if "r \<in> set (generation_schemas (db w1))" for r
    proof -
      have "cgs_generation_id r \<in> cg_id ` set (generations (db w1))"
        using ok1 that by (simp add: config_ok_def refs_ok_def)
      then have "cgs_generation_id r \<le> generation_seq (db w1)"
        using ok1 by (auto simp: config_ok_def generations_ok_def)
      then show ?thesis by (simp add: i)
    qed
    then have old: "filter (\<lambda>r. cgs_generation_id r = i) (generation_schemas (db w1)) = []" by (simp add: filter_empty_conv)
    have all: "filter (\<lambda>r. cgs_generation_id r = i) (generation_rows i 0 ss) = generation_rows i 0 ss"
      by (auto simp: generation_rows_def intro!: filter_True)
    show ?thesis
      using old all by (simp add: generation_refs_def sch(3) new(2) insert_generation_effect_def i [symmetric]) (simp add: new(1) new_generation_def i gens1(3))
  qed
  show thesis
  proof (cases "act \<and> \<not> cg_active row")
    case True
    then have v': "db v' = (activate_effect i (sql_now w2) (db w2))\<lparr>outbox := outbox (db w2) @ [(NotifyChannelSchemaUpdate, SchemaEvent ''activated'')]\<rparr>"
      using 1(5) by simp
    have at: "row_at cg_id i (generations (db w2)) = Some row"
      using ok2 row(1) 1(4) generations_okD(1) [of "generations (db w2)" "generation_seq (db w2)"] row_at_SomeI [of cg_id "generations (db w2)" row]
      by (simp add: config_ok_def del: distinct_map)
    let ?g = "activated i (sql_now w2) row"
    have "active_generation (db v') = Some ?g"
      using active_after_activate [OF ok2 at, of "sql_now w2"] by (simp add: v' active_generation_def)
    moreover have "?g \<in> set (generations (db v'))" using row(1) by (simp add: v' activate_effect_def)
    ultimately show thesis using row(2) 1(4) ens fresh True by (intro that [of ?g]) simp_all
  next
    case False
    then have v': "db v' = db w2" using 1(5) by auto
    have "active_generation (db v') = Some row" if act
    proof -
      have "row \<in> set (filter cg_active (generations (db w2)))" using False row(1) that by simp
      then show ?thesis unfolding filter_active [OF ok2] v' by (cases "active_generation (db w2)") simp_all
    qed
    then show thesis using row 1(4) ens fresh v' False by (intro that [of row]) auto
  qed
qed


lemma RegisterConfigGeneration_steps:
  assumes "step_runner tx" "RegisterConfigGeneration tx sha f64 desc ss act w = (r, w')"
  shows "store_step\<^sup>*\<^sup>* (db w) (db w')"
proof -
  let ?h = "configGenerationIdentityHash sha ss"
  obtain r1 w1 where 1: "register_loop 2 (UniqueViolation identityHashKey) (tx (registerConfigGeneration_tx f64 desc ss act ?h)) w = (r1, w1)"
    by fastforce
  note steps = register_steps [OF assms(1) 1]
  show ?thesis
  proof (cases r1)
    case (Inl e)
    then show ?thesis using 1 assms(2) steps by (simp add: RegisterConfigGeneration_def Let_def)
  next
    case (Inr i)
    then have "GetConfigGeneration i w1 = (r, w')" using 1 assms(2) by (simp add: RegisterConfigGeneration_def Let_def)
    then have "db w' = db w1" by (rule GetConfigGeneration_db)
    then show ?thesis using steps by simp
  qed
qed

lemma reachable_registered: "reachable (db registered)"
proof -
  obtain r where "RegisterConfigGeneration run_tx id id ''first'' [sample_schema] True (snapshot empty_db) = (r, registered)"
    unfolding registered_def by (cases "RegisterConfigGeneration run_tx id id ''first'' [sample_schema] True (snapshot empty_db)") simp
  from reachable_steps [OF _ RegisterConfigGeneration_steps [OF run_tx_step_runner this]] show ?thesis
    by (simp add: reachable_empty)
qed

lemma one_generation: "\<exists>g. generations (db registered) = [g] \<and> cg_id g = 1 \<and> cg_active g"
  using generations_registered(1,2) by (auto simp: map_eq_Cons_conv)

lemma single_active_generation_witness: "length (filter cg_active (generations (db registered))) = 1"
proof -
  have "length (filter cg_active (generations (db registered))) \<le> 1"
    using single_active_generation [OF reachable_registered] by blast
  then show ?thesis using one_generation by auto
qed

section \<open>Activation\<close>

lemma activated_response:
  assumes "GetConfigGeneration i w1 = (Inr gen, w')" "active_generation (db w1) = Some g" "cg_id g = i" "config_ok (db w1)"
  shows "db w' = db w1" "gen_ID gen = i" "gen_Active gen"
proof -
  have g: "g \<in> set (generations (db w1))" "cg_active g" using assms(2) by (auto simp: active_generation_def find_Some_iff)
  from GetConfigGeneration_Inr [OF assms(1)] obtain h where h: "row_at cg_id i (generations (db w1)) = Some h"
    and gen: "gen = (configGenerationFromRow h)\<lparr>gen_Schemas := map schema_ref (joined_schemas (db w1) (cg_id h))\<rparr>" and d: "db w' = db w1"
    by blast
  have "h = g" using generation_unique [OF assms(4), of h g] row_at_SomeD [OF h] g assms(3) by simp
  then show "db w' = db w1" "gen_ID gen = i" "gen_Active gen"
    using gen d g assms(3) by (simp_all add: configGenerationFromRow_def)
qed

lemma activateGeneration_active:
  assumes "activateGeneration_tx i v = (Inr a, v')" "config_ok (db v)"
  obtains g where "active_generation (db v') = Some g" "cg_id g = i"
proof -
  from activateGeneration_tx_effect [OF assms(1)] obtain g where g: "row_at cg_id i (generations (db v)) = Some g"
    and e: "if cg_active g then db v' = db v
     else db v' = (activate_effect i (sql_now v) (db v))\<lparr>outbox := outbox (db v) @ [(NotifyChannelSchemaUpdate, SchemaEvent ''activated'')]\<rparr>"
    by blast
  show thesis
  proof (cases "cg_active g")
    case True
    have "g \<in> set (filter cg_active (generations (db v)))" using True row_at_SomeD [OF g] by simp
    then have "active_generation (db v) = Some g" unfolding filter_active [OF assms(2)] by (cases "active_generation (db v)") simp_all
    then show thesis using that [of g] e True row_at_SomeD [OF g] by simp
  next
    case False
    then show thesis
      using that [of "activated i (sql_now v) g"] e active_after_activate [OF assms(2) g, of "sql_now v"] row_at_SomeD [OF g]
      by (simp add: active_generation_def)
  qed
qed

lemma svc_ActivateConfigGeneration_Inr:
  assumes "svc_ActivateConfigGeneration (pg_config_store tx txi sha f64) ctx i w = (Inr gen, w')"
  obtains gen0 where "ActivateConfigGeneration tx i w = (Inr gen0, w')" "gen = configGenerationToRPC gen0"
proof -
  obtain r w1 where 1: "ActivateConfigGeneration tx i w = (r, w1)" by fastforce
  show thesis
  proof (cases r)
    case (Inl e)
    then show thesis using assms 1
      by (simp add: svc_ActivateConfigGeneration_def requireAny_def pg_config_store_def split: sum.splits if_splits)
  next
    case (Inr gen0)
    then show thesis using assms 1 that
      by (simp add: svc_ActivateConfigGeneration_def requireAny_def pg_config_store_def split: sum.splits if_splits)
  qed
qed

text \<open>An activation that succeeds leaves the generation it was asked for active, and it alone, whatever other
  calls committed in between; the generations themselves, their schemas and the schemas stored are those of before.\<close>

theorem activate_generation_effect:
  assumes "step_runner tx" "reachable (db w)"
    and "svc_ActivateConfigGeneration (pg_config_store tx txi sha f64) ctx i w = (Inr gen, w')"
  shows "rg_Id gen = i \<and> rg_Active gen \<and> reachable (db w') \<and>
    (\<exists>g. active_generation (db w') = Some g \<and> cg_id g = i \<and> filter cg_active (generations (db w')) = [g]) \<and>
    config_kept (db w) (db w')"
proof -
  obtain gen0 where act: "ActivateConfigGeneration tx i w = (Inr gen0, w')" and gen: "gen = configGenerationToRPC gen0"
    using assms(3) by (rule svc_ActivateConfigGeneration_Inr)
  from act obtain w1 a where 1: "tx (activateGeneration_tx i) w = (Inr a, w1)" and 2: "GetConfigGeneration i w1 = (Inr gen0, w')"
    by (auto simp: ActivateConfigGeneration_def bindM_Inr_iff)
  obtain v v' where v: "store_step\<^sup>*\<^sup>* (db w) (db v)" "activateGeneration_tx i v = (Inr a, v')" "db w1 = db v'"
    using runner_commit [OF assms(1) 1] by metis
  have ok: "config_ok (db v)" by (rule reachable_config_ok) (rule reachable_steps [OF assms(2) v(1)])
  have steps: "store_step\<^sup>*\<^sup>* (db w) (db w1)" by (rule runner_steps [OF assms(1) 1]) (rule runner_bodies)+
  have ok1: "config_ok (db w1)" by (rule reachable_config_ok) (rule reachable_steps [OF assms(2) steps])
  obtain g where g: "active_generation (db v') = Some g" "cg_id g = i"
    by (rule activateGeneration_active [OF v(2) ok])
  note resp = activated_response [OF 2 _ g(2) ok1]
  have kept: "config_kept (db w) (db w1)"
    using config_kept_steps [OF steps] reachable_ok [OF assms(2)] by simp
  show ?thesis
    using resp g v(3) gen kept filter_active [OF ok1] reachable_steps [OF assms(2) steps] by (simp add: configGenerationToRPC_def)
qed

definition sample_admin :: auth_info where
  "sample_admin = \<lparr>Subject = ''a'', Org = '''', Units = [], HasScope = (\<lambda>s. s = ScopeSchemaAdmin)\<rparr>"

lemma sample_admin_ctx: "RequireAnyScope (caller_ctx sample_admin 5) [ScopeSchemaAdmin] = Inr sample_admin"
  by (simp add: caller_ctx_def sample_admin_def)

lemma sample_activate:
  "fst (svc_ActivateConfigGeneration (pg_config_store run_tx run_tx id id) (caller_ctx sample_admin 5) 1 (snapshot (db registered))) =
     Inr \<lparr>rg_Id = 1, rg_Description = ''first'', rg_Active = True, rg_Created = 0, rg_Activated = Some 0,
       rg_Schemas = [\<lparr>rs_Name = ''core'', rs_Version = ''1'', rs_Spec = None, rs_Usage = SCHEMA_USAGE_SETTINGS\<rparr>]\<rparr>"
  unfolding svc_ActivateConfigGeneration_def requireAny_def sample_admin_ctx
  by (simp add: registered_def)
    (simp add: register_eval numeral_2_eq_2 pg_config_store_def ActivateConfigGeneration_def activateGeneration_tx_def configGenerationToRPC_def
      rfc3339_def schema_to_rpc_def schema_ref_def)

theorem activate_generation_effect_witness:
  "\<exists>gen w'. svc_ActivateConfigGeneration (pg_config_store run_tx run_tx id id) (caller_ctx sample_admin 5) 1 (snapshot (db registered)) = (Inr gen, w') \<and>
     rg_Id gen = 1 \<and> rg_Active gen"
proof -
  obtain gen w' where 1: "svc_ActivateConfigGeneration (pg_config_store run_tx run_tx id id) (caller_ctx sample_admin 5) 1 (snapshot (db registered)) = (Inr gen, w')"
    using sample_activate by (metis prod.collapse)
  from activate_generation_effect [OF run_tx_step_runner _ 1] reachable_registered show ?thesis using 1 by auto
qed

section \<open>Registration\<close>

lemma RegisterConfigGeneration_Inr:
  assumes "step_runner tx" "RegisterConfigGeneration tx sha f64 desc ss act w = (Inr gen, w')"
  obtains v v' i where "store_step\<^sup>*\<^sup>* (db w) (db v)"
    "registerConfigGeneration_tx f64 desc ss act (configGenerationIdentityHash sha ss) v = (Inr i, v')" "db w' = db v'"
    "\<exists>g. row_at cg_id i (generations (db w')) = Some g \<and>
       gen = (configGenerationFromRow g)\<lparr>gen_Schemas := map schema_ref (joined_schemas (db w') i)\<rparr>"
proof -
  let ?h = "configGenerationIdentityHash sha ss"
  obtain r1 w1 where 1: "register_loop 2 (UniqueViolation identityHashKey) (tx (registerConfigGeneration_tx f64 desc ss act ?h)) w = (r1, w1)"
    by fastforce
  show thesis
  proof (cases r1)
    case (Inl e)
    then show thesis using 1 assms(2) by (simp add: RegisterConfigGeneration_def Let_def)
  next
    case (Inr i)
    then have 2: "GetConfigGeneration i w1 = (Inr gen, w')" using 1 assms(2) by (simp add: RegisterConfigGeneration_def Let_def)
    obtain v v' where v: "store_step\<^sup>*\<^sup>* (db w) (db v)" "registerConfigGeneration_tx f64 desc ss act ?h v = (Inr i, v')" "db w1 = db v'"
      using register_loop_commit [OF assms(1)] 1 Inr by metis
    have "db w' = db w1" by (rule GetConfigGeneration_db [OF 2])
    moreover have "\<exists>g. row_at cg_id i (generations (db w1)) = Some g \<and>
       gen = (configGenerationFromRow g)\<lparr>gen_Schemas := map schema_ref (joined_schemas (db w1) i)\<rparr>"
      using GetConfigGeneration_Inr [OF 2] by (auto dest: row_at_SomeD)
    ultimately show thesis using that [OF v(1,2)] v(3) by simp
  qed
qed

text \<open>The rows of a generation read back are the schemas it was registered with, in order.\<close>

lemma int32_id: "i < 2147483648 \<Longrightarrow> int32 i = int i"
  by (simp add: int32_def)

lemma sorted_generation_rows:
  assumes "k + length ss \<le> 2147483648"
  shows "sorted (map cgs_ordinal (generation_rows i k ss))"
proof -
  have "map cgs_ordinal (generation_rows i k ss) = map int [k..<k + length ss]"
    using assms by (auto simp: generation_rows_def int32_id intro!: nth_equalityI)
  then show ?thesis by (simp add: sorted_map sorted_wrt_upt)
qed

lemma joined_rows:
  assumes "\<forall>s \<in> set ss. ensured f64 (schemas d) s"
  shows "map schema_ref (List.map_filter (\<lambda>r. map_option (Pair r) (row_at schema_key (cgs_ref r) (schemas d))) (generation_rows i k ss)) =
    map (\<lambda>s. s\<lparr>sc_Spec := None\<rparr>) ss"
  using assms
proof (induction ss arbitrary: k)
  case (Cons s ss)
  from Cons.prems obtain r where r: "row_at schema_key (sc_Name s, sc_Version s) (schemas d) = Some r" "ds_usage r = sc_Usage s"
    by (auto simp: ensured_def)
  have "\<forall>s \<in> set ss. ensured f64 (schemas d) s" using Cons.prems by simp
  note IH = Cons.IH [OF this, of "Suc k"]
  show ?case using IH r by (simp add: List.map_filter_def schema_ref_def)
qed (simp add: List.map_filter_def)

lemma joined_registered:
  assumes "\<forall>s \<in> set ss. ensured f64 (schemas d) s" "generation_refs d i = generation_rows i 0 ss" "length ss \<le> 2147483648"
  shows "map schema_ref (joined_schemas d i) = map (\<lambda>s. s\<lparr>sc_Spec := None\<rparr>) ss"
proof -
  have "sort_key cgs_ordinal (generation_rows i 0 ss) = generation_rows i 0 ss"
    using sorted_generation_rows [of 0 ss i] assms(3) by (simp add: sort_key_sorted)
  then show ?thesis using joined_rows [OF assms(1), of i 0] assms(2) by (simp add: joined_schemas_def generation_refs_def)
qed

text \<open>A runner while nobody else is at work is one of the runners of the contract.\<close>

lemma tx_result_mono: "tx_result A body w x \<Longrightarrow> (\<And>d e. A d e \<Longrightarrow> B d e) \<Longrightarrow> tx_result B body w x"
proof (induction rule: tx_result.induct)
qed (erule tx_result.intros, assumption | rule tx_result.intros, blast, assumption | rule tx_result.intros, blast)+

lemma tx_contract_mono: "tx_contract A tx \<Longrightarrow> (\<And>d e. A d e \<Longrightarrow> B d e) \<Longrightarrow> tx_contract B tx"
  unfolding tx_contract_def using tx_result_mono by metis

lemma alone_step_runner: "tx_contract (=) tx \<Longrightarrow> step_runner tx"
  unfolding step_runner_def by (erule tx_contract_mono) simp

text \<open>Nobody else at work: an attempt sees the database of the call, but for ids a failed attempt used up.\<close>

lemma register_loop_alone:
  assumes "tx_contract (=) tx" "register_loop k e (tx (registerConfigGeneration_tx f64 desc ss act h)) w = (Inr i, w')"
  shows "\<exists>v v' n. generation_seq (db w) \<le> n \<and> db v = (db w)\<lparr>generation_seq := n\<rparr> \<and>
    registerConfigGeneration_tx f64 desc ss act h v = (Inr i, v') \<and> db w' = db v'"
  using assms(2)
proof (induction k arbitrary: e w)
  case (Suc k)
  let ?body = "registerConfigGeneration_tx f64 desc ss act h :: int query"
  obtain r1 w1 where 1: "tx ?body w = (r1, w1)" by fastforce
  show ?case
  proof (cases r1)
    case (Inr j)
    then have tx: "tx ?body w = (Inr i, w')" using Suc.prems 1 by simp
    obtain d t p wc p' where "db w = d" "?body (begun d t p w) = (Inr i, wc)" "w' = wc\<lparr>pos := p'\<rparr>"
      by (rule tx_contract_Inr [OF assms(1) tx])
    then show ?thesis by (intro exI [of _ "begun d t p w"] exI [of _ wc] exI [of _ "generation_seq (db w)"]) simp
  next
    case (Inl e1)
    then have loop: "register_loop k e1 (tx ?body) w1 = (Inr i, w')" and e1: "e1 = UniqueViolation identityHashKey"
      using Suc.prems 1 by (simp_all split: if_splits)
    have tx: "tx ?body w = (Inl e1, w1)" using 1 Inl by simp
    from assms(1) tx obtain d t p wc where "db w = d" "?body (begun d t p w) = (Inl e1, wc)"
      "db w1 = d\<lparr>generation_seq := generation_seq (db wc)\<rparr>"
      by (cases rule: tx_contract_Inl) (use e1 in auto)
    moreover from this have "generation_seq (db w) \<le> generation_seq (db wc)"
      using keeps_seq_bodies(9) [of f64 desc ss act h] unfolding keeps_seq_def by (metis begun_simps(1) snd_conv)
    moreover obtain v v' n where "generation_seq (db w1) \<le> n" "db v = (db w1)\<lparr>generation_seq := n\<rparr>" "?body v = (Inr i, v')" "db w' = db v'"
      using Suc.IH [OF loop] by blast
    ultimately show ?thesis by (intro exI [of _ v] exI [of _ v'] exI [of _ n]) simp
  qed
qed simp

lemma register_row:
  assumes "step_runner tx" "reachable (db w)"
    and "RegisterConfigGeneration tx sha f64 desc ss act w = (Inr gen, w')"
  obtains g where "g \<in> set (generations (db w'))" "cg_identity_hash g = configGenerationIdentityHash sha ss"
    "gen = (configGenerationFromRow g)\<lparr>gen_Schemas := map schema_ref (joined_schemas (db w') (cg_id g))\<rparr>"
    "\<forall>s \<in> set ss. ensured f64 (schemas (db w')) s" "act \<Longrightarrow> active_generation (db w') = Some g"
    "reachable (db w')" "config_ok (db w')"
proof -
  let ?h = "configGenerationIdentityHash sha ss"
  obtain v v' i where v: "store_step\<^sup>*\<^sup>* (db w) (db v)" "registerConfigGeneration_tx f64 desc ss act ?h v = (Inr i, v')" "db w' = db v'"
    and gen: "\<exists>g. row_at cg_id i (generations (db w')) = Some g \<and>
       gen = (configGenerationFromRow g)\<lparr>gen_Schemas := map schema_ref (joined_schemas (db w') i)\<rparr>"
    by (rule RegisterConfigGeneration_Inr [OF assms(1,3)])
  have ok: "config_ok (db v)" by (rule reachable_config_ok) (rule reachable_steps [OF assms(2) v(1)])
  have r: "reachable (db w')" by (rule reachable_steps [OF assms(2) RegisterConfigGeneration_steps [OF assms(1,3)]])
  then have ok': "config_ok (db w')" by (rule reachable_config_ok)
  obtain g where g: "g \<in> set (generations (db v'))" "cg_id g = i" "cg_identity_hash g = ?h"
    "\<forall>s \<in> set ss. ensured f64 (schemas (db v')) s" "act \<Longrightarrow> active_generation (db v') = Some g"
    by (rule registered_body [OF v(2) ok]) blast
  obtain h where h: "row_at cg_id i (generations (db w')) = Some h"
    "gen = (configGenerationFromRow h)\<lparr>gen_Schemas := map schema_ref (joined_schemas (db w') i)\<rparr>" using gen by blast
  have "h = g" using generation_unique [OF ok', of h g] row_at_SomeD [OF h(1)] g v(3) by simp
  then show thesis using that [of g] g h(2) v(3) r ok' by simp
qed

text \<open>A registration whose transaction runs without others between its statements answers with the one generation that
  has the identity of the schemas asked for; each of them is stored under its name and version with the usage, and an
  equal spec; asked to activate, it leaves that generation active. (\<open>Config_Interleaving_Props\<close> has what is left of this
  when statements interleave.)\<close>

lemma registration_atomic:
  assumes "step_runner tx" "reachable (db w)"
    and "RegisterConfigGeneration tx sha f64 desc ss act w = (Inr gen, w')"
  shows "reachable (db w') \<and> config_kept (db w) (db w') \<and>
    (\<forall>s \<in> set ss. ensured f64 (schemas (db w')) s) \<and>
    (\<exists>g. filter (\<lambda>x. cg_identity_hash x = configGenerationIdentityHash sha ss) (generations (db w')) = [g] \<and>
       cg_id g = gen_ID gen \<and> (act \<longrightarrow> active_generation (db w') = Some g \<and> gen_Active gen))"
proof -
  obtain g where g: "g \<in> set (generations (db w'))" "cg_identity_hash g = configGenerationIdentityHash sha ss"
    "gen = (configGenerationFromRow g)\<lparr>gen_Schemas := map schema_ref (joined_schemas (db w') (cg_id g))\<rparr>"
    "\<forall>s \<in> set ss. ensured f64 (schemas (db w')) s" "act \<Longrightarrow> active_generation (db w') = Some g"
    "reachable (db w')" "config_ok (db w')"
    by (rule register_row [OF assms]) blast
  have "filter (\<lambda>x. cg_identity_hash x = configGenerationIdentityHash sha ss) (generations (db w')) = [g]"
    using generations_okD(2) [of "generations (db w')" "generation_seq (db w')"] g filter_unique_key [of cg_identity_hash "generations (db w')" g]
    by (simp add: config_ok_def del: distinct_map)
  moreover have "act \<Longrightarrow> cg_active g" using g(5) by (auto simp: active_generation_def find_Some_iff)
  moreover have "config_kept (db w) (db w')"
    using config_kept_steps [OF RegisterConfigGeneration_steps [OF assms(1,3)]] reachable_ok [OF assms(2)] by simp
  ultimately show ?thesis using g by (simp add: configGenerationFromRow_def)
qed

lemma reachable_gap: "reachable d \<Longrightarrow> generation_seq d \<le> n \<Longrightarrow> reachable (d\<lparr>generation_seq := n\<rparr>)"
  using reachable_step store_step.sequence_gap by blast

text \<open>Schemas that no generation consists of yet are registered as a new generation: it has the description
  given, refers to the schemas in the order given, and is answered with them.\<close>

theorem register_new_generation:
  assumes "tx_contract (=) tx" "reachable (db w)" "length ss \<le> 2147483648"
    and "RegisterConfigGeneration tx sha f64 desc ss act w = (Inr gen, w')"
    and "configGenerationIdentityHash sha ss \<notin> cg_identity_hash ` set (generations (db w))"
  shows "generation_seq (db w) < gen_ID gen \<and> gen_Description gen = desc \<and> (gen_Active gen \<longleftrightarrow> act) \<and>
    gen_Schemas gen = map (\<lambda>s. s\<lparr>sc_Spec := None\<rparr>) ss \<and>
    generation_refs (db w') (gen_ID gen) = generation_rows (gen_ID gen) 0 ss"
proof -
  let ?h = "configGenerationIdentityHash sha ss"
  obtain r1 w1 where 1: "register_loop 2 (UniqueViolation identityHashKey) (tx (registerConfigGeneration_tx f64 desc ss act ?h)) w = (r1, w1)"
    by fastforce
  with assms(4) obtain i where r1: "r1 = Inr i" by (cases r1) (simp_all add: RegisterConfigGeneration_def Let_def)
  then have 2: "GetConfigGeneration i w1 = (Inr gen, w')" using 1 assms(4) by (simp add: RegisterConfigGeneration_def Let_def)
  obtain v v' n where v: "generation_seq (db w) \<le> n" "db v = (db w)\<lparr>generation_seq := n\<rparr>"
    "registerConfigGeneration_tx f64 desc ss act ?h v = (Inr i, v')" "db w1 = db v'"
    using register_loop_alone [OF assms(1)] 1 r1 by blast
  have "reachable (db v)" unfolding v(2) by (rule reachable_gap [OF assms(2) v(1)])
  then have ok: "config_ok (db v)" by (rule reachable_config_ok)
  have ok': "config_ok (db v')" using registerConfigGeneration_tx_step [OF v(3)] ok by (simp add: config_step_def)
  obtain g where g: "g \<in> set (generations (db v'))" "cg_id g = i" "\<forall>s \<in> set ss. ensured f64 (schemas (db v')) s"
    "generation_refs (db v') i = generation_rows i 0 ss \<and> cg_description g = desc \<and> (cg_active g \<longleftrightarrow> act) \<and> generation_seq (db v) < i"
    by (rule registered_body [OF v(3) ok]) (use assms(5) v(2) in auto)
  obtain h where h: "row_at cg_id i (generations (db v')) = Some h"
    "gen = (configGenerationFromRow h)\<lparr>gen_Schemas := map schema_ref (joined_schemas (db v') (cg_id h))\<rparr>"
    using GetConfigGeneration_Inr [OF 2] v(4) by auto
  have "h = g" using generation_unique [OF ok', of h g] row_at_SomeD [OF h(1)] g by simp
  moreover have "map schema_ref (joined_schemas (db v') i) = map (\<lambda>s. s\<lparr>sc_Spec := None\<rparr>) ss"
    using joined_registered [OF g(3) _ assms(3)] g(4) by blast
  ultimately show ?thesis
    using g h(2) v GetConfigGeneration_db [OF 2] by (simp add: configGenerationFromRow_def)
qed

lemma sample_register:
  "\<exists>gen. RegisterConfigGeneration run_tx id id ''first'' [sample_schema] True (snapshot empty_db) = (Inr gen, registered) \<and> gen_ID gen = 1"
proof -
  have "\<exists>gen. fst (RegisterConfigGeneration run_tx id id ''first'' [sample_schema] True (snapshot empty_db)) = Inr gen \<and> gen_ID gen = 1"
    by (simp add: register_eval numeral_2_eq_2)
  then show ?thesis
    by (cases "RegisterConfigGeneration run_tx id id ''first'' [sample_schema] True (snapshot empty_db)") (simp add: registered_def)
qed

theorem register_new_generation_witness:
  "generation_refs (db registered) 1 = [\<lparr>cgs_generation_id = 1, cgs_name = ''core'', cgs_version = ''1'', cgs_ordinal = 0\<rparr>]"
proof -
  obtain gen where "RegisterConfigGeneration run_tx id id ''first'' [sample_schema] True (snapshot empty_db) = (Inr gen, registered)" "gen_ID gen = 1"
    using sample_register by blast
  from register_new_generation [OF run_tx_contract _ _ this(1)] this(2) show ?thesis
    by (simp add: reflp_def reachable_empty) (simp add: empty_db_def sample_schema_def int32_id)
qed

section \<open>Registering again\<close>

lemma identity_bytes_mset:
  assumes "mset (map (\<lambda>s. (sc_Name s, sc_Version s)) ss) = mset (map (\<lambda>s. (sc_Name s, sc_Version s)) ts)"
  shows "identity_bytes ss = identity_bytes ts"
proof -
  have part: "map schema_part xs = map (\<lambda>(n, v). ''schema:'' @ n @ ''@'' @ v) (map (\<lambda>s. (sc_Name s, sc_Version s)) xs)" for xs
    by (simp add: schema_part_def)
  have "mset (map schema_part ss) = mset (map schema_part ts)"
    unfolding part mset_map [of _ "map _ _"] assms ..
  then have "sort (map schema_part ss) = sort (map schema_part ts)"
    by (metis properties_for_sort mset_sort sorted_sort)
  then show ?thesis by (simp add: identity_bytes_def)
qed

lemma generation_kept:
  assumes "config_kept d d'" "config_ok d'" "g \<in> set (generations d)" "g' \<in> set (generations d')"
    "cg_id g' = cg_id g \<or> cg_identity_hash g' = cg_identity_hash g"
  shows "same_generation g g'" "generation_refs d' (cg_id g) = generation_refs d (cg_id g)"
proof -
  obtain k where k: "k \<in> set (generations d')" "same_generation g k" using config_keptD(2) [OF assms(1,3)] by blast
  have "g' = k"
    using assms(5) generation_unique [OF assms(2) assms(4) k(1)] hash_unique [OF assms(2) assms(4) k(1)] k(2)
    by (auto simp: same_generation_def)
  then show "same_generation g g'" using k(2) by simp
  show "generation_refs d' (cg_id g) = generation_refs d (cg_id g)"
    using config_keptD(3) [OF assms(1)] assms(3) by simp
qed

lemma map_filter_same: "(\<And>x. x \<in> set xs \<Longrightarrow> f x = g x) \<Longrightarrow> List.map_filter f xs = List.map_filter g xs"
  by (induction xs) (auto simp: List.map_filter_simps split: option.splits)

lemma joined_kept:
  assumes "config_kept d d'" "config_ok d" "g \<in> set (generations d)"
  shows "joined_schemas d' (cg_id g) = joined_schemas d (cg_id g)"
proof -
  have refs: "filter (\<lambda>r. cgs_generation_id r = cg_id g) (generation_schemas d') = filter (\<lambda>r. cgs_generation_id r = cg_id g) (generation_schemas d)"
    using config_keptD(3) [OF assms(1), of "cg_id g"] assms(3) by (simp add: generation_refs_def)
  have "row_at schema_key (cgs_ref r) (schemas d') = row_at schema_key (cgs_ref r) (schemas d)"
    if "r \<in> set (generation_schemas d)" for r
  proof -
    have "cgs_ref r \<in> schema_key ` set (schemas d)" using assms(2) that by (simp add: config_ok_def refs_ok_def)
    then obtain x where "row_at schema_key (cgs_ref r) (schemas d) = Some x"
      using row_at_None [of schema_key "cgs_ref r" "schemas d"] by (cases "row_at schema_key (cgs_ref r) (schemas d)") auto
    then show ?thesis using config_keptD(1) [OF assms(1)] by simp
  qed
  then show ?thesis unfolding joined_schemas_def refs by (intro map_filter_same) auto
qed

text \<open>C20: registering the same names and versions again, in any order, under any description and however much
  happened since, answers with the generation of the first registration; its description and creation time, and
  the schemas it refers to in their order, are still those of the first.\<close>

theorem register_again:
  assumes "step_runner tx" "reachable (db w)"
    and "RegisterConfigGeneration tx sha f64 desc ss act w = (Inr gen, w1)"
    and "store_step\<^sup>*\<^sup>* (db w1) (db w2)"
    and "mset (map (\<lambda>s. (sc_Name s, sc_Version s)) ts) = mset (map (\<lambda>s. (sc_Name s, sc_Version s)) ss)"
    and "step_runner tx2" "RegisterConfigGeneration tx2 sha f64 desc2 ts act2 w2 = (Inr gen2, w3)"
  shows "gen_ID gen2 = gen_ID gen \<and> gen_Description gen2 = gen_Description gen \<and> gen_Created gen2 = gen_Created gen \<and>
    gen_Schemas gen2 = gen_Schemas gen"
proof -
  let ?h = "configGenerationIdentityHash sha ss"
  have h: "configGenerationIdentityHash sha ts = ?h"
    using identity_bytes_mset [OF assms(5)] by (simp add: configGenerationIdentityHash_def)
  obtain g where g: "g \<in> set (generations (db w1))" "cg_identity_hash g = ?h"
    "gen = (configGenerationFromRow g)\<lparr>gen_Schemas := map schema_ref (joined_schemas (db w1) (cg_id g))\<rparr>"
    "reachable (db w1)" "config_ok (db w1)"
    by (rule register_row [OF assms(1-3)]) blast
  have r2: "reachable (db w2)" by (rule reachable_steps [OF g(4) assms(4)])
  obtain k where k: "k \<in> set (generations (db w3))" "cg_identity_hash k = ?h"
    "gen2 = (configGenerationFromRow k)\<lparr>gen_Schemas := map schema_ref (joined_schemas (db w3) (cg_id k))\<rparr>"
    "config_ok (db w3)"
    by (rule register_row [OF assms(6) r2 assms(7)]) (use h in auto)
  have "store_step\<^sup>*\<^sup>* (db w1) (db w3)"
    using assms(4) RegisterConfigGeneration_steps [OF assms(6,7)] by (rule rtranclp_trans)
  then have kept: "config_kept (db w1) (db w3)" using config_kept_steps reachable_ok [OF g(4)] by blast
  have same: "same_generation g k" by (rule generation_kept(1) [OF kept k(4) g(1) k(1)]) (simp add: g(2) k(2))
  have "joined_schemas (db w3) (cg_id g) = joined_schemas (db w1) (cg_id g)"
    by (rule joined_kept [OF kept g(5,1)])
  then show ?thesis using same g(3) k(3) by (simp add: same_generation_def configGenerationFromRow_def)
qed

theorem register_again_witness:
  "\<exists>gen2 w3. RegisterConfigGeneration run_tx id id ''second'' [sample_schema] False (snapshot (db registered)) = (Inr gen2, w3) \<and>
     gen_ID gen2 = 1 \<and> gen_Description gen2 = ''first''"
proof -
  obtain gen where 1: "RegisterConfigGeneration run_tx id id ''first'' [sample_schema] True (snapshot empty_db) = (Inr gen, registered)" "gen_ID gen = 1"
    using sample_register by blast
  have "\<exists>gen2. fst (RegisterConfigGeneration run_tx id id ''second'' [sample_schema] False (snapshot (db registered))) = Inr gen2 \<and>
      gen_Description gen2 = ''first''"
    by (simp add: registered_def) (simp add: register_eval numeral_2_eq_2 jsonEqual_def)
  then obtain gen2 w3 where 2: "RegisterConfigGeneration run_tx id id ''second'' [sample_schema] False (snapshot (db registered)) = (Inr gen2, w3)"
    "gen_Description gen2 = ''first''"
    by (metis prod.collapse)
  have "gen_ID gen2 = gen_ID gen"
    using register_again [OF run_tx_step_runner _ 1(1) _ _ run_tx_step_runner 2(1)] by (simp add: reachable_empty)
  then show ?thesis using 1 2 by (intro exI [of _ gen2] exI [of _ w3]) simp
qed

section \<open>Nothing registered ever changes\<close>

lemma GetSchema_eq:
  "version \<noteq> [] \<Longrightarrow> fst (GetSchema name version w) =
     (if fault w (pos w) then Inl DbFault
      else case row_at schema_key (name, version) (schemas (db w)) of None \<Rightarrow> Inl ErrSchemaNotFound | Some r \<Rightarrow> Inr (schema_of_row r))"
  by (simp add: GetSchema_def catchM_def q_GetSchema_eq split: option.splits)

lemma GetConfigGeneration_eq:
  "fst (GetConfigGeneration i w) =
     (if fault w (pos w) then Inl DbFault
      else case row_at cg_id i (generations (db w)) of
        None \<Rightarrow> Inl ErrGenerationNotFound
      | Some g \<Rightarrow> if fault w (Suc (pos w)) then Inl DbFault
          else Inr ((configGenerationFromRow g)\<lparr>gen_Schemas := map schema_ref (joined_schemas (db w) (cg_id g))\<rparr>))"
  by (simp add: GetConfigGeneration_def catchM_def q_GetConfigGeneration_def run_stmt_def addGenerationSchemaRefs_def
      bindM_def q_GetConfigGenerationSchemas_def configGenerationFromRow_def split: option.splits)

text \<open>A schema read by name and version, and the schemas, description and creation time of a generation, are read alike from
  a database that has kept them; only a database error can keep a read from it.\<close>

lemma reads_kept:
  assumes kept: "config_kept (db w) (db w2)" and ok: "config_ok (db w)" "config_ok (db w2)"
  shows "(version \<noteq> [] \<and> fst (GetSchema name version w) = Inr s \<longrightarrow> fst (GetSchema name version w2) \<in> {Inr s, Inl DbFault}) \<and>
    (fst (GetConfigGeneration i w) = Inr gen \<longrightarrow>
      fst (GetConfigGeneration i w2) = Inl DbFault \<or>
      (\<exists>gen2. fst (GetConfigGeneration i w2) = Inr gen2 \<and> gen_Schemas gen2 = gen_Schemas gen \<and>
        gen_Description gen2 = gen_Description gen \<and> gen_Created gen2 = gen_Created gen))"
proof -
  have 1: "fst (GetSchema name version w2) \<in> {Inr s, Inl DbFault}"
    if "version \<noteq> []" "fst (GetSchema name version w) = Inr s"
    using that config_keptD(1) [OF kept, of "(name, version)"]
    by (simp add: GetSchema_eq split: if_splits option.splits)
  have 2: "fst (GetConfigGeneration i w2) = Inl DbFault \<or>
      (\<exists>gen2. fst (GetConfigGeneration i w2) = Inr gen2 \<and> gen_Schemas gen2 = gen_Schemas gen \<and>
        gen_Description gen2 = gen_Description gen \<and> gen_Created gen2 = gen_Created gen)"
    if "fst (GetConfigGeneration i w) = Inr gen"
  proof -
    from that obtain g where g: "row_at cg_id i (generations (db w)) = Some g"
      "gen = (configGenerationFromRow g)\<lparr>gen_Schemas := map schema_ref (joined_schemas (db w) (cg_id g))\<rparr>"
      by (auto simp: GetConfigGeneration_eq split: if_splits option.splits)
    have gin: "g \<in> set (generations (db w))" "cg_id g = i" using row_at_SomeD [OF g(1)] by auto
    have "i \<in> cg_id ` set (generations (db w2))" using config_keptD(5) [OF kept, of i] gin by auto
    then obtain k where k: "row_at cg_id i (generations (db w2)) = Some k"
      using row_at_None [of cg_id i "generations (db w2)"] by (cases "row_at cg_id i (generations (db w2))") auto
    have "same_generation g k"
      by (rule generation_kept(1) [OF kept ok(2) gin(1)]) (use row_at_SomeD [OF k] gin in auto)
    moreover have "joined_schemas (db w2) i = joined_schemas (db w) i" using joined_kept [OF kept ok(1) gin(1)] gin(2) by simp
    ultimately show ?thesis
      using k g(2) gin(2) by (simp add: GetConfigGeneration_eq same_generation_def configGenerationFromRow_def)
  qed
  show ?thesis using 1 2 by blast
qed

end
