(* ===== verification/Config_Service_Props.thy ===== *)
theory Config_Service_Props
  imports Config_Props Validator
begin

text \<open>
  The properties of the Configuration service and of the validator it feeds: what identifies a set of
  schemas, what a request to register must be and that a generation it registers can be loaded, the
  wait for a change, and the validator's reloads and deprecations.
\<close>

section \<open>The identity of a set of schemas\<close>

abbreviation config_key :: "config_schema \<Rightarrow> string \<times> string" where
  "config_key s \<equiv> (sc_Name s, sc_Version s)"

lemma split_at_first:
  "c \<notin> set xs \<Longrightarrow> c \<notin> set xs' \<Longrightarrow> xs @ c # ys = xs' @ c # ys' \<longleftrightarrow> xs = xs' \<and> ys = ys'"
proof (induction xs arbitrary: xs')
  case Nil
  then show ?case by (cases xs') auto
next
  case (Cons x xs)
  then show ?case by (cases xs') auto
qed

lemma terminated_inj:
  "\<forall>p \<in> set ps. z \<notin> set p \<Longrightarrow> \<forall>p \<in> set qs. z \<notin> set p \<Longrightarrow>
     concat (map (\<lambda>p. p @ [z]) ps) = concat (map (\<lambda>p. p @ [z]) qs) \<longleftrightarrow> ps = qs"
proof (induction ps arbitrary: qs)
  case Nil
  then show ?case by (cases qs) auto
next
  case (Cons p ps)
  show ?case
  proof (cases qs)
    case (Cons q qs')
    then show ?thesis using Cons.prems Cons.IH [of qs'] split_at_first [of z p q] by auto
  qed simp
qed

definition plain_schema :: "config_schema \<Rightarrow> bool" where
  "plain_schema s \<longleftrightarrow> CHR ''@'' \<notin> set (sc_Name s) \<and> char_of (0 :: nat) \<notin> set (sc_Name s) \<union> set (sc_Version s)"

lemma schema_part_inj:
  "plain_schema s \<Longrightarrow> plain_schema t \<Longrightarrow> schema_part s = schema_part t \<longleftrightarrow> config_key s = config_key t"
  using split_at_first [of "CHR ''@''" "sc_Name s" "sc_Name t"] by (simp add: plain_schema_def schema_part_def)

lemma schema_part_no_nul: "plain_schema s \<Longrightarrow> char_of (0 :: nat) \<notin> set (schema_part s)"
  by (auto simp: plain_schema_def schema_part_def char_of_def)

lemma mset_image_inj:
  assumes "\<And>x y. x \<in> set xs \<union> set ys \<Longrightarrow> y \<in> set xs \<union> set ys \<Longrightarrow> f x = f y \<Longrightarrow> g x = g y"
    and "mset (map f xs) = mset (map f ys)"
  shows "mset (map g xs) = mset (map g ys)"
  using assms
proof (induction xs arbitrary: ys)
  case (Cons x xs)
  have "f x \<in># mset (map f ys)" using Cons.prems(2) by (metis list.set_intros(1) list.simps(9) set_mset_mset)
  then obtain y where y: "y \<in> set ys" "f y = f x" by auto
  then obtain as bs where ys: "ys = as @ y # bs" by (auto dest: split_list)
  have "mset (map f xs) = mset (map f (as @ bs))" using Cons.prems(2) y(2) ys by simp
  then have "mset (map g xs) = mset (map g (as @ bs))"
    by (rule Cons.IH [rotated]) (use Cons.prems(1) ys in auto)
  moreover have "g x = g y" using Cons.prems(1) [of x y] y by auto
  ultimately show ?case using ys by simp
qed simp

text \<open>C25: for names without the separator \<open>@\<close>, and no NUL byte anywhere, what is hashed tells sets of schemas
  apart exactly: it is the same for two lists if and only if they hold the same names and versions, in any order.\<close>

theorem identity_characterizes_schemas:
  assumes "\<forall>s \<in> set ss \<union> set ts. plain_schema s"
  shows "identity_bytes ss = identity_bytes ts \<longleftrightarrow> mset (map config_key ss) = mset (map config_key ts)"
proof
  assume "identity_bytes ss = identity_bytes ts"
  then have "sort (map schema_part ss) = sort (map schema_part ts)"
    unfolding identity_bytes_def using assms schema_part_no_nul by (subst (asm) terminated_inj) auto
  then have "mset (map schema_part ss) = mset (map schema_part ts)" by (metis mset_sort)
  then show "mset (map config_key ss) = mset (map config_key ts)"
    by (rule mset_image_inj [rotated]) (use assms schema_part_inj in blast)
qed (rule identity_bytes_mset)

theorem identity_characterizes_schemas_witness:
  "identity_bytes [sample_schema, sample_schema\<lparr>sc_Name := ''planning''\<rparr>] =
   identity_bytes [sample_schema\<lparr>sc_Name := ''planning''\<rparr>, sample_schema]"
  by (subst identity_characterizes_schemas) (simp_all add: plain_schema_def sample_schema_def char_of_def)

text \<open>With the separator in a name two different sets of schemas have one identity.\<close>

lemma identity_ambiguous:
  "identity_bytes [sample_schema\<lparr>sc_Name := ''a@b'', sc_Version := ''1''\<rparr>] =
   identity_bytes [sample_schema\<lparr>sc_Name := ''a'', sc_Version := ''b@1''\<rparr>]"
  by (simp add: identity_bytes_def schema_part_def)

section \<open>The wait for a change\<close>

definition active_id :: "db \<Rightarrow> int" where
  "active_id d = (case active_generation d of None \<Rightarrow> 0 | Some g \<Rightarrow> cg_id g)"

lemma GetActiveConfigGenerationID_eq:
  "GetActiveConfigGenerationID w =
     ((if fault w (pos w) then Inl DbFault else Inr (active_id (db w))), step_to (db w) w)"
  by (simp add: GetActiveConfigGenerationID_def catchM_def q_GetActiveConfigGeneration_def run_stmt_def active_id_def
      split: option.splits)

lemma pg_config_active_id [simp]:
  "cs_GetActiveConfigGenerationID (pg_config_store tx txi sha f64) = GetActiveConfigGenerationID"
  by (simp add: pg_config_store_def)

lemma wait_step:
  "waitForGenerationChange (Suc k) (pg_config_store tx txi sha f64) wait known secs w =
     (let w0 = step_to (db w) w in
      if fault w (pos w) then (Inl (WaitStore DbFault), w0)
      else if active_id (db w) \<noteq> known then (Inr True, w0)
      else case wait (wait_seconds secs) w0 of
          (WaitNotified, w1) \<Rightarrow> waitForGenerationChange k (pg_config_store tx txi sha f64) wait known secs w1
        | (WaitTimeout, w1) \<Rightarrow> (Inr False, w1)
        | (WaitDone err, w1) \<Rightarrow> (Inl (WaitCtx err), w1))"
  by (simp add: catchM_def GetActiveConfigGenerationID_eq Let_def)
declare waitForGenerationChange.simps(2) [simp del]

text \<open>Rounds enough for the notifications still to come.\<close>

lemma wait_enough_fuel:
  assumes "\<And>v v1. wait (wait_seconds secs) v = (WaitNotified, v1) \<Longrightarrow> pending v1 < pending v"
    and "\<And>v. pending (step_to (db v) v) \<le> pending v" and "pending w < k"
  shows "fst (waitForGenerationChange k (pg_config_store tx txi sha f64) wait known secs w) \<noteq> Inl WaitOutOfFuel"
  using assms(3)
proof (induction k arbitrary: w)
  case (Suc k)
  let ?w0 = "step_to (db w) w"
  obtain o1 w1 where o: "wait (wait_seconds secs) ?w0 = (o1, w1)" by fastforce
  show ?case
  proof (cases o1)
    case WaitNotified
    then have "pending w1 < k" using assms(1) o assms(2) [of w] Suc.prems by fastforce
    from Suc.IH [OF this] show ?thesis using o WaitNotified by (simp add: wait_step Let_def)
  qed (use o in \<open>simp_all add: wait_step Let_def\<close>)
qed simp

lemma wait_more_fuel:
  assumes "fst (waitForGenerationChange k (pg_config_store tx txi sha f64) wait known secs w) \<noteq> Inl WaitOutOfFuel"
  shows "waitForGenerationChange (k + n) (pg_config_store tx txi sha f64) wait known secs w =
    waitForGenerationChange k (pg_config_store tx txi sha f64) wait known secs w"
  using assms
proof (induction k arbitrary: w)
  case (Suc k)
  show ?case
    using Suc.prems Suc.IH
    by (simp add: wait_step Let_def split: wait_end.splits prod.splits if_splits)
qed simp

lemma wait_answers:
  assumes "waitForGenerationChange k (pg_config_store tx txi sha f64) wait known secs w = (r, w')"
  shows "(r = Inr True \<longrightarrow> active_id (db w') \<noteq> known) \<and>
    (r = Inr False \<longrightarrow> (\<exists>v. active_id (db v) = known \<and> wait (wait_seconds secs) v = (WaitTimeout, w')))"
  using assms
proof (induction k arbitrary: w)
  case (Suc k)
  let ?w0 = "step_to (db w) w"
  obtain o1 w1 where o: "wait (wait_seconds secs) ?w0 = (o1, w1)" by fastforce
  show ?case
  proof (cases "fault w (pos w) \<or> active_id (db w) \<noteq> known")
    case True
    then show ?thesis using Suc.prems by (auto simp: wait_step Let_def split: if_splits)
  next
    case False
    then show ?thesis
    proof (cases o1)
      case WaitNotified
      then show ?thesis using Suc.prems Suc.IH [of w1] o False by (simp add: wait_step Let_def)
    next
      case WaitTimeout
      then have "r = Inr False" "w' = w1" using Suc.prems o False by (simp_all add: wait_step Let_def)
      then show ?thesis using o WaitTimeout False by (auto intro: exI [of _ ?w0])
    next
      case (WaitDone err)
      then show ?thesis using Suc.prems o False by (auto simp: wait_step Let_def)
    qed
  qed
qed auto

text \<open>C24: the wait for another generation ends if the notifications do: as many rounds as are still to come, and
  one, are enough, and more change nothing. What it answers is right: a change only when the active generation is not
  the one the client knows, none only after a whole timeout that began with the known one active.\<close>

theorem wait_for_change_ends:
  assumes "\<And>v v1. wait (wait_seconds secs) v = (WaitNotified, v1) \<Longrightarrow> pending v1 < (pending v :: nat)"
    and "\<And>v. pending (step_to (db v) v) \<le> pending v" and "pending w < k"
    and "waitForGenerationChange k (pg_config_store tx txi sha f64) wait known secs w = (r, w')"
  shows "r \<noteq> Inl WaitOutOfFuel \<and>
    waitForGenerationChange (k + n) (pg_config_store tx txi sha f64) wait known secs w = (r, w') \<and>
    (r = Inr True \<longrightarrow> active_id (db w') \<noteq> known) \<and>
    (r = Inr False \<longrightarrow> (\<exists>v. active_id (db v) = known \<and> wait (wait_seconds secs) v = (WaitTimeout, w')))"
proof -
  have fuel: "fst (waitForGenerationChange k (pg_config_store tx txi sha f64) wait known secs w) \<noteq> Inl WaitOutOfFuel"
    by (rule wait_enough_fuel [where pending = pending]) (use assms in auto)
  show ?thesis using fuel wait_more_fuel [OF fuel, of n] wait_answers [OF assms(4)] assms(4) by simp
qed

theorem wait_for_change_ends_witness:
  "fst (waitForGenerationChange 8 (pg_config_store run_tx run_tx id id) (\<lambda>_. idle_wait) 1 5 (snapshot (db registered))) = Inr False"
proof -
  have a: "active_id (db registered) = 1"
    using one_generation by (auto simp: active_id_def active_generation_def)
  have "waitForGenerationChange 1 (pg_config_store run_tx run_tx id id) (\<lambda>_. idle_wait) 1 5 (snapshot (db registered)) =
      (Inr False, step_to (db registered) (snapshot (db registered)))"
    by (simp only: One_nat_def wait_step) (simp add: Let_def idle_wait_def a)
  from wait_for_change_ends [where pending = "\<lambda>_. 0" and n = 7, OF _ _ _ this] show ?thesis
    by (simp add: idle_wait_def)
qed

text \<open>Without a bound on the notifications no number of rounds is enough, whatever the timeout.\<close>

lemma wait_unbounded:
  assumes "\<And>v. \<exists>v1. wait (wait_seconds secs) v = (WaitNotified, v1) \<and> active_id (db v1) = active_id (db v) \<and> fault v1 = fault v"
    and "active_id (db w) = known" "fault w = (\<lambda>_. False)"
  shows "fst (waitForGenerationChange k (pg_config_store tx txi sha f64) wait known secs w) = Inl WaitOutOfFuel"
  using assms(2,3)
proof (induction k arbitrary: w)
  case (Suc k)
  obtain v1 where v1: "wait (wait_seconds secs) (step_to (db w) w) = (WaitNotified, v1)"
    "active_id (db v1) = active_id (db w)" "fault v1 = fault w"
    using assms(1) [of "step_to (db w) w"] by auto
  then show ?case using Suc.prems Suc.IH [of v1] by (simp add: wait_step Let_def)
qed simp

section \<open>What a request to register must be\<close>

text \<open>The stored form and constraint set of one schema of the request, as the loop resolves them.\<close>

definition resolved :: "('c, 'v) revisor_api \<Rightarrow> schema_row list \<Rightarrow> request_schema \<Rightarrow> config_schema \<times> 'c \<Rightarrow> bool" where
  "resolved api rows s x \<longleftrightarrow>
     rq_Name s \<noteq> [] \<and> rq_Version s \<noteq> [] \<and> schemaUsageFromRPC (rq_Usage s) = Inr (sc_Usage (fst x)) \<and>
     sc_Name (fst x) = rq_Name s \<and> sc_Version (fst x) = rq_Version s \<and> sc_Spec (fst x) = spec_of api (rq_Spec s) \<and>
     (if rq_Spec s \<noteq> [] then decode_strict api (rq_Spec s) = Some (snd x)
      else \<exists>r. row_at schema_key (rq_Name s, rq_Version s) rows = Some r \<and> decode_stored api (ds_spec r) = Some (snd x))"

lemma pg_config_GetSchema [simp]: "cs_GetSchema (pg_config_store tx txi sha f64) = GetSchema"
  by (simp add: pg_config_store_def)

lemma GetSchema_db: "GetSchema name version w = (r, w') \<Longrightarrow> db w' = db w"
  by (auto simp: GetSchema_def catchM_def q_GetSchema_eq q_GetActiveSchema_def run_stmt_def split: if_splits option.splits)

lemma resolveConstraintSet_pg:
  assumes "resolveConstraintSet (pg_config_store tx txi sha f64) api i s w = (r, w')"
  shows "db w' = db w"
    "rq_Version s \<noteq> [] \<Longrightarrow> r = Inr cs \<Longrightarrow>
      (if rq_Spec s \<noteq> [] then decode_strict api (rq_Spec s) = Some cs
       else \<exists>x. row_at schema_key (rq_Name s, rq_Version s) (schemas (db w)) = Some x \<and> decode_stored api (ds_spec x) = Some cs)"
proof -
  obtain r1 w1 where g: "GetSchema (rq_Name s) (rq_Version s) w = (r1, w1)" by fastforce
  then have d: "db w1 = db w" by (rule GetSchema_db)
  show "db w' = db w"
    using assms g d by (auto simp: resolveConstraintSet_def split: if_splits option.splits sum.splits)
  assume v: "rq_Version s \<noteq> []" "r = Inr cs"
  show "if rq_Spec s \<noteq> [] then decode_strict api (rq_Spec s) = Some cs
       else \<exists>x. row_at schema_key (rq_Name s, rq_Version s) (schemas (db w)) = Some x \<and> decode_stored api (ds_spec x) = Some cs"
  proof (cases "rq_Spec s = []")
    case False
    then show ?thesis using assms v by (simp add: resolveConstraintSet_def split: option.splits)
  next
    case True
    then obtain stored where r1: "r1 = Inr stored" "Option.bind (Option.bind (sc_Spec stored) id) (decode_stored api) = Some cs"
      using assms v g by (auto simp: resolveConstraintSet_def split: if_splits option.splits sum.splits)
    have "fst (GetSchema (rq_Name s) (rq_Version s) w) = Inr stored" using g r1 by simp
    then obtain x where "row_at schema_key (rq_Name s, rq_Version s) (schemas (db w)) = Some x" "stored = schema_of_row x"
      using v(1) by (auto simp: GetSchema_eq split: if_splits option.splits)
    then show ?thesis using True r1(2) by (simp add: schema_of_row_def)
  qed
qed

lemma check_schemas_db:
  "check_schemas (pg_config_store tx txi sha f64) api i seen ss w = (r, w') \<Longrightarrow> db w' = db w"
proof (induction ss arbitrary: i seen w r w')
  case (Cons s ss)
  obtain r1 w1 where 1: "resolveConstraintSet (pg_config_store tx txi sha f64) api i s w = (r1, w1)" by fastforce
  obtain r2 w2 where 2: "check_schemas (pg_config_store tx txi sha f64) api (Suc i) (rq_Name s # seen) ss w1 = (r2, w2)" by fastforce
  have "db w1 = db w" "db w2 = db w1" using resolveConstraintSet_pg(1) [OF 1] Cons.IH [OF 2] by auto
  then show ?case using Cons.prems 1 2
    by (cases r1; cases r2) (auto split: if_splits sum.splits)
qed simp

lemma check_schemas_resolved:
  "check_schemas (pg_config_store tx txi sha f64) api i seen ss w = (Inr checked, w') \<Longrightarrow>
     list_all2 (resolved api (schemas (db w))) ss checked \<and> distinct (map rq_Name ss) \<and> set (map rq_Name ss) \<inter> set seen = {}"
proof (induction ss arbitrary: i seen w checked)
  case (Cons s ss)
  from Cons.prems obtain usage where ok: "rq_Name s \<noteq> []" "rq_Version s \<noteq> []" "rq_Name s \<notin> set seen"
    "schemaUsageFromRPC (rq_Usage s) = Inr usage"
    by (auto split: if_splits sum.splits)
  with Cons.prems obtain cs w1 rest where
    1: "resolveConstraintSet (pg_config_store tx txi sha f64) api i s w = (Inr cs, w1)"
    and 2: "check_schemas (pg_config_store tx txi sha f64) api (Suc i) (rq_Name s # seen) ss w1 = (Inr rest, w')"
    and c: "checked = (\<lparr>sc_Name = rq_Name s, sc_Version = rq_Version s, sc_Spec = spec_of api (rq_Spec s), sc_Usage = usage\<rparr>, cs) # rest"
    by (auto simp: bindM_Inr_iff)
  have d: "db w1 = db w" by (rule resolveConstraintSet_pg(1) [OF 1])
  have "resolved api (schemas (db w)) s (hd checked)"
    using resolveConstraintSet_pg(2) [OF 1 ok(2)] ok c by (simp add: resolved_def)
  then show ?case using Cons.IH [OF 2] d c ok by auto
qed simp

lemma dry_run_None:
  "dry_run api checked order = None \<Longrightarrow> u \<in> set order \<Longrightarrow> grouped u checked \<noteq> [] \<Longrightarrow> new_validator api (grouped u checked) \<noteq> None"
  by (induction order) (auto split: if_splits)

lemma list_all2_resolvedD:
  assumes "list_all2 (resolved api rows) ss checked" "s \<in> set ss"
  shows "rq_Name s \<noteq> [] \<and> rq_Version s \<noteq> [] \<and> (\<exists>u. schemaUsageFromRPC (rq_Usage s) = Inr u)"
  using assms by (induction rule: list_all2_induct) (auto simp: resolved_def)

text \<open>C32: a request to register that lists no schema, one without a name or a version, one name twice, or a usage
  that is not one of the two, is refused and leaves the database as it was; so is every request of a caller without the
  scope to administer schemas.\<close>

theorem register_request_refused:
  assumes "ss = [] \<or> (\<exists>s \<in> set ss. rq_Name s = [] \<or> rq_Version s = [] \<or> rq_Usage s \<notin> {SCHEMA_USAGE_SETTINGS, SCHEMA_USAGE_MESSAGES}) \<or>
      \<not> distinct (map rq_Name ss) \<or> (\<exists>e. RequireAnyScope ctx [ScopeSchemaAdmin] = Inl e)"
    and "svc_RegisterConfigGeneration (pg_config_store tx txi sha f64) api order ctx desc ss act w = (r, w')"
  shows "(\<exists>e. r = Inl e) \<and> db w' = db w"
proof (cases "ss = [] \<or> (\<exists>e. RequireAnyScope ctx [ScopeSchemaAdmin] = Inl e)")
  case True
  then show ?thesis using assms(2) by (auto simp: svc_RegisterConfigGeneration_def requireAny_def split: sum.splits)
next
  case False
  obtain rc wc where c: "check_schemas (pg_config_store tx txi sha f64) api 0 [] ss w = (rc, wc)" by fastforce
  have "rc \<noteq> Inr checked" for checked
  proof
    assume "rc = Inr checked"
    with check_schemas_resolved c have all: "list_all2 (resolved api (schemas (db w))) ss checked" "distinct (map rq_Name ss)" by metis+
    have "rq_Usage s \<in> {SCHEMA_USAGE_SETTINGS, SCHEMA_USAGE_MESSAGES}" if "s \<in> set ss" for s
      using list_all2_resolvedD [OF all(1) that] by (cases "rq_Usage s") (auto simp: schemaUsageFromRPC_def)
    then show False using assms(1) False all(2) list_all2_resolvedD [OF all(1)] by blast
  qed
  then obtain e where "rc = Inl e" by (cases rc) auto
  then show ?thesis
    using False assms(2) c check_schemas_db [OF c] by (auto simp: svc_RegisterConfigGeneration_def requireAny_def split: sum.splits)
qed

definition sample_revisor :: "(json, json list) revisor_api" where
  "sample_revisor = \<lparr>parse_json = (\<lambda>t. if t = ''null'' then Some JNull else None), decode_strict = (\<lambda>t. if t = ''null'' then Some JNull else None),
     decode_stored = Some, new_validator = Some\<rparr>"

definition sample_request :: request_schema where
  "sample_request = \<lparr>rq_Name = ''core'', rq_Version = ''1'', rq_Spec = ''null'', rq_Usage = SCHEMA_USAGE_SETTINGS\<rparr>"

theorem register_request_refused_witness:
  "\<exists>e w'. svc_RegisterConfigGeneration (pg_config_store run_tx run_tx id id) sample_revisor [SchemaUsageSettings, SchemaUsageMessages]
      (caller_ctx sample_admin 5) '''' [sample_request, sample_request] True (snapshot empty_db) = (Inl e, w') \<and> db w' = empty_db"
proof -
  obtain r w' where 1: "svc_RegisterConfigGeneration (pg_config_store run_tx run_tx id id) sample_revisor [SchemaUsageSettings, SchemaUsageMessages]
      (caller_ctx sample_admin 5) '''' [sample_request, sample_request] True (snapshot empty_db) = (r, w')" by fastforce
  from register_request_refused [OF _ 1] 1 show ?thesis by auto
qed

section \<open>What is registered can be loaded\<close>

lemma svc_RegisterConfigGeneration_Inr:
  assumes "svc_RegisterConfigGeneration (pg_config_store tx txi sha f64) api order ctx desc ss act w = (Inr gen, w')"
  obtains checked wc gen0 where "list_all2 (resolved api (schemas (db w))) ss checked" "dry_run api checked order = None"
    "db wc = db w" "RegisterConfigGeneration txi sha f64 desc (map fst checked) act wc = (Inr gen0, w')" "gen = configGenerationToRPC gen0"
proof -
  obtain rc wc where c: "check_schemas (pg_config_store tx txi sha f64) api 0 [] ss w = (rc, wc)" by fastforce
  obtain checked where checked: "rc = Inr checked"
    using assms c by (cases rc) (auto simp: svc_RegisterConfigGeneration_def requireAny_def split: sum.splits if_splits)
  have dry: "dry_run api checked order = None"
    using assms c checked by (auto simp: svc_RegisterConfigGeneration_def requireAny_def split: sum.splits if_splits option.splits)
  obtain r1 w1 where 1: "RegisterConfigGeneration txi sha f64 desc (map fst checked) act wc = (r1, w1)" by fastforce
  have cs: "cs_RegisterConfigGeneration (pg_config_store tx txi sha f64) = RegisterConfigGeneration txi sha f64"
    by (simp add: pg_config_store_def)
  obtain gen0 where "r1 = Inr gen0" "w1 = w'" "gen = configGenerationToRPC gen0"
    using assms c checked dry 1
    by (cases r1) (auto simp: svc_RegisterConfigGeneration_def requireAny_def cs split: sum.splits if_splits)
  with 1 show thesis using that [of checked wc gen0] check_schemas_resolved c checked dry check_schemas_db [OF c] by metis
qed

lemma map_filter_fst: "map fst (List.map_filter (\<lambda>r. map_option (Pair r) (f r)) xs) = filter (\<lambda>r. f r \<noteq> None) xs"
  by (induction xs) (auto simp: List.map_filter_simps split: option.splits)

lemma active_schemas_one:
  assumes "config_ok d" "active_generation d = Some g"
  shows "active_schemas d = joined_schemas d (cg_id g)"
proof -
  have "sorted (map cgs_ordinal (map fst (joined_schemas d (cg_id g))))"
    unfolding joined_schemas_def map_filter_fst by (intro sorted_filter) simp
  then have "sort_key (\<lambda>x. cgs_ordinal (fst x)) (joined_schemas d (cg_id g)) = joined_schemas d (cg_id g)"
    by (intro sort_key_sorted) (simp add: comp_def)
  then show ?thesis using filter_active [OF assms(1)] assms(2) by (simp add: active_schemas_def)
qed

lemma joined_rows_all2:
  assumes "\<forall>s \<in> set ss. ensured f64 rows s"
  shows "list_all2 (\<lambda>s x. row_at schema_key (config_key s) rows = Some (snd x)) ss
    (List.map_filter (\<lambda>r. map_option (Pair r) (row_at schema_key (cgs_ref r) rows)) (generation_rows i k ss))"
  using assms
proof (induction ss arbitrary: k)
  case (Cons s ss)
  then obtain r where "row_at schema_key (config_key s) rows = Some r" by (auto simp: ensured_def)
  then show ?case using Cons.IH [of "Suc k"] Cons.prems by (simp add: List.map_filter_simps)
qed (simp add: List.map_filter_simps)

lemma joined_all2:
  assumes "\<forall>s \<in> set ss. ensured f64 (schemas d) s" "generation_refs d i = generation_rows i 0 ss" "length ss \<le> 2147483648"
  shows "list_all2 (\<lambda>s x. row_at schema_key (config_key s) (schemas d) = Some (snd x)) ss (joined_schemas d i)"
proof -
  have "sort_key cgs_ordinal (generation_rows i 0 ss) = generation_rows i 0 ss"
    using sorted_generation_rows [of 0 ss i] assms(3) by (simp add: sort_key_sorted)
  then show ?thesis using joined_rows_all2 [OF assms(1), of i 0] assms(2) by (simp add: joined_schemas_def generation_refs_def)
qed

text \<open>A stored row that decodes to the constraint set the dry run was made with.\<close>

definition loads_as :: "('c, 'v) revisor_api \<Rightarrow> config_schema \<times> 'c \<Rightarrow> schema_row \<Rightarrow> bool" where
  "loads_as api x r \<longleftrightarrow> ds_usage r = sc_Usage (fst x) \<and> decode_stored api (ds_spec r) = Some (snd x)"

lemma decode_loaded:
  "list_all2 (\<lambda>c x. loads_as api c (snd x)) checked xs \<Longrightarrow>
     decode_schemas api (map schema_full xs) = Some (map (\<lambda>x. (sc_Usage (fst x), snd x)) checked)"
  by (induction rule: list_all2_induct) (simp_all add: loads_as_def schema_full_def schema_ref_def)

lemma sets_for_grouped: "sets_for u (map (\<lambda>x. (sc_Usage (fst x), snd x)) checked) = grouped u checked"
  by (simp add: sets_for_def grouped_def filter_map comp_def)

lemma build_validators_grouped:
  assumes "\<And>u. grouped u checked \<noteq> [] \<Longrightarrow> new_validator api (grouped u checked) \<noteq> None"
  shows "build_validators api (map (\<lambda>x. (sc_Usage (fst x), snd x)) checked) =
    Some (\<lambda>u. if grouped u checked = [] then None else new_validator api (grouped u checked))"
  using assms by (simp add: build_validators_def sets_for_grouped Let_def del: not_None_eq cong: if_cong) blast

lemma resolved_loads:
  assumes "\<And>t c j j'. decode_strict api t = Some c \<Longrightarrow> parse_json api t = Some j \<Longrightarrow> go_canonical f64 j' = go_canonical f64 j \<Longrightarrow>
      decode_stored api j' = Some c"
    and "resolved api (schemas d) s x" "ensured f64 (schemas d') (fst x)" "config_kept d d'"
    and "row_at schema_key (config_key (fst x)) (schemas d') = Some r"
  shows "loads_as api x r"
proof -
  from assms(3,5) have e: "ds_usage r = sc_Usage (fst x)"
    "sc_Spec (fst x) = Some spec \<Longrightarrow> jsonEqual f64 spec (Some (ds_spec r)) = Some True" for spec
    by (auto simp: ensured_def)
  have "decode_stored api (ds_spec r) = Some (snd x)"
  proof (cases "rq_Spec s = []")
    case True
    then obtain r0 where r0: "row_at schema_key (rq_Name s, rq_Version s) (schemas d) = Some r0" "decode_stored api (ds_spec r0) = Some (snd x)"
      using assms(2) by (auto simp: resolved_def)
    have "r0 = r" using config_keptD(1) [OF assms(4) r0(1)] assms(2,5) by (simp add: resolved_def)
    then show ?thesis using r0(2) by simp
  next
    case False
    then have strict: "decode_strict api (rq_Spec s) = Some (snd x)" "sc_Spec (fst x) = Some (parse_json api (rq_Spec s))"
      using assms(2) by (simp_all add: resolved_def spec_of_def)
    then obtain j where "parse_json api (rq_Spec s) = Some j" "go_canonical f64 j = go_canonical f64 (ds_spec r)"
      using e(2) by (auto simp: jsonEqual_def split: option.splits)
    then show ?thesis using assms(1) [OF strict(1)] by simp
  qed
  with e(1) show ?thesis by (simp add: loads_as_def)
qed

lemma loadSchemas_pg:
  assumes "fault w = (\<lambda>_. False)" "decode_schemas api (map schema_full (active_schemas (db w))) = Some decoded"
    "build_validators api decoded = Some vals"
  shows "\<exists>w'. loadSchemas pg_validator_store api v w = (Inr (v\<lparr>v_validators := vals, v_activeGenerationID := active_id (db w)\<rparr>), w') \<and>
    db w' = db w \<and> fault w' = fault w"
  using assms
  by (simp add: loadSchemas_def pg_validator_store_def bindM_def GetActiveSchemas_def q_GetActiveSchemas_def run_stmt_def
      GetActiveConfigGenerationID_eq)

lemma loadDeprecations_pg:
  assumes "\<not> fault w (pos w)"
  shows "loadDeprecations pg_validator_store v w =
    (Inr (v\<lparr>v_enforcedDeprecations := (\<lambda>l. if \<exists>r \<in> set (deprecations (db w)). dep_enforced r \<and> dep_label r = l then Some True else None)\<rparr>),
     step_to (db w) w)"
  using assms
  by (simp add: loadDeprecations_def pg_validator_store_def bindM_def GetEnforcedDeprecations_def q_GetEnforcedDeprecations_def run_stmt_def)
    (rule arg_cong [where f = "\<lambda>x. v\<lparr>v_enforcedDeprecations := x\<rparr>"], force)

lemma list_all2_mono_in: "list_all2 P xs ys \<Longrightarrow> (\<And>x y. x \<in> set xs \<Longrightarrow> P x y \<Longrightarrow> Q x y) \<Longrightarrow> list_all2 Q xs ys"
  by (induction rule: list_all2_induct) auto

lemma identity_new:
  assumes "reachable (db w)" "RegisterConfigGeneration tx sha f64 desc ss act w = (Inr gen, w')" "step_runner tx"
    "generation_seq (db w) < gen_ID gen"
  shows "configGenerationIdentityHash sha ss \<notin> cg_identity_hash ` set (generations (db w))"
proof
  assume "configGenerationIdentityHash sha ss \<in> cg_identity_hash ` set (generations (db w))"
  then obtain k where k: "k \<in> set (generations (db w))" "cg_identity_hash k = configGenerationIdentityHash sha ss" by auto
  obtain g where g: "g \<in> set (generations (db w'))" "cg_identity_hash g = configGenerationIdentityHash sha ss"
    "gen = (configGenerationFromRow g)\<lparr>gen_Schemas := map schema_ref (joined_schemas (db w') (cg_id g))\<rparr>" "config_ok (db w')"
    by (rule register_row [OF assms(3,1,2)]) blast
  have "config_kept (db w) (db w')"
    using config_kept_steps [OF RegisterConfigGeneration_steps [OF assms(3,2)]] reachable_ok [OF assms(1)] by simp
  from generation_kept(1) [OF this g(4) k(1) g(1)] g(2) k(2) have "cg_id g = cg_id k" by (simp add: same_generation_def)
  moreover have "cg_id k \<le> generation_seq (db w)"
    using reachable_config_ok [OF assms(1)] k(1) by (simp add: config_ok_def generations_ok_def)
  ultimately show False using assms(4) g(3) by (simp add: configGenerationFromRow_def)
qed

text \<open>The stored generation decodes to the constraint sets the dry run was made with.\<close>

lemma registered_decodes:
  assumes "tx_contract (=) txi" "reachable (db w)" "length ss \<le> 2147483648" "set order = UNIV"
    and "\<And>t c j j'. decode_strict api t = Some c \<Longrightarrow> parse_json api t = Some j \<Longrightarrow> go_canonical f64 j' = go_canonical f64 j \<Longrightarrow>
      decode_stored api j' = Some c"
    and "svc_RegisterConfigGeneration (pg_config_store tx txi sha f64) api order ctx desc ss True w = (Inr gen, w')"
    and "generation_seq (db w) < rg_Id gen"
  obtains checked g where "list_all2 (resolved api (schemas (db w))) ss checked" "dry_run api checked order = None"
    "decode_schemas api (map schema_full (active_schemas (db w'))) = Some (map (\<lambda>x. (sc_Usage (fst x), snd x)) checked)"
    "active_generation (db w') = Some g" "cg_id g = rg_Id gen"
proof -
  obtain checked wc gen0 where c: "list_all2 (resolved api (schemas (db w))) ss checked" "dry_run api checked order = None"
    "db wc = db w" "RegisterConfigGeneration txi sha f64 desc (map fst checked) True wc = (Inr gen0, w')" "gen = configGenerationToRPC gen0"
    by (rule svc_RegisterConfigGeneration_Inr [OF assms(6)])
  note runner = alone_step_runner [OF assms(1)]
  have rc: "reachable (db wc)" and new: "generation_seq (db wc) < gen_ID gen0"
    using assms(2,7) c(3,5) by (simp_all add: configGenerationToRPC_def)
  have len: "length (map fst checked) \<le> 2147483648" using assms(3) list_all2_lengthD [OF c(1)] by simp
  have refs: "generation_refs (db w') (gen_ID gen0) = generation_rows (gen_ID gen0) 0 (map fst checked)"
    using register_new_generation [OF assms(1) rc len c(4) identity_new [OF rc c(4) runner new]] by blast
  obtain g where g: "active_generation (db w') = Some g" "cg_id g = gen_ID gen0" "config_kept (db w) (db w')" "reachable (db w')"
    "\<forall>s \<in> set (map fst checked). ensured f64 (schemas (db w')) s"
    using registration_atomic [OF runner rc c(4)] c(3) by auto
  have joined: "active_schemas (db w') = joined_schemas (db w') (gen_ID gen0)"
    using active_schemas_one [OF reachable_config_ok [OF g(4)] g(1)] g(2) by simp
  have "list_all2 (\<lambda>x y. loads_as api x (snd y)) checked (joined_schemas (db w') (gen_ID gen0))"
  proof (rule list_all2_mono_in)
    show "list_all2 (\<lambda>x y. row_at schema_key (config_key (fst x)) (schemas (db w')) = Some (snd y)) checked (joined_schemas (db w') (gen_ID gen0))"
      using joined_all2 [OF g(5) refs len] by (simp add: list_all2_map1)
    fix x y
    assume x: "x \<in> set checked" "row_at schema_key (config_key (fst x)) (schemas (db w')) = Some (snd y)"
    obtain s where "resolved api (schemas (db w)) s x" using list_all2_in_right [OF c(1) x(1)] by blast
    then show "loads_as api x (snd y)" using resolved_loads [OF assms(5) _ _ g(3) x(2)] g(5) x(1) by auto
  qed
  then have decoded: "decode_schemas api (map schema_full (active_schemas (db w'))) = Some (map (\<lambda>x. (sc_Usage (fst x), snd x)) checked)"
    unfolding joined by (rule decode_loaded)
  show thesis using that [OF c(1,2) decoded g(1)] g(2) c(5) by (simp add: configGenerationToRPC_def)
qed

lemma NewValidator_pg:
  assumes "fault w = (\<lambda>_. False)" "decode_schemas api (map schema_full (active_schemas (db w))) = Some decoded"
    "build_validators api decoded = Some vals"
  shows "\<exists>v w'. NewValidator pg_validator_store api w = (Inr v, w') \<and> v_validators v = vals \<and> ActiveGenerationID v = active_id (db w) \<and>
    db w' = db w \<and> fault w' = fault w"
proof -
  let ?v0 = "\<lparr>v_validators = Map.empty, v_activeGenerationID = 0, v_enforcedDeprecations = Map.empty\<rparr>"
  obtain w' where 1: "loadSchemas pg_validator_store api ?v0 w = (Inr (?v0\<lparr>v_validators := vals, v_activeGenerationID := active_id (db w)\<rparr>), w')"
    "fault w' = fault w" "db w' = db w" using loadSchemas_pg [OF assms, of ?v0] by blast
  then have "\<not> fault w' (pos w')" using assms(1) by simp
  from loadDeprecations_pg [OF this, of "?v0\<lparr>v_validators := vals, v_activeGenerationID := active_id (db w)\<rparr>"] 1 show ?thesis by (simp add: NewValidator_def ActiveGenerationID_def)
qed

lemma registered_builds:
  assumes "tx_contract (=) txi" "reachable (db w)" "length ss \<le> 2147483648" "set order = UNIV"
    and "\<And>t c j j'. decode_strict api t = Some c \<Longrightarrow> parse_json api t = Some j \<Longrightarrow> go_canonical f64 j' = go_canonical f64 j \<Longrightarrow>
      decode_stored api j' = Some c"
    and "svc_RegisterConfigGeneration (pg_config_store tx txi sha f64) api order ctx desc ss True w = (Inr gen, w')"
    and "generation_seq (db w) < rg_Id gen"
  obtains decoded vals where "decode_schemas api (map schema_full (active_schemas (db w'))) = Some decoded"
    "build_validators api decoded = Some vals" "active_id (db w') = rg_Id gen"
    "\<forall>u. vals u \<noteq> None \<longleftrightarrow> (\<exists>s \<in> set ss. schemaUsageFromRPC (rq_Usage s) = Inr u)"
proof -
  obtain checked g where c: "list_all2 (resolved api (schemas (db w))) ss checked" "dry_run api checked order = None"
    "decode_schemas api (map schema_full (active_schemas (db w'))) = Some (map (\<lambda>x. (sc_Usage (fst x), snd x)) checked)"
    "active_generation (db w') = Some g" "cg_id g = rg_Id gen"
    by (rule registered_decodes [OF assms])
  let ?vals = "\<lambda>u. if grouped u checked = [] then None else new_validator api (grouped u checked)"
  have built: "build_validators api (map (\<lambda>x. (sc_Usage (fst x), snd x)) checked) = Some ?vals"
    by (rule build_validators_grouped) (use dry_run_None [OF c(2)] assms(4) in auto)
  have usages: "?vals u \<noteq> None \<longleftrightarrow> (\<exists>s \<in> set ss. schemaUsageFromRPC (rq_Usage s) = Inr u)" for u
  proof -
    have "?vals u \<noteq> None \<longleftrightarrow> grouped u checked \<noteq> []" using dry_run_None [OF c(2), of u] assms(4) by auto
    also have "\<dots> \<longleftrightarrow> (\<exists>x \<in> set checked. sc_Usage (fst x) = u)" by (auto simp: grouped_def filter_empty_conv)
    also have "\<dots> \<longleftrightarrow> (\<exists>s \<in> set ss. schemaUsageFromRPC (rq_Usage s) = Inr u)"
      using c(1) by (induction rule: list_all2_induct) (auto simp: resolved_def)
    finally show ?thesis .
  qed
  show thesis using that [OF c(3) built] usages c(4,5) by (simp add: active_id_def)
qed


lemma sample_svc_register:
  "\<exists>gen w'. svc_RegisterConfigGeneration (pg_config_store run_tx run_tx id id) sample_revisor [SchemaUsageSettings, SchemaUsageMessages]
      (caller_ctx sample_admin 5) ''first'' [sample_request] True (snapshot empty_db) = (Inr gen, w') \<and> rg_Id gen = 1"
proof -
  have "\<exists>gen. fst (svc_RegisterConfigGeneration (pg_config_store run_tx run_tx id id) sample_revisor [SchemaUsageSettings, SchemaUsageMessages]
      (caller_ctx sample_admin 5) ''first'' [sample_request] True (snapshot empty_db)) = Inr gen \<and> rg_Id gen = 1"
    unfolding svc_RegisterConfigGeneration_def requireAny_def sample_admin_ctx
    by (simp add: register_eval numeral_2_eq_2 pg_config_store_def sample_request_def sample_revisor_def resolveConstraintSet_def
        schemaUsageFromRPC_def spec_of_def grouped_def configGenerationToRPC_def)
  then show ?thesis by (metis prod.collapse)
qed

lemma sample_decoders:
  assumes "decode_strict sample_revisor t = Some c" "parse_json sample_revisor t = Some j" "go_canonical id j' = go_canonical id j"
  shows "decode_stored sample_revisor j' = Some c"
  using assms by (cases j') (auto simp: sample_revisor_def split: if_splits)


section \<open>Deprecations reach the validator\<close>

lemma loadSchemas_pg_fails:
  assumes "fault w = (\<lambda>_. False)" "Option.bind (decode_schemas api (map schema_full (active_schemas (db w)))) (build_validators api) = None"
  shows "\<exists>w'. loadSchemas pg_validator_store api v w = (Inl ErrBadSchema, w') \<and> db w' = db w \<and> fault w' = fault w"
  using assms
  by (simp add: loadSchemas_def pg_validator_store_def bindM_def GetActiveSchemas_def q_GetActiveSchemas_def run_stmt_def
      GetActiveConfigGenerationID_eq)

lemma reload_pg:
  assumes "fault w = (\<lambda>_. False)" "reload pg_validator_store api v w = (r, w')"
  shows "r = Inr ((case Option.bind (decode_schemas api (map schema_full (active_schemas (db w)))) (build_validators api) of
        None \<Rightarrow> v | Some vals \<Rightarrow> v\<lparr>v_validators := vals, v_activeGenerationID := active_id (db w)\<rparr>)
      \<lparr>v_enforcedDeprecations := (\<lambda>l. if \<exists>r \<in> set (deprecations (db w)). dep_enforced r \<and> dep_label r = l then Some True else None)\<rparr>)"
proof -
  let ?v1 = "case Option.bind (decode_schemas api (map schema_full (active_schemas (db w)))) (build_validators api) of
        None \<Rightarrow> v | Some vals \<Rightarrow> v\<lparr>v_validators := vals, v_activeGenerationID := active_id (db w)\<rparr>"
  obtain w1 where 1: "keep_on_error v (loadSchemas pg_validator_store api v) w = (Inr ?v1, w1)" "db w1 = db w" "fault w1 = fault w"
  proof (cases "Option.bind (decode_schemas api (map schema_full (active_schemas (db w)))) (build_validators api)")
    case None
    then show thesis using loadSchemas_pg_fails [OF assms(1) None, of v] that by (auto simp: keep_on_error_def)
  next
    case (Some vals)
    then obtain decoded where "decode_schemas api (map schema_full (active_schemas (db w))) = Some decoded" "build_validators api decoded = Some vals"
      by (auto simp: bind_eq_Some_conv)
    then show thesis using loadSchemas_pg [OF assms(1), of api decoded vals v] that by (auto simp: keep_on_error_def)
  qed
  have "\<not> fault w1 (pos w1)" using 1(3) assms(1) by simp
  from loadDeprecations_pg [OF this, of ?v1] show ?thesis
    using 1 assms(2) by (simp add: reload_def keep_on_error_def)
qed

lemma svc_UpdateDeprecation_Inr:
  assumes "svc_UpdateDeprecation (pg_config_store tx txi sha f64) ctx (Some (label, enforced)) w = (Inr u, w')"
  shows "UpdateDeprecation tx label enforced w = (Inr u, w')"
proof -
  obtain r w1 where "UpdateDeprecation tx label enforced w = (r, w1)" by fastforce
  then show ?thesis using assms
    by (cases r) (auto simp: svc_UpdateDeprecation_def requireAny_def pg_config_store_def orInternal_def split: sum.splits if_splits)
qed

text \<open>C23: once a deprecation is updated over the API, the next reload of a validator has it: documents using the label
  are rejected exactly if it is enforced, and counted otherwise, and every other label is treated as stored. A reload
  does not fail; schemas that cannot be loaded leave the validators and the generation of before in place.\<close>

theorem deprecation_takes_effect:
  assumes "step_runner tx" "reachable (db w)"
    and "svc_UpdateDeprecation (pg_config_store tx txi sha f64) ctx (Some (label, enforced)) w = (Inr u, w1)"
    and "db w2 = db w1" "fault w2 = (\<lambda>_. False)" "reload pg_validator_store api v w2 = (r, w3)"
  shows "\<exists>v'. r = Inr v' \<and>
    (\<forall>dt. dd_Enforce (deprecationHandler v' dt label) = enforced \<and>
      dd_Counted (deprecationHandler v' dt label) = (if enforced then None else Some (label, dt))) \<and>
    (\<forall>dt l. dd_Enforce (deprecationHandler v' dt l) \<longleftrightarrow>
      (\<exists>row. row_at dep_label l (deprecations (db w1)) = Some row \<and> dep_enforced row)) \<and>
    (case Option.bind (decode_schemas api (map schema_full (active_schemas (db w1)))) (build_validators api) of
       None \<Rightarrow> v_validators v' = v_validators v \<and> ActiveGenerationID v' = ActiveGenerationID v
     | Some vals \<Rightarrow> v_validators v' = vals \<and> ActiveGenerationID v' = active_id (db w1))"
proof -
  have 1: "tx (UpdateDeprecation_tx label enforced) w = (Inr u, w1)"
    using svc_UpdateDeprecation_Inr [OF assms(3)] by (simp add: UpdateDeprecation_def)
  obtain x x' where x: "store_step\<^sup>*\<^sup>* (db w) (db x)" "UpdateDeprecation_tx label enforced x = (Inr u, x')" "db w1 = db x'"
    using runner_commit [OF assms(1) 1] by metis
  have steps: "store_step\<^sup>*\<^sup>* (db w) (db w1)" by (rule runner_steps [OF assms(1) 1]) (rule runner_bodies)+
  have ok: "config_ok (db w1)" by (rule reachable_config_ok) (rule reachable_steps [OF assms(2) steps])
  have stored: "row_at dep_label label (deprecations (db w1)) = Some \<lparr>dep_label = label, dep_enforced = enforced\<rparr>"
    by (simp add: x(3) UpdateDeprecation_tx_effect [OF x(2)] row_at_put_row)
  have row: "(\<exists>row \<in> set (deprecations (db w1)). dep_enforced row \<and> dep_label row = l) \<longleftrightarrow>
      (\<exists>row. row_at dep_label l (deprecations (db w1)) = Some row \<and> dep_enforced row)" for l
    using row_at_SomeI [of dep_label "deprecations (db w1)"] ok row_at_SomeD [of dep_label l "deprecations (db w1)"]
    by (auto simp: config_ok_def)
  show ?thesis
    using reload_pg [OF assms(5,6)] stored
    by (simp add: assms(4) row deprecationHandler_def ActiveGenerationID_def Let_def split: option.splits)
qed

theorem deprecation_takes_effect_witness:
  "\<exists>w1 v' w3. svc_UpdateDeprecation (pg_config_store run_tx run_tx id id) (caller_ctx sample_admin 5) (Some (''old'', True)) (snapshot empty_db) = (Inr (), w1) \<and>
     reload pg_validator_store sample_revisor \<lparr>v_validators = Map.empty, v_activeGenerationID = 0, v_enforcedDeprecations = Map.empty\<rparr>
       (snapshot (db w1)) = (Inr v', w3) \<and> dd_Enforce (deprecationHandler v' ''core/article'' ''old'')"
proof -
  have "fst (svc_UpdateDeprecation (pg_config_store run_tx run_tx id id) (caller_ctx sample_admin 5) (Some (''old'', True)) (snapshot empty_db)) = Inr ()"
    unfolding svc_UpdateDeprecation_def requireAny_def sample_admin_ctx
    by (simp add: pg_config_store_def orInternal_def UpdateDeprecation_def UpdateDeprecation_tx_def run_tx_def bindM_def catchM_def
        q_UpsertDeprecation_def run_stmt_def pgNotify_def q_Notify_def)
  then obtain w1 where 1: "svc_UpdateDeprecation (pg_config_store run_tx run_tx id id) (caller_ctx sample_admin 5) (Some (''old'', True)) (snapshot empty_db) = (Inr (), w1)"
    by (metis prod.collapse)
  let ?v = "\<lparr>v_validators = Map.empty, v_activeGenerationID = 0, v_enforcedDeprecations = Map.empty\<rparr>"
  obtain r w3 where 2: "reload pg_validator_store sample_revisor ?v (snapshot (db w1)) = (r, w3)" by fastforce
  obtain v' where "r = Inr v'" "dd_Enforce (deprecationHandler v' ''core/article'' ''old'')"
    using deprecation_takes_effect [OF run_tx_step_runner _ 1 _ _ 2] by (auto simp: reachable_empty snapshot_def)
  then show ?thesis using 1 2 by (intro exI [of _ w1] exI [of _ v'] exI [of _ w3]) simp
qed

end
