(* ===== verification/Settings_Props.thy ===== *)
theory Settings_Props
  imports Samples
begin

text \<open>
  The properties of the settings half of the service: who may read and write, what an update, a
  deletion and a change of properties do to the tables and to the eventlog, and what a listing holds.
\<close>

section \<open>Who may write\<close>

text \<open>C4: a document is written or deleted for another owner only by a document admin who belongs to that
  owner; everybody else is refused before the store is touched, and nobody who may is refused.\<close>

theorem document_write_authorized:
  assumes "RequireAnyScope ctx [ScopeUser] = Inr auth"
  shows "(if owner = [] \<or> owner = Subject auth \<or> HasScope auth ScopeDocAdmin \<and> owner \<in> set (getAllOwners auth)
    then \<forall>msg args w'. svc_UpdateDocument store api validate ctx (upd\<lparr>ud_Owner := owner\<rparr>) w \<noteq> (Inl (PermissionDeniedf msg args), w') \<and>
      svc_DeleteDocument store ctx (ref\<lparr>dr_Owner := owner\<rparr>) w \<noteq> (Inl (PermissionDeniedf msg args), w')
    else (\<exists>msg args. svc_UpdateDocument store api validate ctx (upd\<lparr>ud_Owner := owner\<rparr>) w = (Inl (PermissionDeniedf msg args), w)) \<and>
      (\<exists>msg args. svc_DeleteDocument store ctx (ref\<lparr>dr_Owner := owner\<rparr>) w = (Inl (PermissionDeniedf msg args), w)))"
proof (cases "owner = [] \<or> owner = Subject auth \<or> HasScope auth ScopeDocAdmin \<and> owner \<in> set (getAllOwners auth)")
  case True
  have "svc_UpdateDocument store api validate ctx (upd\<lparr>ud_Owner := owner\<rparr>) w \<noteq> (Inl (PermissionDeniedf msg args), w')" for msg args w'
    using assms
    by (auto simp: svc_UpdateDocument_def requireScope_def writeOwner_allowed [OF True] validationError_not_denied orInternal_def
        catchM_def split: option.splits sum.splits prod.splits if_splits)
  moreover have "svc_DeleteDocument store ctx (ref\<lparr>dr_Owner := owner\<rparr>) w \<noteq> (Inl (PermissionDeniedf msg args), w')" for msg args w'
    using assms
    by (auto simp: svc_DeleteDocument_def requireScope_def writeOwner_allowed [OF True] orInternal_def catchM_def
        split: sum.splits prod.splits if_splits)
  ultimately show ?thesis unfolding if_P [OF True] by blast
next
  case False
  note refused = writeOwner_refused [OF False]
  have "\<exists>msg args. svc_UpdateDocument store api validate ctx (upd\<lparr>ud_Owner := owner\<rparr>) w = (Inl (PermissionDeniedf msg args), w)"
    using assms refused [of "''only admins can update documents for other owners''" "''not allowed to update documents for %q''"]
    by (auto simp: svc_UpdateDocument_def requireScope_def)
  moreover have "\<exists>msg args. svc_DeleteDocument store ctx (ref\<lparr>dr_Owner := owner\<rparr>) w = (Inl (PermissionDeniedf msg args), w)"
    using assms refused [of "''only admins can delete documents for other owners''" "''not allowed to delete documents for %q''"]
    by (auto simp: svc_DeleteDocument_def requireScope_def)
  ultimately show ?thesis unfolding if_not_P [OF False] by blast
qed

definition sample_ref :: doc_ref where
  "sample_ref = \<lparr>dr_Owner = [], dr_Application = ''app'', dr_Type = ''ty'', dr_Key = ''k''\<rparr>"

definition sample_update :: "json update_document_request" where
  "sample_update = \<lparr>ud_Owner = [], ud_Application = ''app'', ud_Type = ''ty'', ud_Key = ''k'', ud_SchemaVersion = ''v1'',
     ud_Payload = Some (JBool True)\<rparr>"

definition sample_sort :: "('a \<Rightarrow> 'b :: linorder) \<Rightarrow> 'a sorter" where
  "sample_sort f cmp xs = sort_key f xs"

abbreviation sample_settings :: "world settings_store" where
  "sample_settings \<equiv> pg_settings_store run_tx (sample_sort (\<lambda>p. (pu_Application p, pu_Key p)))
     (sample_sort (\<lambda>p. (pd_Application p, pd_Key p)))"

theorem document_write_authorized_witness:
  "(\<forall>msg args w'. svc_DeleteDocument sample_settings sample_ctx (sample_ref\<lparr>dr_Owner := ''core://org/o''\<rparr>) (snapshot empty_db) \<noteq>
      (Inl (PermissionDeniedf msg args), w')) \<and>
   (\<exists>msg args. svc_DeleteDocument sample_settings sample_ctx (sample_ref\<lparr>dr_Owner := ''core://org/x''\<rparr>) (snapshot empty_db) =
      (Inl (PermissionDeniedf msg args), snapshot empty_db))"
  using document_write_authorized [OF sample_ctx_user, of "''core://org/o''" sample_settings sample_api accept_all sample_update "snapshot empty_db" sample_ref]
    document_write_authorized [OF sample_ctx_user, of "''core://org/x''" sample_settings sample_api accept_all sample_update "snapshot empty_db" sample_ref]
  by (simp add: sample_user_def getAllOwners_def ScopeDocAdmin_def)

section \<open>Reading, writing and deleting documents\<close>

text \<open>The world after a document has been stored.\<close>

definition written :: world where
  "written = snd (svc_UpdateDocument sample_settings sample_api accept_all sample_ctx sample_update (snapshot empty_db))"

lemmas settings_eval = requireScope_def sample_ctx_user orInternal_def catchM_def bindM_def run_tx_def
  pg_settings_store_def run_stmt_def time_now_def Let_def logAndNotify_def logAndNotifyAll_def q_ReserveSequenceValues_def
  q_InsertEventLog_def notifyEventLogUpdated_def pgNotify_def q_Notify_def in_bigint_def min_bigint_def max_bigint_def
  sequenceEventLog_def ownerToUserKind_def has_prefix_def q_UpsertUser_def document_event_def

lemma sample_write: "svc_UpdateDocument sample_settings sample_api accept_all sample_ctx sample_update (snapshot empty_db) = (Inr (), written)"
  by (simp add: written_def prod_eq_iff)
    (simp add: svc_UpdateDocument_def writeOwner_def sample_update_def sample_api_def accept_all_def UpdateDocument_def
      UpdateDocument_tx_def q_UpsertDocument_def settings_eval empty_db_def with_user_def)

lemma fault_written [simp]: "fault written n = False"
  by (simp add: written_def svc_UpdateDocument_def writeOwner_def sample_update_def sample_api_def accept_all_def UpdateDocument_def
      UpdateDocument_tx_def q_UpsertDocument_def settings_eval empty_db_def with_user_def)

lemma documents_written: "documents (db written) = [\<lparr>d_owner = ''u'', d_application = ''app'', d_type = ''ty'', d_key = ''k'',
    d_version = 1, d_schema_version = ''v1'', d_title = ''t'', d_created = 0, d_updated = 0, d_updated_by = ''u'',
    d_payload = JBool True\<rparr>]"
  by (simp add: written_def svc_UpdateDocument_def writeOwner_def sample_update_def sample_api_def accept_all_def UpdateDocument_def
      UpdateDocument_tx_def q_UpsertDocument_def settings_eval empty_db_def with_user_def put_row_def)

text \<open>C36: whoever has updated a document and reads it back gets the document that was written, under the title
  and schema version that were written, and is told that it may write it; with \<open>json\<close> and \<open>jsonb\<close> keeping
  what the encoder wrote. Other calls may have run up to the update.\<close>

theorem update_get_roundtrip:
  assumes "step_runner tx"
    and "svc_UpdateDocument (pg_settings_store tx sortu sortd) api validate ctx req w = (Inr (), w1)"
    and "\<not> fault w1 (pos w1)" "ud_Payload req = Some doc"
    and "\<And>p. doc_encode api doc = Some p \<Longrightarrow> doc_decode api (jsonb_norm p) = Some doc"
  shows "\<exists>r w2. svc_GetDocument (pg_settings_store tx sortu sortd) api ctx \<lparr>dr_Owner = ud_Owner req,
      dr_Application = ud_Application req, dr_Type = ud_Type req, dr_Key = ud_Key req\<rparr> w1 = (Inr r, w2) \<and>
    rd_Payload r = doc \<and> rd_Title r = doc_title api doc \<and> rd_SchemaVersion r = ud_SchemaVersion req \<and> \<not> rd_ReadOnly r"
  by (rule document_provider.update_get [OF pg_document_provider [OF assms(1)] assms(2-5)])

theorem update_get_roundtrip_witness:
  "\<exists>r w2. svc_GetDocument sample_settings sample_api sample_ctx sample_ref written = (Inr r, w2) \<and>
     rd_Payload r = JBool True \<and> \<not> rd_ReadOnly r"
  using update_get_roundtrip [OF run_tx_step_runner sample_write]
  by (auto simp: sample_update_def sample_api_def sample_ref_def)

text \<open>C37: a document read through the service belongs to the caller or to an org or unit of the caller, and the
  read-only flag is set exactly when the shared-write rule would refuse the caller's update.\<close>

theorem get_document_visible:
  assumes "step_runner tx" "RequireAnyScope ctx [ScopeUser] = Inr auth" "Subject auth \<noteq> []"
    and "svc_GetDocument (pg_settings_store tx sortu sortd) api ctx req w = (Inr r, w')"
  shows "rd_Owner r = (if dr_Owner req = [] then Subject auth else dr_Owner req) \<and>
    rd_Owner r \<in> set (getAllOwners auth) \<and>
    row_at doc_key (rd_Owner r, rd_Application r, rd_Type r, rd_Key r) (documents (db w)) \<noteq> None \<and>
    (rd_ReadOnly r \<longleftrightarrow> (\<exists>e. writeOwner only_admins not_allowed auth (rd_Owner r) = Inl e))"
  using document_provider.get_visible [OF pg_document_provider [OF assms(1)] assms(4,2,3), where only_admins = only_admins and not_allowed = not_allowed]
  unfolding world_docs_def by (cases "dr_Owner req = []") auto

lemma sample_read: "\<exists>r w2. svc_GetDocument sample_settings sample_api sample_ctx sample_ref written = (Inr r, w2)"
  by (simp add: svc_GetDocument_def requireScope_def sample_ctx_user sample_ref_def pg_settings_store_def catchM_def
      GetDocument_eq world_docs_def documents_written row_at_def document_of_row_def unmarshalDocument_def sample_api_def)

theorem get_document_visible_witness:
  "\<exists>r w2. svc_GetDocument sample_settings sample_api sample_ctx sample_ref written = (Inr r, w2) \<and>
     rd_Owner r = ''u'' \<and> (rd_ReadOnly r \<longleftrightarrow> (\<exists>e. writeOwner [] [] sample_user ''u'' = Inl e))"
proof -
  obtain r w2 where r: "svc_GetDocument sample_settings sample_api sample_ctx sample_ref written = (Inr r, w2)"
    using sample_read by blast
  have "rd_Owner r = ''u'' \<and> (rd_ReadOnly r \<longleftrightarrow> (\<exists>e. writeOwner [] [] sample_user ''u'' = Inl e))"
    using get_document_visible [OF run_tx_step_runner sample_ctx_user _ r, where only_admins = "[]" and not_allowed = "[]"] by (simp add: sample_ref_def)
  with r show ?thesis by blast
qed

text \<open>A deletion that succeeds leaves no document under its key, so a read by the same caller is answered
  with \<open>not_found\<close>; deleting what does not exist succeeds too.\<close>

theorem delete_then_not_found:
  assumes "step_runner tx" "svc_DeleteDocument (pg_settings_store tx sortu sortd) ctx req w = (Inr (), w1)"
    and "\<not> fault w1 (pos w1)"
  shows "\<exists>w2. svc_GetDocument (pg_settings_store tx sortu sortd) api ctx req w1 = (Inl (NotFound ''no such document''), w2)"
  by (rule document_provider.delete_get [OF pg_document_provider [OF assms(1)] assms(2,3)])

definition erased :: world where
  "erased = snd (svc_DeleteDocument sample_settings sample_ctx sample_ref written)"

lemma counter_written: "counters (db written) sequenceEventLog = Some 1" "map ev_id (eventlog (db written)) = [1]"
  by (simp_all add: written_def svc_UpdateDocument_def writeOwner_def sample_update_def sample_api_def accept_all_def UpdateDocument_def
      UpdateDocument_tx_def q_UpsertDocument_def settings_eval empty_db_def with_user_def)

lemma eventlog_written: "eventlog (db written) = [(document_event ''u'' EventTypeUpdate ''app'' ''ty'' ''k'' (Some 1) ''u'')
    \<lparr>ev_id := 1, ev_created := int 4\<rparr>]"
  by (simp add: written_def svc_UpdateDocument_def writeOwner_def sample_update_def sample_api_def accept_all_def UpdateDocument_def
      UpdateDocument_tx_def q_UpsertDocument_def settings_eval empty_db_def with_user_def)

lemma sample_erase: "svc_DeleteDocument sample_settings sample_ctx sample_ref written = (Inr (), erased)"
proof -
  have "fst (svc_DeleteDocument sample_settings sample_ctx sample_ref written) = Inr ()"
    using counter_written eventlog_written
    by (simp add: svc_DeleteDocument_def writeOwner_def sample_ref_def DeleteDocument_def DeleteDocument_tx_def
      q_DeleteDocument_def settings_eval documents_written row_at_def)
  then show ?thesis by (simp add: erased_def prod_eq_iff)
qed

lemma fault_erased [simp]: "fault erased n = False"
  using counter_written eventlog_written
  by (simp add: erased_def svc_DeleteDocument_def writeOwner_def sample_ref_def DeleteDocument_def DeleteDocument_tx_def
      q_DeleteDocument_def settings_eval documents_written row_at_def)

theorem delete_then_not_found_witness:
  "\<exists>w2. svc_GetDocument sample_settings sample_api sample_ctx sample_ref erased = (Inl (NotFound ''no such document''), w2)"
  by (rule delete_then_not_found [OF run_tx_step_runner sample_erase]) simp

section \<open>What the tables and the eventlog hold afterwards\<close>

text \<open>The entries of a database past what another one had: what a call has logged.\<close>

definition logged_since :: "db \<Rightarrow> db \<Rightarrow> event_log_entry list" where
  "logged_since d d' = map entry_of_row (drop (length (eventlog d)) (eventlog d'))"

lemma logged_since_logged: "eventlog d' = eventlog d \<Longrightarrow> logged_since d (logged clk p es d') =
    map entry_of_row (log_rows clk p (event_counter d' + 1) es)"
  by (simp add: logged_since_def)

lemma log_rows_ids: "map (ent_ID \<circ> entry_of_row) (log_rows clk p n es) = [n..n + int (length es) - 1]"
  using ids_log_rows [of clk p n es] by (simp add: comp_def entry_of_row_def)

text \<open>C18: an update stores the document under the caller's key with the next version, starting from 1, and
  appends one update entry with that version to the eventlog; every other document is untouched. The
  comparison is with a database other calls may have reached meanwhile.\<close>

theorem update_document_committed:
  assumes "step_runner tx" "UpdateDocument tx u w = (Inr (), w')"
  shows "\<exists>d. store_step\<^sup>*\<^sup>* (db w) d \<and>
    (let old = row_at doc_key (update_key u) (documents d);
         v = (case old of None \<Rightarrow> 1 | Some r \<Rightarrow> d_version r + 1)
     in (\<exists>r. row_at doc_key (update_key u) (documents (db w')) = Some r \<and> d_version r = v \<and>
           d_payload r = jsonb_norm (du_Payload u) \<and> d_title r = du_Title u \<and> d_updated_by r = du_UpdatedBy u) \<and>
        (\<forall>k. k \<noteq> update_key u \<longrightarrow> row_at doc_key k (documents (db w')) = row_at doc_key k (documents d)) \<and>
        (\<exists>e. logged_since d (db w') = [e] \<and> ent_ID e = event_counter d + 1 \<and> ent_Type e = EventTypeUpdate \<and>
           entry_target e = DocTarget (du_Owner u) (du_Application u) (du_Type u) (du_Key u) \<and> ent_Version e = v \<and>
           ent_UpdatedBy e = du_UpdatedBy u))"
proof -
  obtain v v' where v: "store_step\<^sup>*\<^sup>* (db w) (db v)" "UpdateDocument_tx u v = (Inr (), v')" "db w' = db v'"
    using runner_commit [OF assms(1) assms(2) [unfolded UpdateDocument_def]] by metis
  let ?d = "db v" and ?row = "updated_document u (sql_now v) (db v)"
  have d: "db w' = update_document_effect u (clock v (pos v)) (sql_now v) (clock v) (pos v + 4) ?d"
    by (simp add: v(3) UpdateDocument_tx_effect(1) [OF v(2)])
  have row: "row_at doc_key k (documents (db w')) = (if k = update_key u then Some ?row else row_at doc_key k (documents ?d))" for k
    by (simp add: d row_at_put_row)
  have ver: "d_version ?row = (case row_at doc_key (update_key u) (documents ?d) of None \<Rightarrow> 1 | Some r \<Rightarrow> d_version r + 1)"
    "d_payload ?row = jsonb_norm (du_Payload u)" "d_title ?row = du_Title u" "d_updated_by ?row = du_UpdatedBy u"
    by (simp_all add: updated_document_def Let_def)
  have ev: "event_counter (put_document u now ?d\<lparr>users := us\<rparr>) = event_counter ?d"
    "eventlog (put_document u now ?d\<lparr>users := us\<rparr>) = eventlog ?d" for now us
    by (simp_all add: event_counter_def put_document_def)
  have log: "logged_since ?d (db w') = [entry_of_row ((document_event (du_Owner u) EventTypeUpdate (du_Application u) (du_Type u)
      (du_Key u) (Some (d_version ?row)) (du_UpdatedBy u))\<lparr>ev_id := event_counter ?d + 1, ev_created := clock v (pos v + 4)\<rparr>)]"
    unfolding d update_document_effect_def by (subst logged_since_logged) (simp_all add: ev)
  show ?thesis
    by (rule exI [of _ ?d]) (simp add: v(1) Let_def row log ver entry_of_row_def document_event_def entry_target_def text_string_def)
qed

lemma sample_update_store: "UpdateDocument run_tx \<lparr>du_Owner = ''u'', du_Application = ''app'', du_Type = ''ty'', du_Key = ''k'',
     du_SchemaVersion = ''v1'', du_Title = ''t'', du_UpdatedBy = ''u'', du_Payload = JBool True\<rparr> (snapshot empty_db) = (Inr (), written)"
  using sample_write
  by (simp add: svc_UpdateDocument_def requireScope_def sample_ctx_user writeOwner_def sample_update_def sample_api_def
      accept_all_def pg_settings_store_def orInternal_Inr)

theorem update_document_committed_witness:
  "\<exists>r :: document_row. row_at doc_key (''u'', ''app'', ''ty'', ''k'') (documents (db written)) = Some r \<and> d_title r = ''t''"
  using update_document_committed [OF run_tx_step_runner sample_update_store] by (auto simp: Let_def)

text \<open>A deletion removes exactly the document under its key; it is logged, by the acting user, when there
  was such a document and leaves the eventlog alone when there was none.\<close>

theorem delete_document_committed:
  assumes "step_runner tx" "DeleteDocument tx ow ap ty ky by w = (Inr (), w')"
  shows "\<exists>d. store_step\<^sup>*\<^sup>* (db w) d \<and>
    (\<forall>k. row_at doc_key k (documents (db w')) = (if k = (ow, ap, ty, ky) then None else row_at doc_key k (documents d))) \<and>
    (if row_at doc_key (ow, ap, ty, ky) (documents d) = None then eventlog (db w') = eventlog d
     else \<exists>e. logged_since d (db w') = [e] \<and> ent_ID e = event_counter d + 1 \<and> ent_Type e = EventTypeDelete \<and>
       entry_target e = DocTarget ow ap ty ky \<and> ent_UpdatedBy e = by)"
proof -
  obtain v v' where v: "store_step\<^sup>*\<^sup>* (db w) (db v)" "DeleteDocument_tx ow ap ty ky by v = (Inr (), v')" "db w' = db v'"
    using runner_commit [OF assms(1) assms(2) [unfolded DeleteDocument_def]] by metis
  let ?d = "db v"
  have d: "db w' = delete_document_effect ow ap ty ky by (clock v) (pos v + 2) ?d"
    by (simp add: v(3) DeleteDocument_tx_effect [OF v(2)])
  have rows: "row_at doc_key k (documents (db w')) = (if k = (ow, ap, ty, ky) then None else row_at doc_key k (documents ?d))" for k
    by (simp add: d row_at_drop_row)
  show ?thesis
  proof (cases "row_at doc_key (ow, ap, ty, ky) (documents ?d) = None")
    case True
    then have "eventlog (db w') = eventlog ?d" by (simp add: d delete_document_effect_def)
    with True v(1) rows show ?thesis by (intro exI [of _ ?d]) simp
  next
    case False
    then have "db w' = logged (clock v) (pos v + 2) [document_event ow EventTypeDelete ap ty ky None by]
        (?d\<lparr>documents := drop_row doc_key (ow, ap, ty, ky) (documents ?d)\<rparr>)"
      unfolding d delete_document_effect_def by (rule if_not_P)
    then have "logged_since ?d (db w') = [entry_of_row ((document_event ow EventTypeDelete ap ty ky None by)
        \<lparr>ev_id := event_counter ?d + 1, ev_created := clock v (pos v + 2)\<rparr>)]"
      by (simp add: logged_since_logged) (simp add: event_counter_def)
    moreover obtain r0 where "row_at doc_key (ow, ap, ty, ky) (documents ?d) = Some r0" using False by blast
    ultimately show ?thesis
      using v(1) rows by (intro exI [of _ ?d]) (simp add: entry_of_row_def document_event_def entry_target_def text_string_def)
  qed
qed

theorem delete_document_committed_witness:
  "\<exists>w'. DeleteDocument run_tx ''u'' ''app'' ''ty'' ''k'' ''u'' written = (Inr (), w') \<and>
     row_at doc_key (''u'', ''app'', ''ty'', ''k'') (documents (db w')) = None"
proof -
  have e: "DeleteDocument run_tx ''u'' ''app'' ''ty'' ''k'' ''u'' written = (Inr (), erased)"
    using sample_erase
    by (simp add: svc_DeleteDocument_def requireScope_def sample_ctx_user writeOwner_def sample_ref_def pg_settings_store_def orInternal_Inr)
  show ?thesis using delete_document_committed [OF run_tx_step_runner e] e by auto
qed

section \<open>Properties\<close>

lemma row_at_put_property:
  "row_at prop_key k (put_property ow now p rows) =
     (if k = update_target ow p then Some \<lparr>p_owner = ow, p_application = pu_Application p, p_key = pu_Key p, p_value = pu_Value p,
        p_created = (case row_at prop_key (update_target ow p) rows of None \<Rightarrow> now | Some r \<Rightarrow> p_created r), p_updated = now\<rparr>
      else row_at prop_key k rows)"
  by (simp add: put_property_def row_at_put_row)

lemma row_at_put_properties_other:
  "k \<notin> update_target ow ` set ps \<Longrightarrow> row_at prop_key k (fold (put_property ow now) ps rows) = row_at prop_key k rows"
  by (induction ps arbitrary: rows) (auto simp: row_at_put_property)

lemma row_at_put_properties:
  "distinct (map (update_target ow) ps) \<Longrightarrow> p \<in> set ps \<Longrightarrow>
     \<exists>r. row_at prop_key (update_target ow p) (fold (put_property ow now) ps rows) = Some r \<and> p_value r = pu_Value p \<and> p_updated r = now"
proof (induction ps arbitrary: rows)
  case (Cons q ps)
  show ?case
  proof (cases "p = q")
    case True
    with Cons.prems(1) have "update_target ow p \<notin> update_target ow ` set ps" by auto
    then show ?thesis using True by (simp add: row_at_put_properties_other row_at_put_property)
  next
    case False
    with Cons show ?thesis by simp
  qed
qed simp

lemma compare_updates_le: "compare_updates a b \<le> 0 \<longleftrightarrow> (pu_Application a, pu_Key a) \<le> (pu_Application b, pu_Key b)"
  by (auto simp: compare_updates_def cmp_Compare_def less_eq_prod_def)

lemma compare_deletes_le: "compare_deletes a b \<le> 0 \<longleftrightarrow> (pd_Application a, pd_Key a) \<le> (pd_Application b, pd_Key b)"
  by (auto simp: compare_deletes_def cmp_Compare_def less_eq_prod_def)

lemma sort_contract_updates:
  assumes "sort_contract sortf compare_updates"
  shows "mset (sortf compare_updates us) = mset us" "sorted (map (\<lambda>p. (pu_Application p, pu_Key p)) (sortf compare_updates us))"
  using assms by (auto simp: sort_contract_def sorted_wrt_map compare_updates_le)

lemma created_log_sorted:
  assumes "\<And>i j. i \<le> j \<Longrightarrow> clk i \<le> clk j"
  shows "sorted (map ev_created (log_rows clk p n es))"
  unfolding created_log_rows using assms by (auto simp: sorted_iff_nth_mono)

lemma map_log_rows: "(\<And>e n t. g (e\<lparr>ev_id := n, ev_created := t\<rparr>) = g e) \<Longrightarrow> map g (log_rows clk p n es) = map g es"
  by (induction es arbitrary: p n) auto

text \<open>C35: setting properties with distinct keys gives each the value asked for and leaves all others alone; one
  entry per property is logged, in the order of application and key, with times that follow the ids when
  the clock does not run backwards.\<close>

theorem set_properties_committed:
  assumes "step_runner tx" "SetProperties tx sortf ow us w = (Inr (), w')"
    and "sort_contract sortf compare_updates" "distinct (map (\<lambda>p. (pu_Application p, pu_Key p)) us)"
    and "\<And>i j. i \<le> j \<Longrightarrow> clock w i \<le> clock w j"
  shows "\<exists>d. store_step\<^sup>*\<^sup>* (db w) d \<and>
    (\<forall>p \<in> set us. \<exists>r. row_at prop_key (update_target ow p) (properties (db w')) = Some r \<and> p_value r = pu_Value p) \<and>
    (\<forall>k. k \<notin> update_target ow ` set us \<longrightarrow> row_at prop_key k (properties (db w')) = row_at prop_key k (properties d)) \<and>
    mset (map entry_target (logged_since d (db w'))) = mset (map (\<lambda>p. PropTarget ow (pu_Application p) (pu_Key p)) us) \<and>
    (\<forall>e \<in> set (logged_since d (db w')). ent_Type e = EventTypeUpdate) \<and>
    map ent_ID (logged_since d (db w')) = [event_counter d + 1..event_counter d + int (length us)] \<and>
    sorted (map (\<lambda>e. (ent_Application e, ent_Key e)) (logged_since d (db w'))) \<and>
    sorted (map ent_Created (logged_since d (db w')))"
proof -
  obtain v v' where v: "store_step\<^sup>*\<^sup>* (db w) (db v)" "SetProperties_tx sortf ow us v = (Inr (), v')" "db w' = db v'" "clock v = clock w"
    using runner_commit [OF assms(1) assms(2) [unfolded SetProperties_def]] by metis
  let ?d = "db v" and ?ps = "sortf compare_updates us"
  let ?rows = "log_rows (clock v) (pos v + length ?ps + 3) (event_counter ?d + 1) (property_events ow ?ps)"
  note ps = sort_contract_updates [OF assms(3), of us]
  have set_ps: "set ?ps = set us" using ps(1) by (metis mset_eq_setD)
  have d: "db w' = set_properties_effect ow ?ps (clock v (pos v)) (sql_now v) (clock v) (pos v + length ?ps + 3) ?d"
    by (simp add: v(3) SetProperties_tx_effect(1) [OF v(2)])
  have rows: "properties (db w') = fold (put_property ow (sql_now v)) ?ps (properties ?d)"
    by (simp add: d set_properties_effect_def)
  have "distinct (map (\<lambda>p. (pu_Application p, pu_Key p)) ?ps)"
    using assms(4) mset_eq_imp_distinct_iff [of "map (\<lambda>p. (pu_Application p, pu_Key p)) ?ps" "map (\<lambda>p. (pu_Application p, pu_Key p)) us"] ps(1)
    by (simp add: mset_map [symmetric] del: mset_map) (metis mset_map)
  then have dist: "distinct (map (update_target ow) ?ps)" by (auto simp: distinct_map inj_on_def)
  have written: "\<exists>r. row_at prop_key (update_target ow p) (properties (db w')) = Some r \<and> p_value r = pu_Value p" if "p \<in> set us" for p
    using row_at_put_properties [OF dist, of p "sql_now v" "properties ?d"] that unfolding rows set_ps by blast
  have other: "row_at prop_key k (properties (db w')) = row_at prop_key k (properties ?d)" if "k \<notin> update_target ow ` set us" for k
    unfolding rows by (rule row_at_put_properties_other) (simp add: set_ps that)
  have log: "logged_since ?d (db w') = map entry_of_row ?rows"
    unfolding d set_properties_effect_def by (subst logged_since_logged) (simp_all add: event_counter_def)
  have targets: "map (entry_target \<circ> entry_of_row) ?rows = map (\<lambda>p. PropTarget ow (pu_Application p) (pu_Key p)) ?ps"
    by (subst map_log_rows) (simp_all add: property_events_def property_event_def entry_of_row_def entry_target_def split: resource_kind.splits)
  have types: "map (ent_Type \<circ> entry_of_row) ?rows = map (\<lambda>_. EventTypeUpdate) ?ps"
    by (subst map_log_rows) (simp_all add: property_events_def property_event_def entry_of_row_def)
  have order: "map ((\<lambda>e. (ent_Application e, ent_Key e)) \<circ> entry_of_row) ?rows = map (\<lambda>p. (pu_Application p, pu_Key p)) ?ps"
    by (subst map_log_rows) (simp_all add: property_events_def property_event_def entry_of_row_def)
  have ids: "map (ent_ID \<circ> entry_of_row) ?rows = [event_counter ?d + 1..event_counter ?d + int (length us)]"
    using ps(1) size_mset [of ?ps] by (simp add: log_rows_ids property_events_def)
  have created: "sorted (map (ent_Created \<circ> entry_of_row) ?rows)"
    using created_log_sorted [of "clock v" "pos v + length ?ps + 3" "event_counter ?d + 1" "property_events ow ?ps"] assms(5) v(4)
    by (simp add: comp_def entry_of_row_def)
  have upd: "\<forall>e \<in> set (logged_since ?d (db w')). ent_Type e = EventTypeUpdate"
  proof
    fix e assume "e \<in> set (logged_since ?d (db w'))"
    then have "ent_Type e \<in> set (map (ent_Type \<circ> entry_of_row) ?rows)" by (auto simp: log)
    then show "ent_Type e = EventTypeUpdate" unfolding types by auto
  qed
  have "mset (map entry_target (logged_since ?d (db w'))) = mset (map (\<lambda>p. PropTarget ow (pu_Application p) (pu_Key p)) us)"
    using targets ps(1) by (simp add: log)
  moreover have "map ent_ID (logged_since ?d (db w')) = [event_counter ?d + 1..event_counter ?d + int (length us)]"
    using ids by (simp add: log)
  moreover have "sorted (map (\<lambda>e. (ent_Application e, ent_Key e)) (logged_since ?d (db w')))"
    using order ps(2) by (simp add: log)
  moreover have "sorted (map ent_Created (logged_since ?d (db w')))" using created by (simp add: log)
  ultimately show ?thesis using v(1) written other upd by (intro exI [of _ ?d]) blast
qed

lemma sample_sort_updates: "sort_contract (sample_sort (\<lambda>p. (pu_Application p, pu_Key p))) compare_updates"
proof -
  have "sorted_wrt (\<lambda>a b. compare_updates a b \<le> 0) (sort_key (\<lambda>p. (pu_Application p, pu_Key p)) xs)" for xs
    using sorted_sort_key [of "\<lambda>p. (pu_Application p, pu_Key p)" xs] unfolding sorted_wrt_map compare_updates_le .
  then show ?thesis by (simp add: sort_contract_def sample_sort_def)
qed

definition sample_properties :: "property_update list" where
  "sample_properties = [\<lparr>pu_Application = ''app'', pu_Key = ''b'', pu_Value = ''2''\<rparr>, \<lparr>pu_Application = ''app'', pu_Key = ''a'', pu_Value = ''1''\<rparr>]"

lemma sample_sorted: "sample_sort (\<lambda>p. (pu_Application p, pu_Key p)) compare_updates sample_properties =
    [\<lparr>pu_Application = ''app'', pu_Key = ''a'', pu_Value = ''1''\<rparr>, \<lparr>pu_Application = ''app'', pu_Key = ''b'', pu_Value = ''2''\<rparr>]"
  by (simp add: sample_sort_def sample_properties_def)

definition with_properties :: world where
  "with_properties = snd (SetProperties run_tx (sample_sort (\<lambda>p. (pu_Application p, pu_Key p))) ''u'' sample_properties (snapshot empty_db))"

lemma sample_set: "SetProperties run_tx (sample_sort (\<lambda>p. (pu_Application p, pu_Key p))) ''u'' sample_properties (snapshot empty_db) = (Inr (), with_properties)"
  by (simp add: with_properties_def prod_eq_iff)
    (simp add: SetProperties_def SetProperties_tx_def sample_sorted set_property_def q_UpsertProperty_def settings_eval empty_db_def
      with_user_def put_row_def property_event_def row_at_def)

theorem set_properties_committed_witness:
  "\<exists>w'. SetProperties run_tx (sample_sort (\<lambda>p. (pu_Application p, pu_Key p))) ''u'' sample_properties (snapshot empty_db) = (Inr (), w') \<and>
     (\<exists>r :: property_row. row_at prop_key (''u'', ''app'', ''a'') (properties (db w')) = Some r \<and> p_value r = ''1'')"
proof -
  have "\<exists>r :: property_row. row_at prop_key (''u'', ''app'', ''a'') (properties (db with_properties)) = Some r \<and> p_value r = ''1''"
    using set_properties_committed [OF run_tx_step_runner sample_set sample_sort_updates]
    by (auto simp: sample_properties_def)
  with sample_set show ?thesis by blast
qed

lemma sort_contract_mset: "sort_contract sortf cmp \<Longrightarrow> set (sortf cmp xs) = set xs"
  by (metis mset_eq_setD sort_contract_def)

lemma row_at_drop_properties:
  "row_at prop_key k (drop_properties ow ps rows) = (if k \<in> delete_key ow ` set ps then None else row_at prop_key k rows)"
  by (induction ps arbitrary: rows) (auto simp: drop_properties_def row_at_drop_row)

abbreviation delete_target :: "string \<Rightarrow> property_delete \<Rightarrow> target" where
  "delete_target ow p \<equiv> PropTarget ow (pd_Application p) (pd_Key p)"

lemma dropped_targets:
  "set (map (entry_target \<circ> entry_of_row) (dropped_events ow ps rows)) =
     delete_target ow ` {p \<in> set ps. row_at prop_key (delete_key ow p) rows \<noteq> None} \<and>
   distinct (map (entry_target \<circ> entry_of_row) (dropped_events ow ps rows)) \<and>
   (\<forall>e \<in> set (dropped_events ow ps rows). ev_type e = EventTypeDelete)"
proof (induction ps arbitrary: rows)
  case (Cons p ps)
  have target: "entry_target (entry_of_row (property_event ow EventTypeDelete (pd_Application p) (pd_Key p))) = delete_target ow p"
    by (simp add: entry_target_def entry_of_row_def property_event_def)
  show ?case
  proof (cases "row_at prop_key (delete_key ow p) rows = None")
    case True
    then show ?thesis using Cons [of rows] by (auto simp: drop_row_None)
  next
    case False
    let ?rest = "drop_row prop_key (delete_key ow p) rows"
    have "{q \<in> set ps. row_at prop_key (delete_key ow q) ?rest \<noteq> None} =
        {q \<in> set ps. row_at prop_key (delete_key ow q) rows \<noteq> None \<and> delete_key ow q \<noteq> delete_key ow p}"
      by (auto simp: row_at_drop_row)
    with Cons [of ?rest] False target show ?thesis
      by (auto simp: property_event_def)
  qed
qed simp

text \<open>Deleting properties removes exactly the ones named; the eventlog gets one delete entry for each that
  existed, and none for the others or for a key that is named twice.\<close>

theorem delete_properties_committed:
  assumes "step_runner tx" "DeleteProperties tx sortf ow ds w = (Inr (), w')" "sort_contract sortf compare_deletes"
  shows "\<exists>d. store_step\<^sup>*\<^sup>* (db w) d \<and>
    (\<forall>k. row_at prop_key k (properties (db w')) =
       (if k \<in> delete_key ow ` set ds then None else row_at prop_key k (properties d))) \<and>
    set (map entry_target (logged_since d (db w'))) =
      delete_target ow ` {p \<in> set ds. row_at prop_key (delete_key ow p) (properties d) \<noteq> None} \<and>
    distinct (map entry_target (logged_since d (db w'))) \<and>
    (\<forall>e \<in> set (logged_since d (db w')). ent_Type e = EventTypeDelete)"
proof -
  obtain v v' where v: "store_step\<^sup>*\<^sup>* (db w) (db v)" "DeleteProperties_tx sortf ow ds v = (Inr (), v')" "db w' = db v'"
    using runner_commit [OF assms(1) assms(2) [unfolded DeleteProperties_def]] by metis
  let ?d = "db v" and ?ds = "sortf compare_deletes ds"
  let ?es = "dropped_events ow ?ds (properties ?d)"
  note set_ds = sort_contract_mset [OF assms(3), of ds]
  have d: "db w' = delete_properties_effect ow ?ds (clock v) (pos v + length ?ds + 1) ?d"
    by (simp add: v(3) DeleteProperties_tx_effect [OF v(2)])
  have rows: "row_at prop_key k (properties (db w')) = (if k \<in> delete_key ow ` set ds then None else row_at prop_key k (properties ?d))" for k
    by (simp add: d delete_properties_effect_def row_at_drop_properties set_ds)
  let ?rows = "log_rows (clock v) (pos v + length ?ds + 1) (event_counter ?d + 1) ?es"
  have log: "logged_since ?d (db w') = map entry_of_row ?rows"
    unfolding d delete_properties_effect_def by (subst logged_since_logged) (simp_all add: event_counter_def)
  have targets: "map entry_target (logged_since ?d (db w')) = map (entry_target \<circ> entry_of_row) ?es"
    unfolding log map_map
    by (subst map_log_rows) (simp_all add: entry_target_def entry_of_row_def split: resource_kind.splits)
  have ty: "map ent_Type (logged_since ?d (db w')) = map ev_type ?es"
    unfolding log map_map by (subst map_log_rows) (simp_all add: entry_of_row_def)
  have types: "\<forall>e \<in> set (logged_since ?d (db w')). ent_Type e = EventTypeDelete"
  proof
    fix e assume "e \<in> set (logged_since ?d (db w'))"
    then have "ent_Type e \<in> set (map ev_type ?es)" unfolding ty [symmetric] by simp
    then show "ent_Type e = EventTypeDelete" using dropped_targets [of ow ?ds "properties ?d"] by auto
  qed
  have "set (map entry_target (logged_since ?d (db w'))) =
      delete_target ow ` {p \<in> set ds. row_at prop_key (delete_key ow p) (properties ?d) \<noteq> None}"
    "distinct (map entry_target (logged_since ?d (db w')))"
    unfolding targets using dropped_targets [of ow ?ds "properties ?d"] set_ds by blast+
  with v(1) rows types show ?thesis by (intro exI [of _ ?d] conjI allI)
qed

definition sample_deletes :: "property_delete list" where
  "sample_deletes = [\<lparr>pd_Application = ''app'', pd_Key = ''x''\<rparr>]"

lemma sample_sort_deletes: "sort_contract (sample_sort (\<lambda>p. (pd_Application p, pd_Key p))) compare_deletes"
proof -
  have "sorted_wrt (\<lambda>a b. compare_deletes a b \<le> 0) (sort_key (\<lambda>p. (pd_Application p, pd_Key p)) xs)" for xs
    using sorted_sort_key [of "\<lambda>p. (pd_Application p, pd_Key p)" xs] unfolding sorted_wrt_map compare_deletes_le .
  then show ?thesis by (simp add: sort_contract_def sample_sort_def)
qed

lemma sample_delete: "DeleteProperties run_tx (sample_sort (\<lambda>p. (pd_Application p, pd_Key p))) ''u'' sample_deletes (snapshot (db with_properties)) =
    (Inr (), step_to (db with_properties) (snapshot (db with_properties)))"
proof -
  have "row_at prop_key (''u'', ''app'', ''x'') (properties (db with_properties)) = None"
    by (simp add: with_properties_def)
      (simp add: SetProperties_def SetProperties_tx_def sample_sorted set_property_def q_UpsertProperty_def settings_eval empty_db_def
        with_user_def put_row_def property_event_def row_at_def)
  then show ?thesis
    by (simp add: DeleteProperties_def DeleteProperties_tx_def sample_sort_def sample_deletes_def delete_property_def q_DeleteProperty_def
        run_tx_def bindM_def catchM_def run_stmt_def logAndNotifyAll_def)
qed

theorem delete_properties_committed_witness:
  "\<exists>w'. DeleteProperties run_tx (sample_sort (\<lambda>p. (pd_Application p, pd_Key p))) ''u'' sample_deletes (snapshot (db with_properties)) = (Inr (), w') \<and>
     row_at prop_key (''u'', ''app'', ''x'') (properties (db w')) = None"
  using delete_properties_committed [OF run_tx_step_runner sample_delete sample_sort_deletes] sample_delete
  by (auto simp: sample_deletes_def)

section \<open>Listing documents\<close>

lemma update_steps:
  assumes "step_runner tx" "UpdateDocument tx u w = (r, w')"
  shows "store_step\<^sup>*\<^sup>* (db w) (db w')"
  by (rule runner_steps [OF assms(1) assms(2) [unfolded UpdateDocument_def]]) (rule runner_bodies)+

lemma reachable_written: "reachable (db written)"
  using update_steps [OF run_tx_step_runner sample_update_store] by (simp add: reachable_def)

abbreviation rpc_key :: "'doc rpc_document \<Rightarrow> string \<times> string \<times> string \<times> string" where
  "rpc_key r \<equiv> (rd_Owner r, rd_Application r, rd_Type r, rd_Key r)"

lemma ListDocuments_Inr:
  "ListDocuments owners ap ty incl w = (Inr docs, w') \<longleftrightarrow> \<not> fault w (pos w) \<and> w' = step_to (db w) w \<and>
     docs = map (\<lambda>r. if incl then document_of_row r else (document_of_row r)\<lparr>doc_Payload := None\<rparr>)
       (list_documents (collate w) owners (text_or_null ap) (text_or_null ty) (documents (db w)))"
  by (auto simp: ListDocuments_def bindM_Inr_iff q_ListDocumentsFull_def q_ListDocumentsMetadata_def run_stmt_Inr_iff)

text \<open>Listing documents gives each document of the caller and of the caller's org and units that matches
  the filters, once, and no other; whether payloads are asked for or not changes only the payloads.\<close>

theorem list_documents_exact:
  assumes "reachable (db w)" "RequireAnyScope ctx [ScopeUser] = Inr auth"
    and "svc_ListDocuments (pg_settings_store tx sortu sortd) api ctx ap ty incl w = (Inr res, w')"
  shows "distinct (map rpc_key res) \<and> db w' = db w \<and>
    set (map rpc_key res) = doc_key ` {r \<in> set (documents (db w)). d_owner r \<in> set (getAllOwners auth) \<and>
      (ap = [] \<or> d_application r = ap) \<and> (ty = [] \<or> d_type r = ty)} \<and>
    (\<forall>r \<in> set res. (rd_ReadOnly r \<longleftrightarrow> rd_Owner r \<noteq> Subject auth \<and> \<not> HasScope auth ScopeDocAdmin) \<and>
      (\<not> incl \<longrightarrow> rd_Payload r = doc_blank api))"
proof -
  let ?rows = "list_documents (collate w) (getAllOwners auth) (text_or_null ap) (text_or_null ty) (documents (db w))"
  let ?conv = "\<lambda>d. map_option (document_to_rpc auth d) (if incl \<and> doc_Payload d \<noteq> None then unmarshalDocument api (doc_Payload d)
            else Some (doc_blank api))"
  from assms(2,3) obtain docs w1 where l: "ListDocuments (getAllOwners auth) ap ty incl w = (Inr docs, w1)"
    and c: "(case those (map ?conv docs) of None \<Rightarrow> failM (Internalf ''unmarshal payload'') | Some res \<Rightarrow> returnM res) w1 = (Inr res, w')"
    unfolding svc_ListDocuments_def requireScope_Inr bindM_Inr_iff orInternal_Inr pg_settings_store_def by auto
  from c have "those (map ?conv docs) = Some res" and w': "w' = w1"
    by (auto split: option.splits)
  then have res: "list_all2 (\<lambda>d r. ?conv d = Some r) docs res" by (simp only: those_map_Some)
  from l have docs: "docs = map (\<lambda>r. if incl then document_of_row r else (document_of_row r)\<lparr>doc_Payload := None\<rparr>) ?rows"
    and w1: "w1 = step_to (db w) w" by (simp_all add: ListDocuments_Inr)
  have keys: "map rpc_key res = map (\<lambda>d. (doc_Owner d, doc_Application d, doc_Type d, doc_Key d)) docs"
    using res(1) by (induction rule: list_all2_induct) (auto simp: document_to_rpc_def)
  also have "\<dots> = map doc_key ?rows" by (simp add: docs document_of_row_def)
  finally have rk: "map rpc_key res = map doc_key ?rows" .
  have "distinct (map doc_key (documents (db w)))"
    using reachable_ok [OF assms(1)] by (simp add: store_ok_def settings_ok_def)
  then have "distinct (map doc_key ?rows)"
    by (simp add: list_documents_def distinct_sort_key_map distinct_map_filter del: distinct_map)
  moreover have "set (map doc_key ?rows) = doc_key ` {r \<in> set (documents (db w)). d_owner r \<in> set (getAllOwners auth) \<and>
      (ap = [] \<or> d_application r = ap) \<and> (ty = [] \<or> d_type r = ty)}"
    by (auto simp: list_documents_def text_or_null_def)
  moreover have "(rd_ReadOnly r \<longleftrightarrow> rd_Owner r \<noteq> Subject auth \<and> \<not> HasScope auth ScopeDocAdmin) \<and>
      (\<not> incl \<longrightarrow> rd_Payload r = doc_blank api)" if "r \<in> set res" for r
    using list_all2_in_right [OF res(1) that] by (auto simp: document_to_rpc_def split: if_splits)
  ultimately show ?thesis unfolding rk using w' w1 by simp
qed

theorem list_documents_exact_witness:
  "\<exists>res w'. svc_ListDocuments sample_settings sample_api sample_ctx [] [] False written = (Inr res, w') \<and>
     set (map rpc_key res) = {(''u'', ''app'', ''ty'', ''k'')}"
proof -
  have "ListDocuments (getAllOwners sample_user) [] [] False written =
      (Inr [(document_of_row (hd (documents (db written))))\<lparr>doc_Payload := None\<rparr>], step_to (db written) written)"
    by (simp add: ListDocuments_Inr list_documents_def text_or_null_def documents_written getAllOwners_def)
  then have "\<exists>res w'. svc_ListDocuments sample_settings sample_api sample_ctx [] [] False written = (Inr res, w')"
    by (simp add: svc_ListDocuments_def requireScope_def sample_ctx_user pg_settings_store_def orInternal_def)
  then obtain res w' where r: "svc_ListDocuments sample_settings sample_api sample_ctx [] [] False written = (Inr res, w')" by blast
  have "{r \<in> set (documents (db written)). d_owner r \<in> set (getAllOwners sample_user)} = set (documents (db written))"
    by (auto simp: documents_written getAllOwners_def)
  with list_documents_exact [OF reachable_written sample_ctx_user r] r show ?thesis
    by (simp add: documents_written)
qed

end
