(* ===== verification/Eventlog_Props.thy ===== *)
theory Eventlog_Props
  imports Settings_Props
begin

text \<open>
  The properties of the eventlog: it is numbered without gaps, it is a complete history of the
  documents and properties, and a client that polls it, to the end or while the store changes,
  misses nothing.
\<close>

section \<open>The eventlog as a history\<close>

lemma eventlog_gapless_ids:
  assumes "reachable d"
  shows "map ev_id (eventlog d) = [1..int (length (eventlog d))] \<and> event_counter d = int (length (eventlog d)) \<and>
    counters d sequenceEventLog = Some (event_counter d)"
proof -
  have ok: "eventlog_ok d" using reachable_ok [OF assms] by (simp add: store_ok_def settings_ok_def)
  have c: "map ev_id (eventlog d) = [1..event_counter d]" "0 \<le> event_counter d" "counters d sequenceEventLog = Some (event_counter d)"
    using eventlog_ok_counter [OF ok] by auto
  have "length (eventlog d) = length [1..event_counter d]" using c(1) by (metis length_map)
  then have "event_counter d = int (length (eventlog d))" using c(2) by simp
  with c show ?thesis by simp
qed

text \<open>In every reachable database the eventlog is numbered 1, 2, 3 and so on without a gap, in insertion
  order, and its counter is its length.\<close>

theorem eventlog_gapless:
  assumes "reachable d"
  shows "map ev_id (eventlog d) = [1..int (length (eventlog d))] \<and>
    counters d sequenceEventLog = Some (int (length (eventlog d)))"
  using eventlog_gapless_ids [OF assms] by simp

theorem eventlog_gapless_witness: "map ev_id (eventlog (db written)) = [1..1]"
  using eventlog_gapless [OF reachable_written] by (simp add: eventlog_written)

text \<open>C2: the eventlog is a complete history: replayed from the start it yields exactly the documents that
  exist, each at its current version, and the properties that exist.\<close>

theorem eventlog_mirrors_settings:
  assumes "reachable d"
  shows "replay (map entry_of_row (eventlog d)) = settings_index (documents d) (properties d)"
  using reachable_ok [OF assms] by (simp add: store_ok_def settings_ok_def)

theorem eventlog_mirrors_settings_witness:
  "replay (map entry_of_row (eventlog (db written))) (DocTarget ''u'' ''app'' ''ty'' ''k'') = Some 1"
  using eventlog_mirrors_settings [OF reachable_written]
  by (simp add: settings_index_def documents_written row_at_def)

text \<open>A read of the eventlog that does not fail, for a client that reads it to the end.\<close>

definition log_fetch :: "string list \<Rightarrow> int \<Rightarrow> db \<Rightarrow> int \<Rightarrow> event_log_entry list" where
  "log_fetch owners n d a =
     (case fst (GetEventLogEntriesAfterID owners a n (snapshot d)) of Inl _ \<Rightarrow> [] | Inr es \<Rightarrow> es)"

lemma log_fetch_page:
  assumes "0 < n"
  shows "log_fetch owners n d a = map entry_of_row (page_after ev_id (eventlog_rows owners d) a n)"
proof -
  have "GetEventLogEntriesAfterID owners a n (snapshot d) =
      (Inr (map entry_of_row (page_after ev_id (eventlog_rows owners d) a n)), step_to d (snapshot d))"
    using assms by (simp add: GetEventLogEntriesAfterID_Inr)
  then show ?thesis by (simp add: log_fetch_def)
qed

lemma log_fetch_ids: "0 < n \<Longrightarrow> map ent_ID (log_fetch owners n d a) = map ev_id (page_after ev_id (eventlog_rows owners d) a n)"
  by (simp add: log_fetch_page comp_def entry_of_row_def)

lemma eventlog_ids:
  assumes "reachable d"
  shows "eventlog_ok d" "e \<in> set (eventlog d) \<Longrightarrow> 1 \<le> ev_id e" "sorted_wrt (<) (map ev_id (eventlog d))"
proof -
  note ids = conjunct1 [OF eventlog_gapless_ids [OF assms]]
  show "eventlog_ok d" using reachable_ok [OF assms] by (simp add: store_ok_def settings_ok_def)
  show "e \<in> set (eventlog d) \<Longrightarrow> 1 \<le> ev_id e"
  proof -
    assume "e \<in> set (eventlog d)"
    then have "ev_id e \<in> set (map ev_id (eventlog d))" by simp
    then show ?thesis unfolding ids by simp
  qed
  show "sorted_wrt (<) (map ev_id (eventlog d))" unfolding ids by (simp add: strict_sorted_iff)
qed

text \<open>Reading page after page from the start gives every entry of the owners, once, in order.\<close>

lemma drain_log:
  assumes "reachable d" "0 < n" "length (eventlog d) \<le> k"
  shows "drain (log_fetch owners n d) ent_ID k 0 = map entry_of_row (eventlog_rows owners d)"
proof -
  let ?rows = "eventlog_rows owners d"
  let ?all = "drain (\<lambda>a. page_after ev_id ?rows a n) ev_id k 0"
  note ok = eventlog_ids [OF assms(1)]
  have "{m \<in> set ?rows. 0 < ev_id m} = set ?rows" using ok(2) by (force simp: eventlog_rows_def)
  moreover have "card (ev_id ` set ?rows) \<le> k"
  proof -
    have "card (ev_id ` set ?rows) \<le> card (set ?rows)" by (rule card_image_le) simp
    also have "\<dots> \<le> length ?rows" by (rule card_length)
    also have "\<dots> \<le> length (eventlog d)" unfolding eventlog_rows_def by (rule length_filter_le)
    also note assms(3)
    finally show ?thesis .
  qed
  ultimately have "set ?all = set ?rows"
    using eventlog_stream.drain_complete [OF ok(1) assms(2), of owners 0 k] by simp
  moreover have "sorted_wrt (<) (map ev_id ?all)" by (rule eventlog_stream.drain_sorted [OF ok(1)])
  moreover have "sorted_wrt (<) (map ev_id ?rows)"
    using ok(3) sorted_wrt_filter [of "\<lambda>x y. ev_id x < ev_id y" "eventlog d"] by (simp add: eventlog_rows_def sorted_wrt_map)
  ultimately have "?all = ?rows"
    using distinct_eventlog_rows [OF ok(1), of owners]
    by (intro map_sorted_distinct_set_unique [of ev_id]) (auto simp: strict_sorted_iff distinct_map)
  then show ?thesis
    using drain_map [of "log_fetch owners n d" entry_of_row "\<lambda>a. page_after ev_id ?rows a n" ent_ID ev_id k 0]
      log_fetch_page [OF assms(2)] by (simp add: entry_of_row_def)
qed

text \<open>C16: a client that reads the eventlog of its owners page by page, whatever the page size, and replays what
  it gets knows exactly which of their documents exist, at which version, and which properties.\<close>

theorem log_client_mirrors:
  assumes "reachable d" "0 < n" "length (eventlog d) \<le> k" "target_owner t \<in> set owners"
  shows "replay (drain (log_fetch owners n d) ent_ID k 0) t = settings_index (documents d) (properties d) t"
proof -
  have "map entry_of_row (eventlog_rows owners d) = filter (\<lambda>e. ent_Owner e \<in> set owners) (map entry_of_row (eventlog d))"
    by (simp add: eventlog_rows_def filter_map comp_def entry_of_row_def)
  then have "replay (drain (log_fetch owners n d) ent_ID k 0) t = replay (map entry_of_row (eventlog d)) t"
    unfolding drain_log [OF assms(1-3)] replay_def using replay_owned [OF assms(4)] by simp
  also have "\<dots> = settings_index (documents d) (properties d) t"
    using reachable_ok [OF assms(1)] by (simp add: store_ok_def settings_ok_def)
  finally show ?thesis .
qed

theorem log_client_mirrors_witness:
  "replay (drain (log_fetch [''u''] 1 (db written)) ent_ID 5 0) (DocTarget ''u'' ''app'' ''ty'' ''k'') = Some 1"
  using log_client_mirrors [OF reachable_written, of 1 5 "DocTarget ''u'' ''app'' ''ty'' ''k''" "[''u'']"]
  by (simp add: eventlog_written target_owner_def settings_index_def documents_written row_at_def)

text \<open>A client that tails the eventlog while other calls commit misses no entry of its owners and sees each
  once, in ascending order.\<close>

theorem tail_eventlog_no_skip:
  assumes "reachable d" "run_of store_step d ds" "ds \<noteq> []" "0 < n" "after \<le> event_counter d"
    and "tail_polls (log_fetch owners n) ent_ID after ds = (es, c)"
  shows "sorted_wrt (<) (map ent_ID es) \<and>
    (\<forall>x \<in> set (eventlog (last ds)). ev_owner x \<in> set owners \<and> after < ev_id x \<and> ev_id x \<le> c \<longrightarrow> ev_id x \<in> ent_ID ` set es)"
  using eventlog_tail.tail_view [OF assms(2,3) eventlog_ids(1) [OF assms(1)] assms(4,5) log_fetch_ids [OF assms(4)] assms(6)]
  by (simp add: eventlog_rows_def)

theorem tail_eventlog_no_skip_witness:
  "\<exists>es c. tail_polls (log_fetch [''u''] 5) ent_ID 0 [db written] = (es, c) \<and> c = 1 \<and> 1 \<in> ent_ID ` set es"
proof -
  have run: "run_of store_step empty_db [db written]"
    using update_steps [OF run_tx_step_runner sample_update_store] by simp
  have page: "page_after ev_id (eventlog_rows [''u''] (db written)) 0 5 = eventlog (db written)"
    by (simp add: page_after_def page_asc_def eventlog_rows_def eventlog_written document_event_def)
  have t: "tail_polls (log_fetch [''u''] 5) ent_ID 0 [db written] = (map entry_of_row (eventlog (db written)), 1)"
    by (simp add: log_fetch_page page) (simp add: eventlog_written entry_of_row_def)
  have x: "\<exists>x \<in> set (eventlog (db written)). ev_owner x \<in> set [''u''] \<and> ev_id x = 1"
    by (simp add: eventlog_written document_event_def)
  have "0 \<le> event_counter empty_db" by (simp add: event_counter_def empty_db_def sequenceEventLog_def)
  then have "\<forall>x \<in> set (eventlog (db written)). ev_owner x \<in> set [''u''] \<and> 0 < ev_id x \<and> ev_id x \<le> 1 \<longrightarrow>
      ev_id x \<in> ent_ID ` set (map entry_of_row (eventlog (db written)))"
    using tail_eventlog_no_skip [OF reachable_empty run _ _ _ t] by simp
  with x have "1 \<in> ent_ID ` set (map entry_of_row (eventlog (db written)))" by fastforce
  with t show ?thesis by blast
qed

section \<open>Polling the eventlog\<close>

text \<open>C34: a poll of the eventlog answers with entries of the caller's owners only, in ascending order, past the
  cursor and at most the clamped size; no entry of theirs lies between the cursor sent and the one returned
  except what was returned, and the cursor never goes back.\<close>

theorem poll_eventlog_page:
  assumes "reachable (db w)" "\<And>v. reachable (db v) \<Longrightarrow> reachable (db (snd (wait v)))"
    and "RequireAnyScope ctx [ScopeUser] = Inr auth" "afterID \<noteq> -1"
    and "PollEventLog (pg_settings_store tx sortu sortd) wait ctx afterID n w = (Inr resp, w')"
  shows "sorted_wrt (<) (map re_Id (pr_Items resp)) \<and> length (pr_Items resp) \<le> nat (clampSize n) \<and>
    (\<forall>e \<in> set (pr_Items resp). afterID < re_Id e \<and> re_Owner e \<in> set (getAllOwners auth)) \<and> afterID \<le> pr_LastId resp \<and>
    (\<forall>x \<in> set (eventlog (db w')). ev_owner x \<in> set (getAllOwners auth) \<and> afterID < ev_id x \<and> ev_id x \<le> pr_LastId resp \<longrightarrow>
       ev_id x \<in> re_Id ` set (pr_Items resp))"
proof -
  have good: "good_world w" "\<And>v. good_world v \<Longrightarrow> good_world (snd (wait v))"
    using assms(1,2) by (auto simp: good_world_def)
  let ?os = "getAllOwners auth"
  let ?page = "page_after ev_id (eventlog_rows ?os (db w')) afterID (clampSize n)"
  obtain reach: "reachable (db w')"
    and items: "pr_Items resp = map event_to_rpc (page_after ent_ID (world_log ?os w') afterID (clampSize n))"
    and last: "pr_LastId resp = last_id re_Id afterID (pr_Items resp)"
    using log_provider.poll_log [OF pg_log_provider good assms(5)] assms(3,4)
    unfolding good_world_def by (metis Inr_inject)
  have ok: "eventlog_ok (db w')" by (rule eventlog_ids(1) [OF reach])
  have page: "pr_Items resp = map (event_to_rpc \<circ> entry_of_row) ?page"
    unfolding items world_log_def by (subst page_after_map [of _ _ ev_id]) (simp_all add: entry_of_row_def)
  have ids: "map re_Id (pr_Items resp) = map ev_id ?page"
    by (simp add: page event_to_rpc_def entry_of_row_def)
  note answer = eventlog_stream.answered_page [OF ok clampSize_pos ids, folded last]
  have owners: "re_Owner e \<in> set ?os" if e: "e \<in> set (pr_Items resp)" for e
  proof -
    obtain x where x: "x \<in> set ?page" "e = event_to_rpc (entry_of_row x)" using e by (auto simp: page)
    then have "x \<in> set (eventlog_rows ?os (db w'))" using eventlog_stream.fetch_sound by blast
    with x(2) show ?thesis by (simp add: event_to_rpc_def entry_of_row_def eventlog_rows_def)
  qed
  have "ev_id x \<in> re_Id ` set (pr_Items resp)"
    if x: "x \<in> set (eventlog (db w'))" "ev_owner x \<in> set ?os" "afterID < ev_id x" "ev_id x \<le> pr_LastId resp" for x
    using answer(5) x by (simp add: eventlog_rows_def)
  then show ?thesis using answer(1-4) owners by blast
qed

lemma sample_poll_log: "\<exists>resp w'. PollEventLog sample_settings idle_wait sample_ctx 0 5 written = (Inr resp, w') \<and> re_Id ` set (pr_Items resp) = {1}"
proof -
  have "GetEventLogEntriesAfterID (getAllOwners sample_user) 0 5 written =
      (Inr (map entry_of_row (eventlog (db written))), step_to (db written) written)"
    by (simp add: GetEventLogEntriesAfterID_Inr page_after_def page_asc_def eventlog_rows_def eventlog_written document_event_def
        getAllOwners_def)
  then show ?thesis
    by (simp add: PollEventLog_def Let_def requireScope_def sample_ctx_user long_poll_def listLogEntries_def orInternal_def
        pg_settings_store_def clampSize_def pollMaxSize_def pollDefaultSize_def eventlog_written event_to_rpc_def entry_of_row_def)
qed

theorem poll_eventlog_page_witness:
  "\<exists>resp w'. PollEventLog sample_settings idle_wait sample_ctx 0 5 written = (Inr resp, w') \<and>
     re_Id ` set (pr_Items resp) = {1} \<and> 0 \<le> pr_LastId resp"
proof -
  obtain resp w' where r: "PollEventLog sample_settings idle_wait sample_ctx 0 5 written = (Inr resp, w')" "re_Id ` set (pr_Items resp) = {1}"
    using sample_poll_log by blast
  have "0 \<le> pr_LastId resp"
    using poll_eventlog_page [OF reachable_written _ sample_ctx_user _ r(1)] by (simp add: idle_wait_def)
  with r show ?thesis by blast
qed

end
