(* ===== verification/Messages_Props.thy ===== *)
theory Messages_Props
  imports Samples
begin

text \<open>
  The properties of the messaging half of the service, each with a witness on a concrete world:
  pushes that happen once, readers that do not see each other's state, polls that skip nothing,
  and the retention sweep.
\<close>

section \<open>Concrete worlds\<close>

definition sample_message :: inbox_message where
  "sample_message = \<lparr>ib_ID = 0, ib_UUID = ''id'', ib_Recipient = ''u'', ib_Created = 1, ib_CreatedBy = ''v'',
     ib_IsRead = False, ib_Payload = JNull\<rparr>"

text \<open>The world after pushing it.\<close>

definition pushed :: world where
  "pushed = snd (InsertInboxMessage run_tx sample_message (snapshot empty_db))"

lemma sample_push: "InsertInboxMessage run_tx sample_message (snapshot empty_db) = (Inr 1, pushed)"
proof -
  have "fst (InsertInboxMessage run_tx sample_message (snapshot empty_db)) = Inr 1"
    by (simp add: InsertInboxMessage_def existingInboxMessage_def InsertInboxMessage_tx_def sample_message_def
        q_GetInboxMessageByUUID_def q_ReserveSequenceValues_def q_InsertInboxMessage_def notifyInboxMessageUpdated_def
        pgNotify_def q_Notify_def run_stmt_def bindM_def catchM_def run_tx_def empty_db_def sequenceInbox_def row_at_def
        in_bigint_def min_bigint_def max_bigint_def)
  then show ?thesis by (simp add: pushed_def prod_eq_iff)
qed

lemma db_pushed: "db pushed = insert_inbox_effect sample_message 1 empty_db"
  by (simp add: pushed_def InsertInboxMessage_def existingInboxMessage_def InsertInboxMessage_tx_def sample_message_def
        q_GetInboxMessageByUUID_def q_ReserveSequenceValues_def q_InsertInboxMessage_def notifyInboxMessageUpdated_def
        pgNotify_def q_Notify_def run_stmt_def bindM_def catchM_def run_tx_def empty_db_def sequenceInbox_def row_at_def
        in_bigint_def min_bigint_def max_bigint_def insert_inbox_effect_def inbox_row_of_def)

lemma fault_pushed [simp]: "fault pushed n = False"
  by (simp add: pushed_def InsertInboxMessage_def existingInboxMessage_def InsertInboxMessage_tx_def sample_message_def
        q_GetInboxMessageByUUID_def q_ReserveSequenceValues_def q_InsertInboxMessage_def notifyInboxMessageUpdated_def
        pgNotify_def q_Notify_def run_stmt_def bindM_def catchM_def run_tx_def empty_db_def sequenceInbox_def row_at_def
        in_bigint_def min_bigint_def max_bigint_def)

section \<open>Pushing to the inbox\<close>

lemma inbox_push_result:
  assumes "step_runner tx" "InsertInboxMessage tx m w = (r, w')"
  obtains (found) x where "x \<in> set (inbox (db w))" "im_key x = (ib_Recipient m, ib_UUID m)"
      "im_payload x = jsonb_norm (ib_Payload m)" "r = Inr (im_id x)" "db w' = db w"
    | (inserted) v v' i where "r = Inr i" "store_step\<^sup>*\<^sup>* (db w) (db v)" "InsertInboxMessage_tx m v = (Inr i, v')" "db w' = db v'"
    | (raced) x where "x \<in> set (inbox (db w'))" "im_key x = (ib_Recipient m, ib_UUID m)"
      "im_payload x = jsonb_norm (ib_Payload m)" "r = Inr (im_id x)" "store_step\<^sup>*\<^sup>* (db w) (db w')"
    | (failed) e where "r = Inl e" "store_step\<^sup>*\<^sup>* (db w) (db w')"
proof -
  let ?look = "existingInboxMessage (ib_Payload m) (ib_Recipient m) (ib_UUID m) w"
  obtain r1 w1 where look: "?look = (r1, w1)" by fastforce
  show thesis
  proof (cases r1)
    case (Inl e)
    then show thesis
      using assms(2) look existingInboxMessage_Inl [of "ib_Payload m" "ib_Recipient m" "ib_UUID m" w e w1]
      by (intro failed [of e]) (auto simp: InsertInboxMessage_def)
  next
    case (Inr fnd)
    have w1: "db w1 = db w" using look Inr by (simp add: existingInboxMessage_Inr)
    show thesis
    proof (cases fnd)
      case (Some i)
      with look Inr obtain x where "row_at im_key (ib_Recipient m, ib_UUID m) (inbox (db w)) = Some x"
        "im_payload x = jsonb_norm (ib_Payload m)" "i = im_id x"
        by (auto simp: existingInboxMessage_Inr split: option.splits)
      then show thesis
        using assms(2) look Inr Some w1 row_at_SomeD [of im_key "(ib_Recipient m, ib_UUID m)" "inbox (db w)" x]
        by (intro found [of x]) (auto simp: InsertInboxMessage_def)
    next
      case None
      obtain r2 w2 where run: "tx (InsertInboxMessage_tx m) w1 = (r2, w2)" by fastforce
      have steps: "store_step\<^sup>*\<^sup>* (db w) (db w2)"
        using runner_steps [OF assms(1) run] runner_bodies w1 by simp
      have res: "(r, w') = (case r2 of Inl (ErrInboxMessageExists i) \<Rightarrow> (Inr i, w2) | Inl e \<Rightarrow> (Inl e, w2) | Inr i \<Rightarrow> (Inr i, w2))"
        using assms(2) look Inr None run by (auto simp: InsertInboxMessage_def split: sum.splits store_error.splits)
      show thesis
      proof (cases r2)
        case (Inr i)
        obtain v v' where "store_step\<^sup>*\<^sup>* (db w1) (db v)" "InsertInboxMessage_tx m v = (Inr i, v')" "db w2 = db v'"
          using runner_commit [OF assms(1)] run Inr by metis
        then show thesis using res Inr w1 by (intro inserted [of i v v']) simp_all
      next
        case (Inl e)
        show thesis
        proof (cases "\<exists>i. e = ErrInboxMessageExists i")
          case True
          then obtain i where e: "e = ErrInboxMessageExists i" by blast
          have "tx_contract store_step\<^sup>*\<^sup>* tx" "tx (InsertInboxMessage_tx m) w1 = (Inl e, w2)"
            using assms(1) run Inl by (simp_all add: step_runner_def)
          then show thesis
          proof (cases rule: tx_contract_Inl)
            case (body_failed d t p wc)
            from InsertInboxMessage_tx_Inl [OF body_failed(2)] e obtain x where
              "x \<in> set (inbox d)" "im_key x = (ib_Recipient m, ib_UUID m)"
              "im_payload x = jsonb_norm (ib_Payload m)" "i = im_id x" by auto
            then show thesis using res Inl e steps body_failed(3) by (intro raced [of x]) simp_all
          qed (use e in simp_all)
        next
          case False
          then have "r = Inl e" "w' = w2" using res Inl by (cases e; simp)+
          then show thesis using steps by (intro failed [of e]) simp_all
        qed
      qed
    qed
  qed
qed

lemma inbox_push_steps:
  assumes "step_runner tx" "InsertInboxMessage tx m w = (r, w')"
  shows "store_step\<^sup>*\<^sup>* (db w) (db w')"
  using assms
proof (cases rule: inbox_push_result)
  case (inserted v v' i)
  then have "store_step (db v) (db v')" by (intro store_step.push_inbox)
  with inserted show ?thesis by (simp add: rtranclp.rtrancl_into_rtrancl)
qed auto

lemma inbox_push_row:
  assumes "step_runner tx" "InsertInboxMessage tx m w = (Inr i, w')"
  shows "\<exists>x \<in> set (inbox (db w')). im_id x = i \<and> im_key x = (ib_Recipient m, ib_UUID m) \<and>
    im_payload x = jsonb_norm (ib_Payload m)"
  using assms
proof (cases rule: inbox_push_result)
  case (inserted v v' j)
  have "db w' = insert_inbox_effect m i (db v)" using InsertInboxMessage_tx_effect(1) [OF inserted(3)] inserted by simp
  then show ?thesis by (auto simp: insert_inbox_effect_def inbox_row_of_def)
qed auto

lemma inbox_key_unique:
  "inbox_ok d \<Longrightarrow> x \<in> set (inbox d) \<Longrightarrow> y \<in> set (inbox d) \<Longrightarrow> im_key x = im_key y \<Longrightarrow> x = y"
  by (auto simp: inbox_ok_def distinct_map dest: inj_onD)

lemma inbox_id_unique:
  "inbox_ok d \<Longrightarrow> x \<in> set (inbox d) \<Longrightarrow> y \<in> set (inbox d) \<Longrightarrow> im_id x = im_id y \<Longrightarrow> x = y"
  by (auto simp: inbox_ok_def distinct_map dest: inj_onD)

lemma reachable_inbox_ok: "reachable d \<Longrightarrow> inbox_ok d"
  using reachable_ok by (simp add: store_ok_def)

text \<open>C1: a push that succeeds leaves exactly one message for its recipient and payload uuid, with the
  id it answered and the payload it was given, whatever other calls do at the same time.\<close>

theorem push_inbox_once:
  assumes "step_runner tx" "reachable (db w)" "InsertInboxMessage tx m w = (Inr i, w')"
  shows "\<exists>x. filter (\<lambda>y. im_key y = (ib_Recipient m, ib_UUID m)) (inbox (db w')) = [x] \<and>
    im_id x = i \<and> im_payload x = jsonb_norm (ib_Payload m)"
proof -
  have ok: "inbox_ok (db w')"
    using reachable_inbox_ok [OF reachable_steps [OF assms(2) inbox_push_steps [OF assms(1,3)]]] .
  obtain x where x: "x \<in> set (inbox (db w'))" "im_id x = i" "im_key x = (ib_Recipient m, ib_UUID m)"
    "im_payload x = jsonb_norm (ib_Payload m)"
    using inbox_push_row [OF assms(1,3)] by blast
  have "filter (\<lambda>y. im_key y = im_key x) (inbox (db w')) = [x]"
    using ok x(1) unfolding inbox_ok_def
    by (intro filter_unique_key) auto
  with x show ?thesis by auto
qed

theorem push_inbox_once_witness:
  "\<exists>x. filter (\<lambda>y. im_key y = (''u'', ''id'')) (inbox (db pushed)) = [x] \<and> im_id x = 1 \<and> im_payload x = JNull"
  using push_inbox_once [OF run_tx_step_runner _ sample_push] reachable_empty by (simp add: sample_message_def)

text \<open>C13: a client that retries a push, with a payload that is stored the same way, is answered with the id of
  the first push and changes nothing, however long it waited and whatever happened meanwhile, as long as
  the message has not been removed by retention; only a failing database keeps it from that answer.\<close>

theorem push_inbox_retry:
  assumes "step_runner tx" "reachable (db w)" "InsertInboxMessage tx m w = (Inr i, w1)"
    and "store_step\<^sup>*\<^sup>* (db w1) (db w2)" "i \<in> im_id ` set (inbox (db w2))"
    and "ib_Recipient m2 = ib_Recipient m" "ib_UUID m2 = ib_UUID m" "jsonb_norm (ib_Payload m2) = jsonb_norm (ib_Payload m)"
  shows "InsertInboxMessage tx2 m2 w2 = (if fault w2 (pos w2) then Inl DbFault else Inr i, step_to (db w2) w2)"
proof -
  have reach1: "reachable (db w1)" by (rule reachable_steps [OF assms(2) inbox_push_steps [OF assms(1,3)]])
  have ok: "inbox_ok (db w1)" "inbox_ok (db w2)"
    using reachable_inbox_ok reach1 reachable_steps [OF reach1 assms(4)] by auto
  obtain x where x: "x \<in> set (inbox (db w1))" "im_id x = i" "im_key x = (ib_Recipient m, ib_UUID m)"
    "im_payload x = jsonb_norm (ib_Payload m)"
    using inbox_push_row [OF assms(1,3)] by blast
  obtain y where y: "y \<in> set (inbox (db w2))" "im_id y = i" using assms(5) by auto
  have "im_id y \<le> inbox_top (db w1)" using inbox_below_top [OF ok(1) x(1)] x(2) y(2) by simp
  then have "y \<in> set (inbox (db w1))" using inbox_row_kept [OF assms(4) ok(1) y(1)] by blast
  then have "y = x" using inbox_id_unique [OF ok(1) _ x(1)] x(2) y(2) by simp
  then have "row_at im_key (ib_Recipient m2, ib_UUID m2) (inbox (db w2)) = Some x"
    using ok(2) y(1) row_at_SomeI [of im_key "inbox (db w2)" x] x(3) assms(6,7) by (simp add: inbox_ok_def)
  then have "existingInboxMessage (ib_Payload m2) (ib_Recipient m2) (ib_UUID m2) w2 =
      (if fault w2 (pos w2) then Inl DbFault else Inr (Some i), step_to (db w2) w2)"
    using x(2,4) assms(8) by (simp add: existingInboxMessage_Inr existingInboxMessage_Inl)
  then show ?thesis by (simp add: InsertInboxMessage_def)
qed

theorem push_inbox_retry_witness:
  "InsertInboxMessage run_tx (sample_message\<lparr>ib_Created := 9\<rparr>) (snapshot (db pushed)) = (Inr 1, step_to (db pushed) (snapshot (db pushed)))"
  by (subst push_inbox_retry [OF run_tx_step_runner _ sample_push])
    (simp_all add: reachable_empty db_pushed insert_inbox_effect_def inbox_row_of_def)

text \<open>C29: a push that reuses a recipient and payload uuid for a different payload is answered with
  already_exists and changes nothing.\<close>

theorem push_inbox_conflict:
  assumes "RequireAnyScope ctx [ScopeUser] = Inr auth" "pi_Recipient req \<noteq> []"
    and "isGroupRecipient (pi_Recipient req) \<longrightarrow> HasScope auth ScopeDocAdmin \<and> isAllowedOwner auth (pi_Recipient req)"
    and "pi_Payload req = Some doc" "validate SchemaUsageMessages doc = Inr []"
    and "uuid_Parse (doc_uuid api doc) = Inr uuid" "doc_encode api doc = Some payload"
    and "\<not> fault w (pos w)" "row_at im_key (pi_Recipient req, uuid) (inbox (db w)) = Some x"
    and "im_payload x \<noteq> jsonb_norm payload"
  shows "PushInboxMessage (pg_messages_store tx txi) api uuid_Parse validate ctx req w =
    (Inl (AlreadyExists ''a different message with uuid %s already exists for %q''
       [doc_uuid api doc, pi_Recipient req]), step_to (db w) w)"
proof -
  let ?m = "\<lparr>ib_ID = 0, ib_UUID = uuid, ib_Recipient = pi_Recipient req, ib_Created = Now ctx,
     ib_CreatedBy = Subject auth, ib_IsRead = False, ib_Payload = payload\<rparr>"
  have "existingInboxMessage payload (pi_Recipient req) uuid w = (Inl ErrInboxMessageConflict, step_to (db w) w)"
    using assms(8,9,10) by (simp add: existingInboxMessage_Inl)
  then have "InsertInboxMessage txi ?m w = (Inl ErrInboxMessageConflict, step_to (db w) w)"
    by (simp add: InsertInboxMessage_def)
  with assms(1-7) show ?thesis
    by (auto simp: PushInboxMessage_def requireScope_def pg_messages_store_def catchM_def)
qed

theorem push_inbox_conflict_witness:
  "fst (PushInboxMessage (pg_messages_store run_tx run_tx) sample_api Inr accept_all sample_ctx
     \<lparr>pi_Recipient = ''u'', pi_Payload = Some (JBool True)\<rparr> pushed) =
   Inl (AlreadyExists ''a different message with uuid %s already exists for %q'' [''id'', ''u''])"
proof -
  show ?thesis
    by (subst push_inbox_conflict [OF sample_ctx_user, where doc = "JBool True" and uuid = "''id''" and payload = "JBool True"
          and x = "inbox_row_of sample_message 1"])
      (simp_all add: isGroupRecipient_def has_prefix_def accept_all_def sample_api_def db_pushed insert_inbox_effect_def
        inbox_row_of_def sample_message_def empty_db_def row_at_def)
qed

lemma has_prefix_iff: "has_prefix s p \<longleftrightarrow> (\<exists>rest. s = p @ rest)"
  by (metis append_eq_conv_conj append_take_drop_id has_prefix_def)

lemma isGroupRecipient_iff:
  "isGroupRecipient r \<longleftrightarrow> (\<exists>rest. r = ''core://unit/'' @ rest \<or> r = ''core://org/'' @ rest)"
  unfolding isGroupRecipient_def has_prefix_iff by blast

text \<open>C17: a push is refused for lack of permission, with the store untouched, exactly when the recipient is the
  address of a unit or an org and the caller is not both a document admin and a member of it; this holds for
  every store.\<close>

theorem group_push_authorized:
  assumes "RequireAnyScope ctx [ScopeUser] = Inr auth"
  shows "(if (\<exists>rest. pi_Recipient req = ''core://unit/'' @ rest \<or> pi_Recipient req = ''core://org/'' @ rest) \<and>
      \<not> (HasScope auth ScopeDocAdmin \<and> pi_Recipient req \<in> set (getAllOwners auth))
    then \<exists>msg args. PushInboxMessage store api uuid_Parse validate ctx req w = (Inl (PermissionDeniedf msg args), w)
    else \<forall>msg args w'. PushInboxMessage store api uuid_Parse validate ctx req w \<noteq> (Inl (PermissionDeniedf msg args), w'))"
proof (cases "isGroupRecipient (pi_Recipient req) \<and> \<not> (HasScope auth ScopeDocAdmin \<and> pi_Recipient req \<in> set (getAllOwners auth))")
  case True
  then have "pi_Recipient req \<noteq> []" by (auto simp: isGroupRecipient_def has_prefix_def)
  with True assms have "\<exists>msg args. PushInboxMessage store api uuid_Parse validate ctx req w = (Inl (PermissionDeniedf msg args), w)"
    by (auto simp: PushInboxMessage_def requireScope_def isAllowedOwner_set)
  then show ?thesis unfolding isGroupRecipient_iff [symmetric] if_P [OF True] .
next
  case False
  then have "PushInboxMessage store api uuid_Parse validate ctx req w \<noteq> (Inl (PermissionDeniedf msg args), w')" for msg args w'
    using assms
    by (auto simp: PushInboxMessage_def requireScope_def isAllowedOwner_set catchM_def validationError_not_denied
        split: option.splits sum.splits prod.splits if_splits)
  then show ?thesis unfolding isGroupRecipient_iff [symmetric] if_not_P [OF False] by blast
qed

theorem group_push_authorized_witness:
  "(\<forall>msg args w'. PushInboxMessage (pg_messages_store run_tx run_tx) sample_api Inr accept_all sample_ctx
      \<lparr>pi_Recipient = ''core://unit/a'', pi_Payload = Some JNull\<rparr> (snapshot empty_db) \<noteq> (Inl (PermissionDeniedf msg args), w')) \<and>
   (\<exists>msg args. PushInboxMessage (pg_messages_store run_tx run_tx) sample_api Inr accept_all sample_ctx
      \<lparr>pi_Recipient = ''core://unit/b'', pi_Payload = Some JNull\<rparr> (snapshot empty_db) =
        (Inl (PermissionDeniedf msg args), snapshot empty_db))"
  using group_push_authorized [OF sample_ctx_user, of "\<lparr>pi_Recipient = ''core://unit/a'', pi_Payload = Some JNull\<rparr>"
      "pg_messages_store run_tx run_tx" sample_api Inr accept_all "snapshot empty_db"]
    group_push_authorized [OF sample_ctx_user, of "\<lparr>pi_Recipient = ''core://unit/b'', pi_Payload = Some JNull\<rparr>"
      "pg_messages_store run_tx run_tx" sample_api Inr accept_all "snapshot empty_db"]
  by (simp add: sample_user_def getAllOwners_def ScopeDocAdmin_def)

section \<open>Polling and listing\<close>

lemma rpc_ids:
  "list_all2 (\<lambda>m r. inboxMessageToRPC api m = Some r) ms rs \<Longrightarrow> map ri_Id rs = map ib_ID ms"
  by (induction rule: list_all2_induct) (auto simp: inboxMessageToRPC_def)

lemma rpc_recipients:
  "list_all2 (\<lambda>m r. inboxMessageToRPC api m = Some r) ms rs \<Longrightarrow> map ri_Recipient rs = map ib_Recipient ms"
  by (induction rule: list_all2_induct) (auto simp: inboxMessageToRPC_def)

lemma view_page_ids: "map ib_ID (page_after ib_ID (inbox_view reader d) a n) = map im_id (page_after im_id (inbox_rows reader d) a n)"
  by (simp add: inbox_view_page comp_def inbox_seen_def inbox_message_of_row_def)

lemma view_ids: "ib_ID ` set (inbox_view reader d) = im_id ` set (inbox_rows reader d)"
  by (simp add: inbox_view_def image_image inbox_seen_def inbox_message_of_row_def)

text \<open>What a received message says of the row it was made of.\<close>

lemma received_row:
  assumes "m \<in> set (page_after ib_ID (inbox_view reader d) a n)" "inboxMessageToRPC api m = Some r"
  shows "\<exists>x \<in> set (inbox d). im_id x = ri_Id r \<and> im_recipient x = ri_Recipient r \<and> im_recipient x \<in> set (ir_Owners reader) \<and>
    \<not> state_hidden d (ir_Subject reader) x \<and> ri_IsRead r = state_read d (ir_Subject reader) x \<and>
    ri_CreatedBy r = im_created_by x \<and> ri_Created r = rfc3339 (im_created x) \<and> doc_decode api (im_payload x) = Some (ri_Payload r)"
proof -
  obtain x where "x \<in> set (inbox_rows reader d)" "m = inbox_seen reader d x"
    using assms(1) set_page_asc by (fastforce simp: page_after_def inbox_view_def)
  with assms(2) show ?thesis
    by (intro bexI [of _ x]) (auto simp: inboxMessageToRPC_def inbox_seen_def inbox_message_of_row_def inbox_rows_def)
qed

text \<open>C15: a poll of the inbox answers in ascending order, past the cursor and with at most the clamped size, and
  only with messages of the caller's own view: each is a stored message that is addressed to the caller and that the
  caller has not deleted, with its payload and the caller's own read flag; and nothing of that
  view lies between the cursor that was sent and the one that is answered except what was returned.\<close>

theorem poll_inbox_page:
  assumes "step_runner tx" "reachable (db w)" "\<And>v. reachable (db v) \<Longrightarrow> reachable (db (snd (wait v)))"
    and "RequireAnyScope ctx [ScopeUser] = Inr auth" "afterID \<noteq> -1"
    and "PollInboxMessages (pg_messages_store tx txi) api wait ctx afterID n w = (Inr resp, w')"
  shows "sorted_wrt (<) (map ri_Id (pr_Items resp)) \<and> length (pr_Items resp) \<le> nat (clampSize n) \<and>
    (\<forall>r \<in> set (pr_Items resp). afterID < ri_Id r \<and> ri_Recipient r \<in> set (getAllOwners auth) \<and>
       (\<exists>x \<in> set (inbox (db w')). im_id x = ri_Id r \<and> im_recipient x = ri_Recipient r \<and>
          \<not> state_hidden (db w') (Subject auth) x \<and> ri_IsRead r = state_read (db w') (Subject auth) x \<and>
          ri_CreatedBy r = im_created_by x \<and> ri_Created r = rfc3339 (im_created x) \<and>
          doc_decode api (im_payload x) = Some (ri_Payload r))) \<and>
    (\<forall>m \<in> set (inbox_view (inboxReader auth) (db w')). afterID < ib_ID m \<and> ib_ID m \<le> pr_LastId resp \<longrightarrow>
       ib_ID m \<in> ri_Id ` set (pr_Items resp))"
proof -
  have good: "good_world w" "\<And>v. good_world v \<Longrightarrow> good_world (snd (wait v))"
    using assms(2,3) by (auto simp: good_world_def)
  have prov: "inbox_provider (pg_messages_store tx txi) world_inbox good_world db_moved"
    by (rule pg_inbox_provider [OF assms(1)])
  let ?reader = "inboxReader auth" and ?n = "clampSize n"
  let ?page = "page_after im_id (inbox_rows ?reader (db w')) afterID ?n"
  obtain reach: "reachable (db w')"
    and items: "list_all2 (\<lambda>m r. inboxMessageToRPC api m = Some r)
      (page_after ib_ID (inbox_view ?reader (db w')) afterID ?n) (pr_Items resp)"
    and last: "pr_LastId resp = last_id ri_Id afterID (pr_Items resp)"
    using inbox_provider.poll_inbox [OF prov good assms(6)] assms(4,5)
    unfolding good_world_def world_inbox_def by (metis Inr_inject)
  have ok: "inbox_ok (db w')" by (rule reachable_inbox_ok [OF reach])
  have "map ri_Id (pr_Items resp) = map im_id ?page"
    using rpc_ids [OF items] by (simp add: view_page_ids)
  note page = inbox_stream.answered_page [OF ok clampSize_pos this]
  have own: "\<exists>x \<in> set (inbox (db w')). im_id x = ri_Id r \<and> im_recipient x = ri_Recipient r \<and>
      im_recipient x \<in> set (ir_Owners ?reader) \<and> \<not> state_hidden (db w') (ir_Subject ?reader) x \<and>
      ri_IsRead r = state_read (db w') (ir_Subject ?reader) x \<and> ri_CreatedBy r = im_created_by x \<and>
      ri_Created r = rfc3339 (im_created x) \<and> doc_decode api (im_payload x) = Some (ri_Payload r)"
    if "r \<in> set (pr_Items resp)" for r
    using that list_all2_in_right [OF items] received_row by metis
  have gap: "ib_ID m \<in> ri_Id ` set (pr_Items resp)"
    if m: "m \<in> set (inbox_view ?reader (db w'))" "afterID < ib_ID m" "ib_ID m \<le> pr_LastId resp" for m
  proof -
    obtain x where x: "x \<in> set (inbox_rows ?reader (db w'))" "im_id x = ib_ID m"
      using m(1) view_ids [of ?reader "db w'"] by (metis image_iff)
    show ?thesis using page(5) [OF x(1)] x(2) m(2,3) last by simp
  qed
  have reader: "ir_Owners ?reader = getAllOwners auth" "ir_Subject ?reader = Subject auth" by (simp_all add: inboxReader_def)
  show ?thesis using page(1-3) own [unfolded reader] gap by (intro conjI ballI; metis)
qed

lemma reachable_pushed: "reachable (db pushed)"
  by (rule reachable_steps [OF reachable_empty inbox_push_steps [OF run_tx_step_runner sample_push, simplified]])

definition sample_received :: "json rpc_inbox_message" where
  "sample_received = \<lparr>ri_Recipient = ''u'', ri_Id = 1, ri_Created = 0, ri_CreatedBy = ''v'', ri_Updated = 0,
     ri_IsRead = False, ri_Payload = JNull\<rparr>"

lemma sample_poll: "PollInboxMessages (pg_messages_store run_tx run_tx) sample_api idle_wait sample_ctx 0 5 pushed =
    (Inr \<lparr>pr_LastId = 1, pr_Items = [sample_received]\<rparr>, step_to (db pushed) pushed)"
proof -
  have "ListInboxMessagesAfterID (inboxReader sample_user) 0 5 pushed =
      (Inr [sample_message\<lparr>ib_ID := 1\<rparr>], step_to (db pushed) pushed)"
    by (simp add: ListInboxMessagesAfterID_Inr db_pushed page_after_def page_asc_def inbox_rows_def insert_inbox_effect_def
        inbox_row_of_def sample_message_def empty_db_def inboxReader_def getAllOwners_def sample_user_def state_hidden_def
        inbox_seen_def state_read_def inbox_message_of_row_def)
  then show ?thesis
    by (simp add: PollInboxMessages_def Let_def requireScope_def sample_ctx_user long_poll_def listInbox_def orInternal_def
        pg_messages_store_def clampSize_def pollMaxSize_def pollDefaultSize_def inboxMessageToRPC_def sample_api_def
        sample_message_def sample_received_def rfc3339_def)
qed

theorem poll_inbox_page_witness:
  "\<exists>resp w'. PollInboxMessages (pg_messages_store run_tx run_tx) sample_api idle_wait sample_ctx 0 5 pushed = (Inr resp, w') \<and>
     ri_Id ` set (pr_Items resp) = {1} \<and> sorted_wrt (<) (map ri_Id (pr_Items resp))"
  using poll_inbox_page [OF run_tx_step_runner reachable_pushed _ sample_ctx_user _ sample_poll]
  by (simp add: sample_poll sample_received_def idle_wait_def)

text \<open>
  A client that polls the store in the databases of a run, each poll with the cursor the previous
  one gave: \<open>inbox_fetch\<close> is a poll that does not fail.
\<close>

definition inbox_fetch :: "inbox_reader \<Rightarrow> int \<Rightarrow> db \<Rightarrow> int \<Rightarrow> inbox_message list" where
  "inbox_fetch reader n d a =
     (case fst (ListInboxMessagesAfterID reader a n (snapshot d)) of Inl _ \<Rightarrow> [] | Inr ms \<Rightarrow> ms)"

lemma inbox_fetch_page: "0 < n \<Longrightarrow> inbox_fetch reader n d a = map (inbox_seen reader d) (page_after im_id (inbox_rows reader d) a n)"
proof -
  assume "0 < n"
  then have "ListInboxMessagesAfterID reader a n (snapshot d) =
      (Inr (map (inbox_seen reader d) (page_after im_id (inbox_rows reader d) a n)), step_to d (snapshot d))"
    by (simp add: ListInboxMessagesAfterID_Inr)
  then show ?thesis by (simp add: inbox_fetch_def)
qed

lemma inbox_fetch_ids: "0 < n \<Longrightarrow> map ib_ID (inbox_fetch reader n d a) = map im_id (page_after im_id (inbox_rows reader d) a n)"
  by (simp add: inbox_fetch_page comp_def inbox_seen_def inbox_message_of_row_def)

text \<open>A reader that tails the inbox while other calls commit misses nothing and sees nothing twice: every
  message readable at the end with an id past the start and up to the final cursor was delivered, and
  the ids come in strictly ascending order.\<close>

theorem tail_inbox_no_skip:
  assumes "reachable d" "run_of store_step d ds" "ds \<noteq> []" "0 < n" "after \<le> inbox_top d"
    and "tail_polls (inbox_fetch reader n) ib_ID after ds = (ms, c)"
  shows "sorted_wrt (<) (map ib_ID ms) \<and>
    (\<forall>m \<in> set (inbox_view reader (last ds)). after < ib_ID m \<and> ib_ID m \<le> c \<longrightarrow> ib_ID m \<in> ib_ID ` set ms)"
proof -
  note tail = inbox_tail.tail_view [OF assms(2,3) reachable_inbox_ok [OF assms(1)] assms(4,5) inbox_fetch_ids [OF assms(4)] assms(6)]
  have "ib_ID m \<in> ib_ID ` set ms"
    if m: "m \<in> set (inbox_view reader (last ds))" "after < ib_ID m" "ib_ID m \<le> c" for m
  proof -
    obtain x where "x \<in> set (inbox_rows reader (last ds))" "im_id x = ib_ID m"
      using m(1) view_ids [of reader "last ds"] by (metis image_iff)
    then show ?thesis using conjunct2 [OF tail] m by metis
  qed
  then show ?thesis using conjunct1 [OF tail] by blast
qed

lemma sample_fetch: "inbox_fetch (inboxReader sample_user) 5 (db pushed) 0 = [sample_message\<lparr>ib_ID := 1\<rparr>]"
  by (simp add: inbox_fetch_page db_pushed page_after_def page_asc_def inbox_rows_def insert_inbox_effect_def
      inbox_row_of_def sample_message_def empty_db_def inboxReader_def getAllOwners_def sample_user_def state_hidden_def
      inbox_seen_def state_read_def inbox_message_of_row_def)

theorem tail_inbox_no_skip_witness:
  "\<exists>ms c. tail_polls (inbox_fetch (inboxReader sample_user) 5) ib_ID 0 [db pushed] = (ms, c) \<and> c = 1 \<and>
     (\<forall>m \<in> set (inbox_view (inboxReader sample_user) (db pushed)). 0 < ib_ID m \<and> ib_ID m \<le> 1 \<longrightarrow> ib_ID m \<in> ib_ID ` set ms)"
proof -
  have run: "run_of store_step empty_db [db pushed]"
    using inbox_push_steps [OF run_tx_step_runner sample_push] by simp
  have t: "tail_polls (inbox_fetch (inboxReader sample_user) 5) ib_ID 0 [db pushed] = ([sample_message\<lparr>ib_ID := 1\<rparr>], 1)"
    by (simp add: sample_fetch)
  show ?thesis
    using tail_inbox_no_skip [OF reachable_empty run _ _ _ t] t by (simp add: inbox_top_def empty_db_def sequenceInbox_def)
qed

section \<open>Read state\<close>

text \<open>C28: marking a message changes the store in that message's flag for the calling subject only, and announces
  it: between the database other calls had reached and the answer, one entry of the read states has changed,
  so nobody else's inbox has, and the caller's own in the flag of that message alone; the message is addressed to
  the caller, and whether it is deleted stays as it was.\<close>

theorem update_inbox_isolated:
  assumes "step_runner tx" "reachable (db w)" "RequireAnyScope ctx [ScopeUser] = Inr auth"
    and "UpdateInboxMessage (pg_messages_store tx txi) ctx i rd w = (Inr (), w')"
  shows "\<exists>d x. store_step\<^sup>*\<^sup>* (db w) d \<and> x \<in> set (inbox d) \<and> im_id x = i \<and> im_recipient x \<in> set (getAllOwners auth) \<and>
    db w' = d\<lparr>inbox_states := (inbox_states d)((i, Subject auth) \<mapsto>
        (case inbox_states d (i, Subject auth) of
           None \<Rightarrow> \<lparr>ims_is_read = rd, ims_hidden = False, ims_updated = Now ctx\<rparr>
         | Some s \<Rightarrow> s\<lparr>ims_is_read := rd, ims_updated := Now ctx\<rparr>)),
      outbox := outbox d @ [(NotifyChannelInboxStateUpdate, InboxStateEvent \<lparr>ise_ID = i, ise_Recipient = im_recipient x,
        ise_Subject = Subject auth, ise_CreatedBy = im_created_by x\<rparr>)]\<rparr> \<and>
    (\<forall>reader. inbox_view reader (db w') =
      (if ir_Subject reader = Subject auth
       then map (\<lambda>m. if ib_ID m = i then m\<lparr>ib_IsRead := rd\<rparr> else m) (inbox_view reader d) else inbox_view reader d))"
proof -
  have reader: "ir_Owners (inboxReader auth) = getAllOwners auth" "ir_Subject (inboxReader auth) = Subject auth"
    by (simp_all add: inboxReader_def)
  have "SetInboxMessageRead tx (inboxReader auth) i rd (Now ctx) w = (Inr (), w')"
    using assms(3,4) by (auto simp: UpdateInboxMessage_def requireScope_Inr catchM_def pg_messages_store_def
        split: if_splits prod.splits sum.splits)
  then obtain v v' where v: "store_step\<^sup>*\<^sup>* (db w) (db v)" "SetInboxMessageRead_tx (inboxReader auth) i rd (Now ctx) v = (Inr (), v')"
    "db w' = db v'"
    using runner_commit [OF assms(1)] unfolding SetInboxMessageRead_def by metis
  obtain x where x: "addressed (inboxReader auth) i (db v) = Some x" "db w' = set_read_effect (inboxReader auth) x rd (Now ctx) (db v)"
    using SetInboxMessageRead_tx_effect [OF v(2)] v(3) by metis
  note a = addressed_SomeD [OF x(1), unfolded reader]
  have "inbox_view reader (db w') = (if ir_Subject reader = Subject auth
       then map (\<lambda>m. if ib_ID m = i then m\<lparr>ib_IsRead := rd\<rparr> else m) (inbox_view reader (db v)) else inbox_view reader (db v))" for reader
    using a reader by (simp add: x(2) inbox_view_set_read inbox_view_other_subject)
  moreover note v(1) a
  ultimately show ?thesis using a reader
    by (intro exI [of _ "db v"] exI [of _ x]) (simp add: x(2) set_read_effect_def)
qed

lemma sample_update: "UpdateInboxMessage (pg_messages_store run_tx run_tx) sample_ctx 1 True pushed =
    (Inr (), snd (UpdateInboxMessage (pg_messages_store run_tx run_tx) sample_ctx 1 True pushed))"
  by (simp add: prod_eq_iff UpdateInboxMessage_def requireScope_def sample_ctx_user pg_messages_store_def SetInboxMessageRead_def
      run_tx_def SetInboxMessageRead_tx_def readableInboxMessage_def q_GetInboxMessageForReader_def catchM_def bindM_def
      run_stmt_def db_pushed insert_inbox_effect_def inbox_row_of_def sample_message_def empty_db_def inboxReader_def
      getAllOwners_def sample_user_def q_SetInboxMessageRead_def notifyInboxStateUpdated_def pgNotify_def q_Notify_def)

theorem update_inbox_isolated_witness:
  "\<exists>d w'. UpdateInboxMessage (pg_messages_store run_tx run_tx) sample_ctx 1 True pushed = (Inr (), w') \<and>
     store_step\<^sup>*\<^sup>* (db pushed) d \<and> inbox (db w') = inbox d \<and>
     (\<forall>k. k \<noteq> (1, ''u'') \<longrightarrow> inbox_states (db w') k = inbox_states d k) \<and>
     map_option ims_is_read (inbox_states (db w') (1, ''u'')) = Some True"
proof -
  let ?w = "snd (UpdateInboxMessage (pg_messages_store run_tx run_tx) sample_ctx 1 True pushed)"
  obtain d and x :: inbox_row where d: "store_step\<^sup>*\<^sup>* (db pushed) d" and w: "db ?w = d\<lparr>inbox_states := (inbox_states d)((1, Subject sample_user) \<mapsto>
        (case inbox_states d (1, Subject sample_user) of
           None \<Rightarrow> \<lparr>ims_is_read = True, ims_hidden = False, ims_updated = Now sample_ctx\<rparr>
         | Some s \<Rightarrow> s\<lparr>ims_is_read := True, ims_updated := Now sample_ctx\<rparr>)),
      outbox := outbox d @ [(NotifyChannelInboxStateUpdate, InboxStateEvent \<lparr>ise_ID = 1, ise_Recipient = im_recipient x,
        ise_Subject = Subject sample_user, ise_CreatedBy = im_created_by x\<rparr>)]\<rparr>"
    using update_inbox_isolated [OF run_tx_step_runner reachable_pushed sample_ctx_user sample_update] by blast
  have "Subject sample_user = ''u''" by (simp add: sample_user_def)
  with d w sample_update show ?thesis
    by (intro exI [of _ d] exI [of _ ?w]) (simp split: option.splits)
qed

text \<open>C27: a message the caller deleted never comes back to any inbox read under the caller's subject, whatever
  happens afterwards.\<close>

theorem deleted_stays_hidden:
  assumes "step_runner tx" "reachable (db w)" "RequireAnyScope ctx [ScopeUser] = Inr auth"
    and "DeleteInboxMessage (pg_messages_store tx txi) ctx i w = (Inr (), w')"
    and "store_step\<^sup>*\<^sup>* (db w') d" "ir_Subject reader = Subject auth"
  shows "i \<notin> ib_ID ` set (inbox_view reader d)"
proof
  assume "i \<in> ib_ID ` set (inbox_view reader d)"
  then obtain x where x: "x \<in> set (inbox d)" "im_id x = i" "\<not> state_hidden d (Subject auth) x"
    unfolding view_ids inbox_rows_def using assms(6) by auto
  have good: "good_world w" using assms(2) by (simp add: good_world_def)
  from assms(3,4) have "HideInboxMessage tx (inboxReader auth) i (Now ctx) w = (Inr (), w')"
    by (auto simp: DeleteInboxMessage_def requireScope_def pg_messages_store_def catchM_def
        split: if_splits prod.splits sum.splits)
  then have run: "tx (HideInboxMessage_tx (inboxReader auth) i (Now ctx)) w = (Inr (), w')"
    by (simp add: HideInboxMessage_def)
  have ok: "inbox_ok (db w')"
    using tx_good [OF assms(1) run runner_bodies(4) runner_bodies(15) good] reachable_inbox_ok
    by (simp add: good_world_def)
  obtain v v' where v: "HideInboxMessage_tx (inboxReader auth) i (Now ctx) v = (Inr (), v')" "db w' = db v'"
    using runner_commit [OF assms(1) run] by metis
  then obtain y where y: "addressed (inboxReader auth) i (db v) = Some y"
    "db w' = hide_effect (inboxReader auth) y (Now ctx) (db v)"
    using HideInboxMessage_tx_effect [OF v(1)] by auto
  have yin: "y \<in> set (inbox (db w'))" "im_id y = i" "state_hidden (db w') (Subject auth) y"
    using addressed_SomeD [OF y(1)] by (simp_all add: y(2) state_flags_hide inboxReader_def)
  have "im_id x \<le> inbox_top (db w')" using inbox_below_top [OF ok yin(1)] yin(2) x(2) by simp
  moreover from this have "x \<in> set (inbox (db w'))" by (rule inbox_row_kept [OF assms(5) ok x(1)])
  then have "x = y" using inbox_id_unique [OF ok _ yin(1)] x(2) yin(2) by simp
  ultimately have "state_hidden d (Subject auth) x"
    using hidden_steps [OF assms(5) ok x(1)] yin(3) by simp
  with x(3) show False by simp
qed

lemma sample_delete_message: "DeleteInboxMessage (pg_messages_store run_tx run_tx) sample_ctx 1 pushed =
    (Inr (), snd (DeleteInboxMessage (pg_messages_store run_tx run_tx) sample_ctx 1 pushed))"
  by (simp add: prod_eq_iff DeleteInboxMessage_def requireScope_def sample_ctx_user pg_messages_store_def HideInboxMessage_def
      run_tx_def HideInboxMessage_tx_def readableInboxMessage_def q_GetInboxMessageForReader_def catchM_def bindM_def
      run_stmt_def db_pushed insert_inbox_effect_def inbox_row_of_def sample_message_def empty_db_def inboxReader_def
      getAllOwners_def sample_user_def q_HideInboxMessage_def notifyInboxStateUpdated_def pgNotify_def q_Notify_def)

theorem deleted_stays_hidden_witness:
  "\<exists>w'. DeleteInboxMessage (pg_messages_store run_tx run_tx) sample_ctx 1 pushed = (Inr (), w') \<and>
     1 \<notin> ib_ID ` set (inbox_view (inboxReader sample_user) (db w'))"
  using deleted_stays_hidden [OF run_tx_step_runner reachable_pushed sample_ctx_user sample_delete_message rtranclp.rtrancl_refl,
      of "inboxReader sample_user"] sample_delete_message
  by (metis inbox_reader.select_convs(2) inboxReader_def)

lemma not_addressed_update:
  assumes "\<not> fault w (pos w)" "addressed reader i (db w) = None"
  shows "SetInboxMessageRead_tx reader i rd t w = (Inl ErrInboxMessageNotFound, step_to (db w) w)"
    and "HideInboxMessage_tx reader i t w = (Inl ErrInboxMessageNotFound, step_to (db w) w)"
proof -
  have "readableInboxMessage reader i w = (Inl ErrInboxMessageNotFound, step_to (db w) w)"
    using assms by (simp add: readableInboxMessage_def catchM_def q_GetInboxMessageForReader_def run_stmt_def addressed_def)
  then show "SetInboxMessageRead_tx reader i rd t w = (Inl ErrInboxMessageNotFound, step_to (db w) w)"
    "HideInboxMessage_tx reader i t w = (Inl ErrInboxMessageNotFound, step_to (db w) w)"
    by (simp_all add: SetInboxMessageRead_tx_def HideInboxMessage_tx_def)
qed

text \<open>C30: a message addressed to somebody else is answered exactly like one that does not exist: not_found,
  and nothing changes.\<close>

theorem foreign_message_not_found:
  assumes "RequireAnyScope ctx [ScopeUser] = Inr auth" "1 \<le> i" "\<not> fault w (pos w)"
    and "\<forall>m \<in> set (inbox (db w)). im_id m = i \<longrightarrow> im_recipient m \<notin> set (getAllOwners auth)"
  shows "\<exists>w1 w2. UpdateInboxMessage (pg_messages_store run_tx run_tx) ctx i rd w = (Inl (NotFound ''no such inbox message''), w1) \<and>
    DeleteInboxMessage (pg_messages_store run_tx run_tx) ctx i w = (Inl (NotFound ''no such inbox message''), w2) \<and>
    db w1 = db w \<and> db w2 = db w"
proof -
  have "addressed (inboxReader auth) i (db w) = None"
    using assms(4) by (auto simp: addressed_None_iff inboxReader_def)
  note missing = not_addressed_update [OF assms(3) this]
  from assms(1,2) show ?thesis
    by (simp add: UpdateInboxMessage_def DeleteInboxMessage_def requireScope_def pg_messages_store_def SetInboxMessageRead_def
        HideInboxMessage_def run_tx_def missing rolled_def)
qed

theorem foreign_message_not_found_witness:
  "\<exists>w1. UpdateInboxMessage (pg_messages_store run_tx run_tx) (caller_ctx (sample_user\<lparr>Subject := ''w''\<rparr>) 5) 1 True pushed =
     (Inl (NotFound ''no such inbox message''), w1) \<and> db w1 = db pushed"
  using foreign_message_not_found [of "caller_ctx (sample_user\<lparr>Subject := ''w''\<rparr>) 5" "sample_user\<lparr>Subject := ''w''\<rparr>" 1 pushed True]
  by (auto simp: caller_ctx_def sample_user_def ScopeUser_def db_pushed insert_inbox_effect_def inbox_row_of_def
      sample_message_def empty_db_def getAllOwners_def)

section \<open>System messages\<close>

text \<open>A pushed system message gets the next number of its recipient and is the newest of that recipient's
  messages, holding what was pushed; no other recipient's messages change.\<close>

theorem push_message_appends:
  assumes "step_runner tx" "RequireAnyScope ctx [ScopeUser] = Inr auth" "pm_DocUuid req = []"
    and "PushMessage (pg_messages_store tx txi) uuid_Parse ctx req w = (Inr (), w')"
  shows "\<exists>d (row :: message_row) payload. store_step\<^sup>*\<^sup>* (db w) d \<and> pm_Payload req = Some payload \<and>
    m_id row = system_top (pm_Recipient req) d + 1 \<and> m_type row = text_or_null (pm_Type req) \<and>
    m_created_by row = Subject auth \<and> m_payload row = jsonb_norm (marshal_map payload) \<and>
    system_top (pm_Recipient req) (db w') = m_id row \<and>
    (\<forall>r. system_rows r (db w') = system_rows r d @ (if r = pm_Recipient req then [row] else []))"
proof -
  from assms(2-4) obtain payload where payload: "pm_Payload req = Some payload"
    and ins: "InsertMessage tx \<lparr>msg_Recipient = pm_Recipient req, msg_ID = 0, msg_Type = pm_Type req, msg_Created = Now ctx,
       msg_CreatedBy = Subject auth, msg_DocUUID = None, msg_DocType = pm_DocType req,
       msg_Payload = marshal_map payload\<rparr> w = (Inr (), w')" (is "InsertMessage tx ?m w = _")
    by (auto simp: PushMessage_def requireScope_def pg_messages_store_def split: if_splits option.splits)
  obtain v v' where v: "store_step\<^sup>*\<^sup>* (db w) (db v)" "InsertMessage_tx ?m v = (Inr (), v')" "db w' = db v'"
    using runner_commit [OF assms(1) ins [unfolded InsertMessage_def]] by metis
  have d: "db w' = insert_message_effect ?m (db v)"
    using InsertMessage_tx_effect(1) [OF v(2)] v(3) by simp
  let ?row = "system_row ?m (system_top (pm_Recipient req) (db v) + 1)"
  have "system_rows r (db w') = system_rows r (db v) @ (if r = pm_Recipient req then [?row] else [])" for r
    by (simp add: d insert_message_effect_def Let_def system_rows_def next_system_id_top system_row_def)
  moreover have "system_top (pm_Recipient req) (db w') = m_id ?row"
    by (simp add: d insert_message_effect_def Let_def system_top_def [of _ "db _\<lparr>users := _, messages := _, write_locks := _, outbox := _\<rparr>"]
        next_system_id_top system_row_def)
  ultimately show ?thesis using v(1) payload
    by (intro exI [of _ "db v"] exI [of _ ?row] exI [of _ payload]) (simp add: system_row_def)
qed

definition sample_push_request :: push_message_request where
  "sample_push_request = \<lparr>pm_Recipient = ''u'', pm_Type = ''validation_error'', pm_DocUuid = [], pm_DocType = [],
     pm_Payload = Some [(''k'', ''v'')]\<rparr>"

definition messaged :: world where
  "messaged = snd (PushMessage (pg_messages_store run_tx run_tx) Inr sample_ctx sample_push_request (snapshot empty_db))"

lemmas push_message_eval = PushMessage_def requireScope_def sample_ctx_user sample_push_request_def pg_messages_store_def
  InsertMessage_def InsertMessage_tx_def orInternal_def catchM_def bindM_def run_tx_def q_UpsertUser_def nextMessageID_def
  q_NextMessageID_def q_InsertMessage_def notifyMessageUpdated_def pgNotify_def q_Notify_def run_stmt_def empty_db_def

lemma sample_push_message: "PushMessage (pg_messages_store run_tx run_tx) Inr sample_ctx sample_push_request (snapshot empty_db) = (Inr (), messaged)"
  by (simp add: messaged_def prod_eq_iff) (simp add: push_message_eval)

lemma messaged_world [simp]: "fault messaged n = False"
  "messages (db messaged) = [\<lparr>m_recipient = ''u'', m_id = 1, m_type = Some ''validation_error'', m_created = 5,
     m_created_by = ''u'', m_doc_uuid = None, m_doc_type = None, m_payload = JObj [(''k'', JStr ''v'')]\<rparr>]"
  by (simp_all add: messaged_def push_message_eval sample_ctx_def caller_ctx_def sample_user_def text_or_null_def marshal_map_def
      jsonb_members_def)

theorem push_message_appends_witness:
  "\<exists>w'. PushMessage (pg_messages_store run_tx run_tx) Inr sample_ctx sample_push_request (snapshot empty_db) = (Inr (), w') \<and>
     (\<exists>row :: message_row. m_type row = Some ''validation_error'' \<and> system_top ''u'' (db w') = m_id row)"
proof -
  have no_doc: "pm_DocUuid sample_push_request = []" by (simp add: sample_push_request_def)
  obtain row :: message_row where "m_type row = text_or_null (pm_Type sample_push_request)"
    "system_top (pm_Recipient sample_push_request) (db messaged) = m_id row"
    using push_message_appends [OF run_tx_step_runner sample_ctx_user no_doc sample_push_message] by blast
  then have "m_type row = Some ''validation_error'' \<and> system_top ''u'' (db messaged) = m_id row"
    by (simp add: sample_push_request_def text_or_null_def)
  then show ?thesis using sample_push_message by blast
qed

text \<open>C39: a poll of the system messages answers with messages of the caller only, in ascending order past the
  cursor and at most ten, but the type each was pushed with is lost: it is always empty.\<close>

theorem poll_messages_page:
  assumes "\<And>v. system_ok (db v) \<Longrightarrow> system_ok (db (snd (wait v)))" "system_ok (db w)"
    and "RequireAnyScope ctx [ScopeUser] = Inr auth" "afterID \<noteq> -1"
    and "PollMessages (pg_messages_store tx txi) wait ctx afterID w = (Inr resp, w')"
  shows "sorted_wrt (<) (map rm_Id (pr_Items resp)) \<and> length (pr_Items resp) \<le> 10 \<and>
    (\<forall>m \<in> set (pr_Items resp). afterID < rm_Id m \<and> rm_Recipient m = Subject auth \<and> rm_Type m = []) \<and>
    (\<forall>x \<in> set (system_rows (Subject auth) (db w')). afterID < m_id x \<and> m_id x \<le> pr_LastId resp \<longrightarrow>
       m_id x \<in> rm_Id ` set (pr_Items resp))"
proof -
  let ?rows = "\<lambda>v. page_after m_id (system_rows (Subject auth) (db v)) afterID 10"
  from assms(3-5) have p: "long_poll wait (listMessages (pg_messages_store tx txi) (Subject auth) afterID 10)
       (\<lambda>msgs. \<lparr>pr_LastId = (if msgs = [] then afterID else rm_Id (last msgs)), pr_Items = msgs\<rparr>) w = (Inr resp, w')"
    by (simp add: PollMessages_def requireScope_def)
  have listed: "db v' = db v \<and> list_all2 (\<lambda>x r. message_to_rpc (message_of_row x) = Some r) (?rows v) ms"
    if "listMessages (pg_messages_store tx txi) (Subject auth) afterID 10 v = (Inr ms, v')" for v ms v'
    using that by (auto simp: listMessages_def bindM_Inr_iff pg_messages_store_def ListMessagesAfterID_Inr those_map_Some
        list_all2_map1 split: option.splits)
  have fin: ?thesis
    if ok: "system_ok (db v)" and l: "listMessages (pg_messages_store tx txi) (Subject auth) afterID 10 v = (Inr ms, w')"
      and r: "resp = \<lparr>pr_LastId = (if ms = [] then afterID else rm_Id (last ms)), pr_Items = ms\<rparr>" for v ms
  proof -
    have dv: "db w' = db v" and all: "list_all2 (\<lambda>x r. message_to_rpc (message_of_row x) = Some r) (?rows v) ms"
      using listed [OF l] by auto
    have ids: "map rm_Id ms = map m_id (?rows v)"
      using all by (induction rule: list_all2_induct) (auto simp: message_to_rpc_def message_of_row_def)
    note page = system_stream.answered_page [OF ok _ ids]
    have content: "rm_Recipient m = Subject auth \<and> rm_Type m = []" if m: "m \<in> set ms" for m
    proof -
      obtain x where x: "x \<in> set (?rows v)" "message_to_rpc (message_of_row x) = Some m"
        using list_all2_in_right [OF all m] by blast
      then have "x \<in> set (system_rows (Subject auth) (db v))" using system_stream.fetch_sound by blast
      with x(2) show ?thesis by (auto simp: message_to_rpc_def message_of_row_def system_rows_def)
    qed
    have "pr_LastId resp = last_id rm_Id afterID ms" by (simp add: r last_id_map)
    then show ?thesis using page content by (simp add: r dv)
  qed
  from p show ?thesis
  proof (cases rule: long_poll_cases)
    case (ready ms)
    then show ?thesis using fin assms(2) by blast
  next
    case (waited w1 e w2 ms)
    have "system_ok (db w1)" using listed [OF waited(1)] assms(2) by simp
    then have "system_ok (db w2)" using assms(1) [of w1] waited(2) by simp
    then show ?thesis using fin waited(4,5) by blast
  qed
qed

lemma system_ok_messaged: "system_ok (db messaged)"
proof -
  have "InsertMessage run_tx \<lparr>msg_Recipient = ''u'', msg_ID = 0, msg_Type = ''validation_error'', msg_Created = 5,
      msg_CreatedBy = ''u'', msg_DocUUID = None, msg_DocType = [], msg_Payload = marshal_map [(''k'', ''v'')]\<rparr>
      (snapshot empty_db) = (Inr (), messaged)"
    using sample_push_message
    by (simp add: PushMessage_def requireScope_def sample_ctx_user sample_push_request_def pg_messages_store_def)
      (simp add: sample_ctx_def caller_ctx_def sample_user_def)
  then have "store_step\<^sup>*\<^sup>* empty_db (db messaged)"
    using runner_steps [OF run_tx_step_runner] runner_bodies unfolding InsertMessage_def by (metis snapshot_simps(1))
  then show ?thesis using store_ok_steps store_ok_empty by (auto simp: store_ok_def)
qed

lemma sample_poll_messages: "PollMessages (pg_messages_store run_tx run_tx) idle_wait sample_ctx 0 messaged =
    (Inr \<lparr>pr_LastId = 1, pr_Items = [\<lparr>rm_Recipient = ''u'', rm_Id = 1, rm_Type = [], rm_Created = 0, rm_CreatedBy = ''u'',
       rm_DocUuid = [], rm_DocType = [], rm_Payload = [(''k'', ''v'')]\<rparr>]\<rparr>, step_to (db messaged) messaged)"
proof -
  have "ListMessagesAfterID ''u'' 0 10 messaged = (Inr [\<lparr>msg_Recipient = ''u'', msg_ID = 1, msg_Type = [], msg_Created = 5,
      msg_CreatedBy = ''u'', msg_DocUUID = None, msg_DocType = [], msg_Payload = JObj [(''k'', JStr ''v'')]\<rparr>],
      step_to (db messaged) messaged)"
    by (simp add: ListMessagesAfterID_Inr page_after_def page_asc_def system_rows_def message_of_row_def text_string_def)
  then show ?thesis
    by (simp add: PollMessages_def requireScope_def sample_ctx_user long_poll_def listMessages_def orInternal_def
        pg_messages_store_def message_to_rpc_def unmarshal_map_def unmarshal_string_def rfc3339_def)
qed

theorem poll_messages_page_witness:
  "\<exists>resp w'. PollMessages (pg_messages_store run_tx run_tx) idle_wait sample_ctx 0 messaged = (Inr resp, w') \<and>
     (\<exists>x \<in> set (messages (db messaged)). m_type x = Some ''validation_error'') \<and>
     (\<forall>m \<in> set (pr_Items resp). rm_Type m = [])"
  using poll_messages_page [OF _ system_ok_messaged sample_ctx_user _ sample_poll_messages]
  by (simp add: sample_poll_messages idle_wait_def)

lemma those_members: "those (map (\<lambda>(k, v). map_option (Pair k) (unmarshal_string v)) (map (map_prod id JStr) m)) = Some m"
  by (induction m) (auto simp: unmarshal_string_def)

text \<open>The key/value payload of a system message survives the way through json, jsonb and back: the map a
  poll answers with is the map that was pushed.\<close>

theorem payload_roundtrip:
  assumes "distinct (map fst m)"
  shows "\<exists>m'. unmarshal_map (jsonb_norm (marshal_map m)) = Some m' \<and> map_of m' = map_of m"
proof -
  let ?m = "jsonb_members (sort_key fst m)"
  have norm: "jsonb_norm (marshal_map m) = JObj (map (map_prod id JStr) ?m)"
  proof -
    have "map (map_prod id jsonb_norm) (map (map_prod id JStr) (sort_key fst m)) = map (map_prod id JStr) (sort_key fst m)"
      by auto
    then show ?thesis by (simp add: marshal_map_def jsonb_members_map [symmetric] del: map_map)
  qed
  have d: "distinct (map fst (sort_key fst m))" using assms by (simp add: distinct_sort_key_map del: distinct_map)
  then have m: "?m = sort_key (\<lambda>kv. (length (fst kv), fst kv)) (sort_key fst m)"
    by (simp add: jsonb_members_def last_wins_distinct)
  have dm: "distinct (map fst ?m)" unfolding m using d by (simp add: distinct_sort_key_map del: distinct_map)
  have "unmarshal_map (jsonb_norm (marshal_map m)) = Some (last_wins ?m)"
    unfolding norm unmarshal_map_def by (simp add: those_members del: map_map)
  also have "last_wins ?m = ?m" by (rule last_wins_distinct [OF dm])
  finally have "unmarshal_map (jsonb_norm (marshal_map m)) = Some ?m" .
  moreover have "set ?m = set m" unfolding m by simp
  then have "map_of ?m = map_of m" using map_of_eqI_set [OF dm assms] by blast
  ultimately show ?thesis by blast
qed

theorem payload_roundtrip_witness:
  "\<exists>m'. unmarshal_map (jsonb_norm (marshal_map [(''bb'', ''1''), (''a'', ''2'')])) = Some m' \<and>
     map_of m' = map_of [(''bb'', ''1''), (''a'', ''2'')]"
  by (rule payload_roundtrip) simp

section \<open>Retention\<close>

lemma sweep_effect: "delete_old_inbox_effect t (delete_old_messages_effect u d) =
   d\<lparr>messages := filter (\<lambda>m. \<not> m_created m < u) (messages d), inbox := filter (\<lambda>m. \<not> im_created m < t) (inbox d),
     inbox_states := (\<lambda>(i, s). if i \<in> im_id ` (set (inbox d) - set (filter (\<lambda>m. \<not> im_created m < t) (inbox d)))
       then None else inbox_states d (i, s))\<rparr>"
  by (simp add: delete_old_inbox_effect_def delete_old_messages_effect_def Let_def case_prod_beta' cong: if_cong)

text \<open>C40: a sweep that runs removes exactly the system messages created more than two weeks and the inbox
  messages created more than six months before its transaction, with the read states of the latter, and
  touches nothing else: not the counters, so ids are not handed out again.\<close>

theorem sweep_removes_exactly:
  assumes "\<And>n. \<not> fault w n"
  shows "\<exists>states. db (RunCleaner [] w) = (db w)\<lparr>
      messages := filter (\<lambda>m. \<not> m_created m < two_weeks_before w (sql_now w)) (messages (db w)),
      inbox := filter (\<lambda>m. \<not> im_created m < six_months_before w (sql_now w)) (inbox (db w)),
      inbox_states := states\<rparr> \<and>
    (inbox_ok (db w) \<longrightarrow> (\<forall>x \<in> set (inbox (db w)). \<forall>s. states (im_id x, s) =
       (if im_created x < six_months_before w (sql_now w) then None else inbox_states (db w) (im_id x, s))))"
proof -
  let ?kept = "filter (\<lambda>m. \<not> im_created m < six_months_before w (sql_now w)) (inbox (db w))"
  let ?gone = "im_id ` (set (inbox (db w)) - set ?kept)"
  let ?states = "\<lambda>(i, s). if i \<in> ?gone then None else inbox_states (db w) (i, s)"
  have d: "db (RunCleaner [] w) = (db w)\<lparr>
      messages := filter (\<lambda>m. \<not> m_created m < two_weeks_before w (sql_now w)) (messages (db w)),
      inbox := ?kept, inbox_states := ?states\<rparr>"
    using removeOldMessages_Inr [OF assms]
    by (simp add: RunCleaner_def sweepOldMessages_def sweep_effect Let_def)
  have "im_id x \<in> ?gone \<longleftrightarrow> im_created x < six_months_before w (sql_now w)"
    if "inbox_ok (db w)" "x \<in> set (inbox (db w))" for x
    using that inbox_id_unique [OF that(1)] by force
  then show ?thesis using d by (intro exI [of _ ?states]) simp
qed

theorem sweep_removes_exactly_witness:
  "inbox (db (RunCleaner [] (snapshot (db pushed)))) = inbox (db pushed) \<and>
   messages (db (RunCleaner [] (snapshot (db messaged)))) = messages (db messaged) \<and>
   messages (db (RunCleaner [] ((snapshot (db messaged))\<lparr>sql_now := 20\<rparr>))) = []"
  using sweep_removes_exactly [of "snapshot (db pushed)"] sweep_removes_exactly [of "snapshot (db messaged)"]
    sweep_removes_exactly [of "(snapshot (db messaged))\<lparr>sql_now := 20\<rparr>"]
  by (auto simp: db_pushed insert_inbox_effect_def inbox_row_of_def sample_message_def empty_db_def snapshot_def)

end
