(* ===== verification/Store_Props.thy ===== *)
theory Store_Props
  imports Config_Service_Props Eventlog_Props Messages_Props
begin

text \<open>
  Properties of the store as a whole: whatever comes of whatever call, the tables keep their
  constraints, and a message that is pushed to an inbox arrives.
\<close>

section \<open>Every call, every outcome\<close>

text \<open>The writing operations of the store, run through any runner of the contract, with any result.\<close>

inductive store_call :: "world \<Rightarrow> world \<Rightarrow> bool" where
  "step_runner tx \<Longrightarrow> InsertMessage tx m w = (r, w') \<Longrightarrow> store_call w w'"
| "step_runner txi \<Longrightarrow> InsertInboxMessage txi im w = (ri, w') \<Longrightarrow> store_call w w'"
| "step_runner tx \<Longrightarrow> SetInboxMessageRead tx reader i b t w = (r, w') \<Longrightarrow> store_call w w'"
| "step_runner tx \<Longrightarrow> HideInboxMessage tx reader i t w = (r, w') \<Longrightarrow> store_call w w'"
| "w' = sweepOldMessages w \<Longrightarrow> store_call w w'"
| "step_runner tx \<Longrightarrow> UpdateDocument tx u w = (r, w') \<Longrightarrow> store_call w w'"
| "step_runner tx \<Longrightarrow> DeleteDocument tx ow ap ty ky by w = (r, w') \<Longrightarrow> store_call w w'"
| "step_runner tx \<Longrightarrow> SetProperties tx sortu ow us w = (r, w') \<Longrightarrow> store_call w w'"
| "step_runner tx \<Longrightarrow> DeleteProperties tx sortd ow ds w = (r, w') \<Longrightarrow> store_call w w'"
| "step_runner txi \<Longrightarrow> RegisterConfigGeneration txi sha f64 desc ss act w = (rg, w') \<Longrightarrow> store_call w w'"
| "step_runner tx \<Longrightarrow> ActivateConfigGeneration tx i w = (rg, w') \<Longrightarrow> store_call w w'"
| "step_runner tx \<Longrightarrow> UpdateDeprecation tx label enforced w = (r, w') \<Longrightarrow> store_call w w'"

lemma activate_steps:
  assumes "step_runner tx" "ActivateConfigGeneration tx i w = (r, w')"
  shows "store_step\<^sup>*\<^sup>* (db w) (db w')"
proof -
  obtain r1 w1 where 1: "tx (activateGeneration_tx i) w = (r1, w1)" by fastforce
  have steps: "store_step\<^sup>*\<^sup>* (db w) (db w1)" by (rule runner_steps [OF assms(1) 1]) (rule runner_bodies)+
  show ?thesis
    using 1 assms(2) steps GetConfigGeneration_db [of i w1 r w']
    by (cases r1) (simp_all add: ActivateConfigGeneration_def)
qed

lemma store_call_steps: "store_call w w' \<Longrightarrow> store_step\<^sup>*\<^sup>* (db w) (db w')"
  by (induction rule: store_call.induct)
    (auto simp: InsertMessage_def SetInboxMessageRead_def HideInboxMessage_def UpdateDocument_def DeleteDocument_def
      SetProperties_def DeleteProperties_def UpdateDeprecation_def
      intro: runner_steps runner_bodies inbox_push_steps sweep_steps RegisterConfigGeneration_steps activate_steps)

section \<open>References to users\<close>

text \<open>Whoever owns a document or a property, receives a system message or has a lock row for one is a known user.\<close>

definition users_ok :: "db \<Rightarrow> bool" where
  "users_ok d \<longleftrightarrow> m_recipient ` set (messages d) \<subseteq> dom (users d) \<and> fst ` dom (write_locks d) \<subseteq> dom (users d) \<and>
     d_owner ` set (documents d) \<subseteq> dom (users d) \<and> p_owner ` set (properties d) \<subseteq> dom (users d)"

lemma users_ok_empty: "users_ok empty_db"
  by (simp add: users_ok_def empty_db_def)

lemma users_ok_logged [simp]: "users_ok (logged clk p es d) = users_ok d"
  by (simp add: users_ok_def)

lemma put_row_image: "f r \<in> A \<Longrightarrow> f ` set rows \<subseteq> A \<Longrightarrow> f ` set (put_row key r rows) \<subseteq> A"
  using set_put_row_subset [of key r rows] by blast

lemma drop_row_image: "f ` set rows \<subseteq> A \<Longrightarrow> f ` set (drop_row key k rows) \<subseteq> A"
  by (auto simp: drop_row_def)

lemma put_properties_owner:
  "ow \<in> A \<Longrightarrow> p_owner ` set rows \<subseteq> A \<Longrightarrow> p_owner ` set (fold (put_property ow now) us rows) \<subseteq> A"
  by (induction us arbitrary: rows) (simp_all add: put_property_def put_row_image)

lemma drop_properties_owner: "p_owner ` set rows \<subseteq> A \<Longrightarrow> p_owner ` set (drop_properties ow ds rows) \<subseteq> A"
  by (induction ds arbitrary: rows) (simp_all add: drop_properties_def drop_row_image)

lemma updated_document_owner: "d_owner (updated_document u now d) = du_Owner u"
  by (auto simp: updated_document_def Let_def dest: row_at_SomeD split: option.splits)

lemma users_ok_effect:
  assumes "store_effect d d'" "users_ok d"
  shows "users_ok d'"
  using assms
proof (cases rule: store_effect.cases)
  case (system_pushed m)
  have "fst ` dom ((write_locks d)((msg_Recipient m, ''system'') \<mapsto> i)) \<subseteq> insert (msg_Recipient m) (dom (users d))" for i
    using assms(2) by (auto simp: users_ok_def image_subset_iff)
  then show ?thesis unfolding system_pushed
    using assms(2) by (auto simp: users_ok_def insert_message_effect_def Let_def system_row_def dom_with_user simp del: fun_upd_apply)
next
  case (messages_swept cutoff)
  then show ?thesis using assms(2) by (auto simp: users_ok_def delete_old_messages_effect_def)
next
  case (document_updated u created now clk p)
  have "d_owner ` set (put_row doc_key (updated_document u now d) (documents d)) \<subseteq> insert (du_Owner u) (dom (users d))"
    using assms(2) by (intro put_row_image) (auto simp: updated_document_owner users_ok_def)
  then show ?thesis unfolding document_updated update_document_effect_def
    using assms(2) by (simp add: users_ok_def put_document_def dom_with_user subset_insertI2)
next
  case (document_deleted ow ap ty ky "by" clk p)
  have "d_owner ` set (drop_row doc_key (ow, ap, ty, ky) (documents d)) \<subseteq> dom (users d)"
    using assms(2) by (intro drop_row_image) (simp add: users_ok_def)
  then show ?thesis unfolding document_deleted delete_document_effect_def using assms(2) by (simp add: users_ok_def)
next
  case (properties_set ow us created now clk p)
  have "p_owner ` set (fold (put_property ow now) us (properties d)) \<subseteq> insert ow (dom (users d))"
    using assms(2) by (intro put_properties_owner) (simp_all add: users_ok_def subset_insertI2)
  then show ?thesis unfolding properties_set set_properties_effect_def
    using assms(2) by (simp add: users_ok_def dom_with_user subset_insertI2)
next
  case (properties_deleted ow ds clk p)
  have "p_owner ` set (drop_properties ow ds (properties d)) \<subseteq> dom (users d)"
    using assms(2) by (intro drop_properties_owner) (simp add: users_ok_def)
  then show ?thesis unfolding properties_deleted delete_properties_effect_def using assms(2) by (simp add: users_ok_def)
next
  case configured
  then show ?thesis using assms(2) by (simp add: config_step_def config_frame_def users_ok_def)
qed (use assms(2) in \<open>simp_all add: effect_defs users_ok_def\<close>)

lemma reachable_users_ok: "reachable d \<Longrightarrow> users_ok d"
  unfolding reachable_def
  by (induction rule: rtranclp_induct) (auto intro: users_ok_empty users_ok_effect store_step_effect)

section \<open>Every call leaves good tables\<close>

text \<open>C21: any call, succeeding or failing at any statement, alone or among others, leaves tables that meet the
  constraints of the schema and the numbering the store relies on: keys are unique; the ids of system messages, inbox
  messages and generations are positive and at most the counter they are drawn from, the eventlog is numbered
  from one to its counter without a gap, versions are positive; and every reference resolves, those of read states,
  of the schemas of a generation, and of messages, lock rows, documents and properties to their users.\<close>

theorem tables_well_formed:
  assumes "reachable (db w)" "store_call w w'"
  shows "reachable (db w') \<and>
    distinct (map (\<lambda>m. (m_recipient m, m_id m)) (messages (db w'))) \<and>
    (\<forall>m \<in> set (messages (db w')). \<exists>c. write_locks (db w') (m_recipient m, ''system'') = Some c \<and> 1 \<le> m_id m \<and> m_id m \<le> c) \<and>
    distinct (map im_id (inbox (db w'))) \<and> distinct (map im_key (inbox (db w'))) \<and>
    (\<exists>c. counters (db w') sequenceInbox = Some c \<and> (\<forall>m \<in> set (inbox (db w')). 1 \<le> im_id m \<and> im_id m \<le> c)) \<and>
    (\<forall>i s. inbox_states (db w') (i, s) \<noteq> None \<longrightarrow> i \<in> im_id ` set (inbox (db w'))) \<and>
    distinct (map doc_key (documents (db w'))) \<and> distinct (map prop_key (properties (db w'))) \<and>
    (\<forall>r \<in> set (documents (db w')). 1 \<le> d_version r) \<and>
    (\<exists>c. counters (db w') sequenceEventLog = Some c \<and> map ev_id (eventlog (db w')) = [1..c]) \<and>
    distinct (map ev_id (eventlog (db w'))) \<and>
    distinct (map schema_key (schemas (db w'))) \<and> distinct (map cg_id (generations (db w'))) \<and>
    distinct (map cg_identity_hash (generations (db w'))) \<and>
    (\<forall>g \<in> set (generations (db w')). 1 \<le> cg_id g \<and> cg_id g \<le> generation_seq (db w')) \<and>
    (\<forall>r \<in> set (generation_schemas (db w')). cgs_generation_id r \<in> cg_id ` set (generations (db w')) \<and>
      cgs_ref r \<in> schema_key ` set (schemas (db w'))) \<and>
    (\<forall>m \<in> set (messages (db w')). m_recipient m \<in> dom (users (db w'))) \<and>
    (\<forall>k \<in> dom (write_locks (db w')). fst k \<in> dom (users (db w'))) \<and>
    (\<forall>r \<in> set (documents (db w')). d_owner r \<in> dom (users (db w'))) \<and>
    (\<forall>r \<in> set (properties (db w')). p_owner r \<in> dom (users (db w')))"
proof -
  have r: "reachable (db w')" by (rule reachable_steps [OF assms(1) store_call_steps [OF assms(2)]])
  have ok: "system_ok (db w')" "inbox_ok (db w')" "settings_ok (db w')" "config_ok (db w')"
    using reachable_ok [OF r] by (simp_all add: store_ok_def)
  have gens: "distinct (map cg_id (generations (db w')))" "distinct (map cg_identity_hash (generations (db w')))"
    "\<forall>g \<in> set (generations (db w')). 1 \<le> cg_id g \<and> cg_id g \<le> generation_seq (db w')"
    using ok(4) by (auto simp: config_ok_def dest: generations_okD(1,2,4,5))
  have own: "(\<forall>m \<in> set (messages (db w')). m_recipient m \<in> dom (users (db w'))) \<and>
    (\<forall>k \<in> dom (write_locks (db w')). fst k \<in> dom (users (db w'))) \<and>
    (\<forall>r \<in> set (documents (db w')). d_owner r \<in> dom (users (db w'))) \<and>
    (\<forall>r \<in> set (properties (db w')). p_owner r \<in> dom (users (db w')))"
    using reachable_users_ok [OF r] unfolding users_ok_def image_subset_iff by (intro conjI) simp_all
  show ?thesis
    unfolding conj_assoc [symmetric] using r ok gens own
    by (auto simp: system_ok_def inbox_ok_def settings_ok_def eventlog_ok_def config_ok_def refs_ok_def
        simp del: distinct_map)
qed

theorem tables_well_formed_witness:
  "reachable (db pushed) \<and> distinct (map im_key (inbox (db pushed))) \<and>
   (\<exists>c. counters (db pushed) sequenceInbox = Some c \<and> (\<forall>m \<in> set (inbox (db pushed)). 1 \<le> im_id m \<and> im_id m \<le> c))"
proof -
  have "store_call (snapshot empty_db) pushed" by (rule store_call.intros(2) [OF run_tx_step_runner sample_push])
  from tables_well_formed [OF _ this] show ?thesis by (simp add: reachable_empty)
qed

section \<open>What is pushed arrives\<close>

text \<open>C22: with a database that answers, a push of a uuid the recipient has no message with succeeds, and every reader
  the message is addressed to finds it in the first page it asks for from there, whatever the size of the page.\<close>

theorem push_inbox_delivered:
  assumes "reachable (db w)" "fault w = (\<lambda>_. False)" "inbox_top (db w) < max_bigint"
    and "(ib_Recipient m, ib_UUID m) \<notin> im_key ` set (inbox (db w))"
    and "ib_Recipient m \<in> set (ir_Owners reader)" "0 < n"
  shows "\<exists>i w'. InsertInboxMessage run_tx m w = (Inr i, w') \<and>
    (\<forall>w2. db w2 = db w' \<and> \<not> fault w2 (pos w2) \<longrightarrow>
      (\<exists>msgs w3. ListInboxMessagesAfterID reader (i - 1) n w2 = (Inr msgs, w3) \<and> i \<in> ib_ID ` set msgs))"
proof -
  have ok: "inbox_ok (db w)" by (rule reachable_inbox_ok [OF assms(1)])
  then obtain v where v: "counters (db w) sequenceInbox = Some v" "0 \<le> v" "\<forall>x \<in> set (inbox (db w)). im_id x \<le> v"
    by (auto simp: inbox_ok_def)
  have big: "in_bigint (v + 1)" using assms(3) v by (intro in_bigint_intro) (simp_all add: inbox_top_def)
  have new: "v + 1 \<notin> im_id ` set (inbox (db w))" using v(3) by force
  have "row_at im_key (ib_Recipient m, ib_UUID m) (inbox (db w)) = None" using assms(4) unfolding row_at_None .
  then have look: "existingInboxMessage (ib_Payload m) (ib_Recipient m) (ib_UUID m) w = (Inr None, step_to (db w) w)"
    using assms(2) by (simp add: existingInboxMessage_Inr)
  obtain w' where w': "InsertInboxMessage_tx m (step_to (db w) w) = (Inr (v + 1), w')" "db w' = insert_inbox_effect m (v + 1) (db w)"
    using InsertInboxMessage_tx_total [of "step_to (db w) w" v m] assms(2,4) v(1) big new by auto
  have push: "InsertInboxMessage run_tx m w = (Inr (v + 1), w')"
    using look w'(1) by (simp add: InsertInboxMessage_def run_tx_def)
  let ?row = "inbox_row_of m (v + 1)" and ?rows = "inbox_rows reader (db w')"
  have "inbox_states (db w) (v + 1, ir_Subject reader) = None" using ok new unfolding inbox_ok_def by blast
  then have row: "?row \<in> set ?rows" "im_id ?row = v + 1"
    using assms(5) by (simp_all add: inbox_rows_def w'(2) insert_inbox_effect_def inbox_row_of_def state_hidden_def)
  have ok': "inbox_ok (db w')"
    by (rule reachable_inbox_ok [OF reachable_steps [OF assms(1) inbox_push_steps [OF run_tx_step_runner push]]])
  let ?page = "page_after im_id ?rows (v + 1 - 1) n"
  have "?row \<in> set ?page"
  proof (rule ccontr)
    assume "?row \<notin> set ?page"
    then have "?page \<noteq> [] \<and> (\<forall>y \<in> set ?page. im_id y < v + 1)"
      using inbox_stream.fetch_complete [OF ok' assms(6) row(1), of "v + 1 - 1"] row(2) by simp
    then obtain y where "y \<in> set ?page" "im_id y < v + 1" using hd_in_set by blast
    then show False using inbox_stream.fetch_sound [of y reader "db w'" "v + 1 - 1" n] by simp
  qed
  then have "v + 1 \<in> ib_ID ` set (map (inbox_seen reader (db w')) ?page)"
    using row(2) by (force simp: inbox_seen_def inbox_message_of_row_def)
  then show ?thesis
    using push assms(6) by (intro exI [of _ "v + 1"] exI [of _ w']) (simp add: ListInboxMessagesAfterID_Inr)
qed

theorem push_inbox_delivered_witness:
  "\<exists>w2 msgs w3. db w2 = db pushed \<and> ListInboxMessagesAfterID (inboxReader sample_user) 0 1 w2 = (Inr msgs, w3) \<and> 1 \<in> ib_ID ` set msgs"
proof -
  have top: "inbox_top (db (snapshot empty_db)) < max_bigint" by (simp add: empty_db_def inbox_top_def max_bigint_def)
  have quiet: "fault (snapshot empty_db) = (\<lambda>_. False)" by (simp add: snapshot_def)
  have fresh: "(ib_Recipient sample_message, ib_UUID sample_message) \<notin> im_key ` set (inbox (db (snapshot empty_db)))"
    by (simp add: empty_db_def)
  have mine: "ib_Recipient sample_message \<in> set (ir_Owners (inboxReader sample_user))"
    by (simp add: sample_message_def inboxReader_def getAllOwners_def sample_user_def)
  obtain i w' where "InsertInboxMessage run_tx sample_message (snapshot empty_db) = (Inr i, w')"
    and deliver: "db w2 = db w' \<Longrightarrow> \<not> fault w2 (pos w2) \<Longrightarrow>
      \<exists>msgs w3. ListInboxMessagesAfterID (inboxReader sample_user) (i - 1) 1 w2 = (Inr msgs, w3) \<and> i \<in> ib_ID ` set msgs" for w2
    using push_inbox_delivered [OF _ quiet top fresh mine zero_less_one] reachable_empty by (metis snapshot_simps(1))
  then have "i = 1" "w' = pushed" using sample_push by auto
  then have "\<exists>msgs w3. ListInboxMessagesAfterID (inboxReader sample_user) 0 1 (snapshot (db pushed)) = (Inr msgs, w3) \<and> 1 \<in> ib_ID ` set msgs"
    using deliver [of "snapshot (db pushed)"] by simp
  then show ?thesis by (intro exI [of _ "snapshot (db pushed)"]) simp
qed

end
