(* ===== verification/Notifications.thy ===== *)
theory Notifications
  imports Store_Props
begin

text \<open>
  What a commit announces: every row that becomes readable in one of the three streams is sent to
  the channel of the stream in the transaction that wrote it, so that the predicates the long polls
  wait with (\<open>OnMessageUpdate\<close>, \<open>OnInboxMessageUpdate\<close>, \<open>OnEventLogUpdate\<close>) let it through.
\<close>

definition announced :: "db \<Rightarrow> db \<Rightarrow> (notify_channel \<times> event) set" where
  "announced d d' = set (drop (length (outbox d)) (outbox d'))"

lemma announced_append: "outbox d' = outbox d @ evs \<Longrightarrow> announced d d' = set evs"
  by (simp add: announced_def)

lemma system_announced:
  assumes "store_effect d d'" "m \<in> set (messages d')" "m \<notin> set (messages d)"
  shows "(NotifyChannelMessageUpdate, MessageEvent \<lparr>me_ID = m_id m, me_Recipient = m_recipient m\<rparr>) \<in> announced d d'"
  using assms(1)
proof (cases rule: store_effect.cases)
  case (system_pushed x)
  then show ?thesis using assms(2,3) by (simp add: announced_def effect_defs system_row_def)
next
  case configured
  then show ?thesis using assms(2,3) by (simp add: config_step_def config_frame_def)
qed (use assms(2,3) in \<open>simp_all add: effect_defs\<close>)

lemma inbox_announced:
  assumes "store_effect d d'" "m \<in> set (inbox d')" "m \<notin> set (inbox d)"
  shows "(NotifyChannelInboxMessageUpdate, MessageEvent \<lparr>me_ID = im_id m, me_Recipient = im_recipient m\<rparr>) \<in> announced d d'"
  using assms(1)
proof (cases rule: store_effect.cases)
  case (inbox_pushed v x)
  then show ?thesis using assms(2,3) by (simp add: announced_def effect_defs inbox_row_of_def)
next
  case configured
  then show ?thesis using assms(2,3) by (simp add: config_step_def config_frame_def)
qed (use assms(2,3) in \<open>simp_all add: effect_defs\<close>)

lemma logged_announced:
  assumes "x \<in> set (eventlog (logged clk p es e))" "x \<notin> set (eventlog e)"
  shows "log_notification x \<in> set (drop (length (outbox e)) (outbox (logged clk p es e)))"
  using assms by (auto simp: logged_def append_log_def Let_def split: if_splits)

lemma event_announced:
  assumes "store_effect d d'" "x \<in> set (eventlog d')" "x \<notin> set (eventlog d)"
  shows "log_notification x \<in> announced d d'"
proof -
  have grown: ?thesis if "d' = logged clk p es e" "eventlog e = eventlog d" "outbox e = outbox d" for clk p es e
    using that logged_announced [of x clk p es e] assms(2,3) by (simp add: announced_def)
  from assms(1) show ?thesis
  proof (cases rule: store_effect.cases)
    case document_updated
    then show ?thesis unfolding update_document_effect_def by (rule grown) (simp_all add: put_document_def)
  next
    case (document_deleted ow ap ty ky "by" clk p)
    show ?thesis
    proof (cases "row_at doc_key (ow, ap, ty, ky) (documents d) = None")
      case True
      with document_deleted show ?thesis using assms(2,3) by (simp add: delete_document_effect_def)
    next
      case False
      with document_deleted have "d' = logged clk p [document_event ow EventTypeDelete ap ty ky None by]
          (d\<lparr>documents := drop_row doc_key (ow, ap, ty, ky) (documents d)\<rparr>)"
        unfolding delete_document_effect_def by (simp only: if_False)
      then show ?thesis by (rule grown) simp_all
    qed
  next
    case properties_set
    then show ?thesis unfolding set_properties_effect_def by (rule grown) simp_all
  next
    case properties_deleted
    then show ?thesis unfolding delete_properties_effect_def by (rule grown) simp_all
  next
    case configured
    then show ?thesis using assms(2,3) by (simp add: config_step_def config_frame_def)
  qed (use assms(2,3) in \<open>simp_all add: effect_defs\<close>)
qed

text \<open>A poll that waits is woken by the commit it waits for: when a transaction makes a message or an eventlog
  entry past the poll's cursor readable to the caller, it announces an event the poll's predicate lets through.\<close>

lemma commit_wakes_polls:
  assumes "reachable d" "store_step d d'"
  shows "(\<forall>m \<in> set (system_rows r d') - set (system_rows r d). after < m_id m \<longrightarrow>
      (\<exists>e. (NotifyChannelMessageUpdate, MessageEvent e) \<in> announced d d' \<and> OnMessageUpdate r after e)) \<and>
    (\<forall>m \<in> set (inbox_rows reader d') - set (inbox_rows reader d). after < im_id m \<longrightarrow>
      (\<exists>e. (NotifyChannelInboxMessageUpdate, MessageEvent e) \<in> announced d d' \<and> OnInboxMessageUpdate reader after e)) \<and>
    (\<forall>x \<in> set (eventlog_rows owners d') - set (eventlog_rows owners d). after < ev_id x \<longrightarrow>
      (\<exists>e. (NotifyChannelEventLogUpdate, EventLogEvent e) \<in> announced d d' \<and> OnEventLogUpdate owners after e))"
proof (intro conjI ballI impI)
  note eff = store_step_effect [OF assms(2)]
  fix m assume m: "m \<in> set (system_rows r d') - set (system_rows r d)" "after < m_id m"
  then have "m \<in> set (messages d')" "m \<notin> set (messages d)" "m_recipient m = r" by (auto simp: system_rows_def)
  then show "\<exists>e. (NotifyChannelMessageUpdate, MessageEvent e) \<in> announced d d' \<and> OnMessageUpdate r after e"
    using system_announced [OF eff, of m] m(2) by (intro exI conjI) (auto simp: OnMessageUpdate_def)
next
  note eff = store_step_effect [OF assms(2)]
  fix m assume m: "m \<in> set (inbox_rows reader d') - set (inbox_rows reader d)" "after < im_id m"
  then have new: "m \<in> set (inbox d')" "im_recipient m \<in> set (ir_Owners reader)" by (auto simp: inbox_rows_def)
  have "m \<notin> set (inbox d)"
    using hidden_step [OF eff _ new(1) _ reachable_inbox_ok [OF assms(1)]] m(1) by (auto simp: inbox_rows_def)
  then show "\<exists>e. (NotifyChannelInboxMessageUpdate, MessageEvent e) \<in> announced d d' \<and> OnInboxMessageUpdate reader after e"
    using inbox_announced [OF eff new(1)] new(2) m(2) by (intro exI conjI) (auto simp: OnInboxMessageUpdate_def)
next
  note eff = store_step_effect [OF assms(2)]
  fix x assume x: "x \<in> set (eventlog_rows owners d') - set (eventlog_rows owners d)" "after < ev_id x"
  then have "x \<in> set (eventlog d')" "x \<notin> set (eventlog d)" "ev_owner x \<in> set owners" by (auto simp: eventlog_rows_def)
  then show "\<exists>e. (NotifyChannelEventLogUpdate, EventLogEvent e) \<in> announced d d' \<and> OnEventLogUpdate owners after e"
    using event_announced [OF eff, of x] x(2) unfolding log_notification_def by (intro exI conjI) (auto simp: OnEventLogUpdate_def)
qed

end
