(* ===== verification/Channels.thy ===== *)
theory Channels
  imports Notifications
begin

text \<open>
  From the notification channels to the listeners: the fan-outs of \<open>NewPGStore\<close>, one per channel and
  typed with the payload it decodes, and the subscriber of \<open>NewSubscriber\<close> that feeds them
  (\<open>internal/store.go\<close>). The fan-out itself is third party. Every notification any transaction sends
  reaches exactly the fan-out that decodes its payload, and the outbox only ever grows.
\<close>

section \<open>Fan-outs\<close>

datatype event_kind = MessageKind | InboxStateKind | EventLogKind | SchemaKind | DeprecationKind

fun payload_kind :: "event \<Rightarrow> event_kind" where
  "payload_kind (MessageEvent e) = MessageKind"
| "payload_kind (InboxStateEvent e) = InboxStateKind"
| "payload_kind (EventLogEvent e) = EventLogKind"
| "payload_kind (SchemaEvent e) = SchemaKind"
| "payload_kind (DeprecationEvent e) = DeprecationKind"

record fan_out =
  fo_channel :: notify_channel
  fo_kind :: event_kind

definition NewFanOut :: "event_kind \<Rightarrow> notify_channel \<Rightarrow> fan_out" where
  "NewFanOut kind channel = \<lparr>fo_channel = channel, fo_kind = kind\<rparr>"

record pg_store =
  ps_Messages :: fan_out
  ps_InboxMessages :: fan_out
  ps_InboxStates :: fan_out
  ps_EventLog :: fan_out
  ps_Schemas :: fan_out
  ps_Deprecations :: fan_out

definition NewPGStore :: pg_store where
  "NewPGStore = \<lparr>
     ps_Messages = NewFanOut MessageKind NotifyChannelMessageUpdate,
     ps_InboxMessages = NewFanOut MessageKind NotifyChannelInboxMessageUpdate,
     ps_InboxStates = NewFanOut InboxStateKind NotifyChannelInboxStateUpdate,
     ps_EventLog = NewFanOut EventLogKind NotifyChannelEventLogUpdate,
     ps_Schemas = NewFanOut SchemaKind NotifyChannelSchemaUpdate,
     ps_Deprecations = NewFanOut DeprecationKind NotifyChannelDeprecationUpdate\<rparr>"

definition NewSubscriber :: "pg_store \<Rightarrow> fan_out list" where
  "NewSubscriber s =
     [ps_Messages s, ps_InboxMessages s, ps_InboxStates s, ps_EventLog s, ps_Schemas s, ps_Deprecations s]"

text \<open>The fan-outs a notification is handed to.\<close>

definition fed :: "pg_store \<Rightarrow> notify_channel \<times> event \<Rightarrow> fan_out list" where
  "fed s x = filter (\<lambda>f. fo_channel f = fst x) (NewSubscriber s)"

definition well_addressed :: "notify_channel \<times> event \<Rightarrow> bool" where
  "well_addressed x \<longleftrightarrow> map fo_kind (fed NewPGStore x) = [payload_kind (snd x)]"

lemma channel_kinds [simp]:
  "well_addressed (NotifyChannelMessageUpdate, e) \<longleftrightarrow> payload_kind e = MessageKind"
  "well_addressed (NotifyChannelInboxMessageUpdate, e) \<longleftrightarrow> payload_kind e = MessageKind"
  "well_addressed (NotifyChannelInboxStateUpdate, e) \<longleftrightarrow> payload_kind e = InboxStateKind"
  "well_addressed (NotifyChannelEventLogUpdate, e) \<longleftrightarrow> payload_kind e = EventLogKind"
  "well_addressed (NotifyChannelSchemaUpdate, e) \<longleftrightarrow> payload_kind e = SchemaKind"
  "well_addressed (NotifyChannelDeprecationUpdate, e) \<longleftrightarrow> payload_kind e = DeprecationKind"
  by (auto simp: well_addressed_def fed_def NewSubscriber_def NewPGStore_def NewFanOut_def)

section \<open>What a commit sends\<close>

definition posts :: "db \<Rightarrow> db \<Rightarrow> bool" where
  "posts d d' \<longleftrightarrow> (\<exists>es. outbox d' = outbox d @ es \<and> (\<forall>x \<in> set es. well_addressed x))"

text \<open>The active generation, by its id, and what a step that changes it has to send.\<close>

definition active_cg_id :: "db \<Rightarrow> int option" where
  "active_cg_id d = map_option cg_id (active_generation d)"

abbreviation activation_notice :: "notify_channel \<times> event" where
  "activation_notice \<equiv> (NotifyChannelSchemaUpdate, SchemaEvent ''activated'')"

definition step_announces :: "db \<Rightarrow> db \<Rightarrow> bool" where
  "step_announces d d' \<longleftrightarrow> posts d d' \<and> (active_cg_id d' = active_cg_id d \<or> activation_notice \<in> announced d d')"

lemma announces_none: "outbox d' = outbox d \<Longrightarrow> active_cg_id d' = active_cg_id d \<Longrightarrow> step_announces d d'"
  by (simp add: step_announces_def posts_def)

lemma announces_activation: "outbox d' = outbox d @ [activation_notice] \<Longrightarrow> step_announces d d'"
  by (simp add: step_announces_def posts_def announced_def)

lemma announces_one:
  "outbox d' = outbox d @ [x] \<Longrightarrow> well_addressed x \<Longrightarrow> generations d' = generations d \<Longrightarrow> step_announces d d'"
  by (simp add: step_announces_def posts_def active_cg_id_def active_generation_def)

lemma announces_logged:
  "outbox d' = outbox d \<Longrightarrow> generations d' = generations d \<Longrightarrow> step_announces d (logged clk p es d')"
  by (auto simp: step_announces_def posts_def active_cg_id_def active_generation_def logged_def append_log_def log_notification_def)

lemma find_append: "find P (xs @ ys) = (case find P xs of None \<Rightarrow> find P ys | Some x \<Rightarrow> Some x)"
  by (induction xs) auto

lemma schemas_added_outbox: "schemas_added d d' \<Longrightarrow> outbox d' = outbox d \<and> generations d' = generations d"
  by (auto simp: schemas_added_def)

lemma active_insert: "active_generation (insert_generation_effect h desc ss now d) = active_generation d"
  by (simp add: active_generation_def insert_generation_effect_def new_generation_def find_append split: option.splits)

text \<open>
  A configuration transaction either leaves the active generation alone and sends nothing, or
  announces the activation.
\<close>

lemma registration_posts:
  assumes "registerConfigGeneration_tx f64 desc ss activate h w = (Inr i, w')"
  shows "outbox (db w') = outbox (db w) \<and> active_generation (db w') = active_generation (db w) \<or>
    outbox (db w') = outbox (db w) @ [(NotifyChannelSchemaUpdate, SchemaEvent ''activated'')]"
proof -
  obtain w1 w2 :: world and row where 1: "schemas_added (db w) (db w1)"
    and 2: "row_at cg_identity_hash h (generations (db w1)) = Some row \<and> db w2 = db w1 \<or>
     row_at cg_identity_hash h (generations (db w1)) = None \<and>
       row = new_generation h desc (sql_now w1) (db w1) \<and>
       db w2 = insert_generation_effect h desc ss (sql_now w1) (db w1) \<and> config_step (db w1) (db w2)"
    and 3: "if activate \<and> \<not> cg_active row
     then db w' = (activate_effect i (sql_now w2) (db w2))\<lparr>outbox := outbox (db w2) @ [(NotifyChannelSchemaUpdate, SchemaEvent ''activated'')]\<rparr>
     else db w' = db w2"
    by (rule registerConfigGeneration_tx_phases [OF assms])
  have "outbox (db w2) = outbox (db w) \<and> active_generation (db w2) = active_generation (db w)"
    using 2 schemas_added_outbox [OF 1] active_insert
    by (auto simp: active_generation_def insert_generation_effect_def new_generation_def find_append split: option.splits)
  then show ?thesis using 3 by (auto split: if_splits)
qed

lemma activation_posts:
  assumes "activateGeneration_tx i w = (Inr a, w')"
  shows "db w' = db w \<or> outbox (db w') = outbox (db w) @ [(NotifyChannelSchemaUpdate, SchemaEvent ''activated'')]"
  using activateGeneration_tx_effect [OF assms] by (auto split: if_splits)

lemma step_announces:
  assumes "store_step d d'"
  shows "step_announces d d'"
  using assms
proof (cases rule: store_step.cases)
  case (register f64 desc ss act h w i w')
  show ?thesis using registration_posts [OF register(3)] unfolding register(1,2)
    by (auto intro: announces_none announces_activation simp: active_cg_id_def)
next
  case (activate i w a w')
  show ?thesis using activation_posts [OF activate(3)] unfolding activate(1,2)
    by (auto intro: announces_none announces_activation)
next
  case (deprecate label enforced w a w')
  show ?thesis unfolding deprecate(1,2)
    by (rule announces_one [where x = "(NotifyChannelDeprecationUpdate, DeprecationEvent label)"])
      (simp_all add: UpdateDeprecation_tx_effect [OF deprecate(3)])
next
  case (sequence_gap n)
  then show ?thesis by (simp add: announces_none active_cg_id_def active_generation_def)
next
  case (push_message m w a w')
  show ?thesis unfolding push_message(1,2) InsertMessage_tx_effect(1) [OF push_message(3)]
    by (rule announces_one, simp add: insert_message_effect_def Let_def) (simp_all add: insert_message_effect_def Let_def)
next
  case (push_inbox im w i w')
  show ?thesis unfolding push_inbox(1,2) InsertInboxMessage_tx_effect(1) [OF push_inbox(3)]
    by (rule announces_one, simp add: insert_inbox_effect_def) (simp_all add: insert_inbox_effect_def)
next
  case (set_read reader i b t w a w')
  show ?thesis using SetInboxMessageRead_tx_effect [OF set_read(3)] unfolding set_read(1,2)
    by (auto intro!: announces_one simp: set_read_effect_def)
next
  case (hide reader i t w a w')
  show ?thesis using HideInboxMessage_tx_effect [OF hide(3)] unfolding hide(1,2)
    by (auto intro!: announces_one simp: hide_effect_def)
next
  case (sweep_messages w a w')
  then show ?thesis by (auto intro!: announces_none simp: q_DeleteOldMessages_eq delete_old_messages_effect_def
        active_cg_id_def active_generation_def split: if_splits)
next
  case (sweep_inbox w a w')
  then show ?thesis by (auto intro!: announces_none simp: q_DeleteOldInboxMessages_eq delete_old_inbox_effect_def Let_def
        active_cg_id_def active_generation_def split: if_splits)
next
  case (update_document u w a w')
  show ?thesis unfolding update_document(1,2) UpdateDocument_tx_effect(1) [OF update_document(3)]
    unfolding settings_effects by (rule announces_logged) (simp_all add: put_document_def)
next
  case (delete_document ow ap ty ky "by" w a w')
  show ?thesis unfolding delete_document(1,2) DeleteDocument_tx_effect [OF delete_document(3)]
    unfolding settings_effects by (auto intro: announces_logged announces_none)
next
  case (set_properties sortu ow us w a w')
  show ?thesis unfolding set_properties(1,2) SetProperties_tx_effect(1) [OF set_properties(3)]
    unfolding settings_effects by (rule announces_logged) simp_all
next
  case (delete_properties sortd ow ds w a w')
  show ?thesis unfolding delete_properties(1,2) DeleteProperties_tx_effect [OF delete_properties(3)]
    unfolding settings_effects by (rule announces_logged) simp_all
qed

lemma step_posts: "store_step d d' \<Longrightarrow> \<exists>es. outbox d' = outbox d @ es \<and> (\<forall>x \<in> set es. well_addressed x)"
  using step_announces by (simp add: step_announces_def posts_def)

lemma active_cg_id_announced: "store_step d d' \<Longrightarrow> active_cg_id d' \<noteq> active_cg_id d \<Longrightarrow> activation_notice \<in> announced d d'"
  using step_announces by (auto simp: step_announces_def)

lemma reachable_addressed: "reachable d \<Longrightarrow> x \<in> set (outbox d) \<Longrightarrow> well_addressed x"
  unfolding reachable_def
proof (induction rule: rtranclp_induct)
  case base
  then show ?case by (simp add: empty_db_def)
next
  case (step d e)
  then show ?case using step_posts [OF step.hyps(2)] by auto
qed

lemma step_pushed: "store_step empty_db (db pushed)"
proof -
  have "counters empty_db sequenceInbox = Some 0" "inbox empty_db = []" by (simp_all add: empty_db_def sequenceInbox_def)
  then obtain w' where w': "InsertInboxMessage_tx sample_message (snapshot empty_db) = (Inr 1, w')" "db w' = db pushed"
    using InsertInboxMessage_tx_total [of "snapshot empty_db" 0 sample_message] by (auto simp: db_pushed)
  then show ?thesis using store_step.push_inbox [OF w'(1)] by simp
qed

lemma outbox_pushed: "outbox (db pushed) = [(NotifyChannelInboxMessageUpdate, MessageEvent \<lparr>me_ID = 1, me_Recipient = ''u''\<rparr>)]"
  by (simp add: db_pushed insert_inbox_effect_def sample_message_def empty_db_def)

text \<open>C38: whatever a transaction announces arrives as what it is: every notification sent in a reachable database
  is handed to exactly one of the subscribed fan-outs, and that fan-out decodes its kind of payload.\<close>

theorem notifications_typed:
  assumes "reachable d" "x \<in> set (outbox d)"
  shows "map fo_kind (filter (\<lambda>f. fo_channel f = fst x) (NewSubscriber NewPGStore)) = [payload_kind (snd x)]"
  using reachable_addressed [OF assms] by (simp add: well_addressed_def fed_def)

theorem notifications_typed_witness:
  "map fo_kind (filter (\<lambda>f. fo_channel f = NotifyChannelInboxMessageUpdate) (NewSubscriber NewPGStore)) = [MessageKind]"
  using notifications_typed [OF reachable_step [OF reachable_empty step_pushed], of "hd (outbox (db pushed))"]
  by (simp add: outbox_pushed)

end
