(* ===== verification/Polling.thy ===== *)
theory Polling
  imports Channels Eventlog_Props
begin

text \<open>
  A call that waits, with its listener: \<open>PollMessages\<close>, \<open>PollInboxMessages\<close>, \<open>PollEventLog\<close> and
  \<open>waitForGenerationChange\<close> start a listener in a goroutine, read the store, and wait on a channel of
  capacity one when there was nothing to read. Here the goroutine, the commits of other calls and the
  delivery of notifications take their steps in any order, to see when a call is woken.
\<close>

section \<open>The calls that wait\<close>

datatype poll =
    PollSystem string
  | PollInbox inbox_reader
  | PollLog "string list"
  | AwaitGeneration

text \<open>The fan-out a call listens to (\<open>Listen\<close>, \<open>ListenAll\<close>) and the events its listener lets through.\<close>

definition OnSchemaUpdate :: "string \<Rightarrow> bool" where
  "OnSchemaUpdate e = True"

fun poll_fan_out :: "pg_store \<Rightarrow> poll \<Rightarrow> fan_out" where
  "poll_fan_out s (PollSystem recipient) = ps_Messages s"
| "poll_fan_out s (PollInbox reader) = ps_InboxMessages s"
| "poll_fan_out s (PollLog owners) = ps_EventLog s"
| "poll_fan_out s AwaitGeneration = ps_Schemas s"

fun poll_test :: "poll \<Rightarrow> int \<Rightarrow> event \<Rightarrow> bool" where
  "poll_test (PollSystem recipient) since (MessageEvent e) = OnMessageUpdate recipient since e"
| "poll_test (PollInbox reader) since (MessageEvent e) = OnInboxMessageUpdate reader since e"
| "poll_test (PollLog owners) since (EventLogEvent e) = OnEventLogUpdate owners since e"
| "poll_test AwaitGeneration since (SchemaEvent e) = OnSchemaUpdate e"
| "poll_test p since e = False"

definition wakes :: "poll \<Rightarrow> int \<Rightarrow> notify_channel \<times> event \<Rightarrow> bool" where
  "wakes p since x \<longleftrightarrow> fo_channel (poll_fan_out NewPGStore p) = fst x \<and> poll_test p since (snd x)"

text \<open>What the call reads, by its ids: a page past its cursor, or the active generation if it is not the one known.\<close>

definition message_fetch :: "string \<Rightarrow> int \<Rightarrow> db \<Rightarrow> int \<Rightarrow> message list" where
  "message_fetch recipient n d a =
     (case fst (ListMessagesAfterID recipient a n (snapshot d)) of Inl _ \<Rightarrow> [] | Inr ms \<Rightarrow> ms)"

definition generation_fetch :: "db \<Rightarrow> int" where
  "generation_fetch d = (case fst (GetActiveConfigGenerationID (snapshot d)) of Inl _ \<Rightarrow> 0 | Inr i \<Rightarrow> i)"

fun answer :: "poll \<Rightarrow> int \<Rightarrow> int \<Rightarrow> db \<Rightarrow> int list" where
  "answer (PollSystem recipient) after n d = map msg_ID (message_fetch recipient n d after)"
| "answer (PollInbox reader) after n d = map ib_ID (inbox_fetch reader n d after)"
| "answer (PollLog owners) after n d = map ent_ID (log_fetch owners n d after)"
| "answer AwaitGeneration known n d = (if generation_fetch d \<noteq> known then [generation_fetch d] else [])"

lemma message_fetch_page: "0 < n \<Longrightarrow> message_fetch r n d a = map message_of_row (page_after m_id (system_rows r d) a n)"
proof -
  assume "0 < n"
  then have "ListMessagesAfterID r a n (snapshot d) =
      (Inr (map message_of_row (page_after m_id (system_rows r d) a n)), step_to d (snapshot d))"
    by (simp add: ListMessagesAfterID_Inr)
  then show ?thesis by (simp add: message_fetch_def)
qed

lemma generation_fetch_id: "generation_fetch d = (case active_cg_id d of None \<Rightarrow> 0 | Some i \<Rightarrow> i)"
  by (simp add: generation_fetch_def GetActiveConfigGenerationID_def q_GetActiveConfigGeneration_def run_stmt_def active_cg_id_def
      catchM_def split: option.splits)

lemma sort_key_Nil: "sort_key f xs = [] \<longleftrightarrow> xs = []"
  by (metis length_0_conv length_sort)

lemma page_after_Nil: "0 < n \<Longrightarrow> page_after ident rows a n = [] \<longleftrightarrow> (\<forall>m \<in> set rows. ident m \<le> a)"
  by (auto simp: page_after_def page_asc_def sort_key_Nil filter_empty_conv not_less)

lemma answer_Nil:
  assumes "0 < n"
  shows "answer (PollSystem r) a n d = [] \<longleftrightarrow> (\<forall>m \<in> set (system_rows r d). m_id m \<le> a)"
    "answer (PollInbox reader) a n d = [] \<longleftrightarrow> (\<forall>m \<in> set (inbox_rows reader d). im_id m \<le> a)"
    "answer (PollLog owners) a n d = [] \<longleftrightarrow> (\<forall>x \<in> set (eventlog_rows owners d). ev_id x \<le> a)"
    "answer AwaitGeneration a n d = [] \<longleftrightarrow> (case active_cg_id d of None \<Rightarrow> 0 | Some i \<Rightarrow> i) = a"
  using assms by (simp_all add: message_fetch_page inbox_fetch_page log_fetch_page page_after_Nil generation_fetch_id)

section \<open>A session\<close>

datatype phase = Checking | Waiting | Rereading | Answered "int list" | Cancelled

text \<open>How many notifications have been handed to the fan-outs, whether the listener is registered, its channel.\<close>

record session =
  s_db :: db
  s_handed :: nat
  s_listening :: bool
  s_buffer :: "event option"
  s_phase :: phase

definition start_session :: "db \<Rightarrow> nat \<Rightarrow> session" where
  "start_session d h = \<lparr>s_db = d, s_handed = h, s_listening = False, s_buffer = None, s_phase = Checking\<rparr>"

text \<open>The send of a fan-out does not block: a full channel keeps what it has.\<close>

definition offered :: "poll \<Rightarrow> int \<Rightarrow> notify_channel \<times> event \<Rightarrow> session \<Rightarrow> event option" where
  "offered p since x s = (if s_listening s \<and> wakes p since x \<and> s_buffer s = None then Some (snd x) else s_buffer s)"

text \<open>The wait for a generation reads again after a wake; a poll answers with what it reads then.\<close>

inductive session_step :: "poll \<Rightarrow> int \<Rightarrow> int \<Rightarrow> int \<Rightarrow> session \<Rightarrow> session \<Rightarrow> bool" for p since after n where
  committed: "store_step (s_db s) d \<Longrightarrow> session_step p since after n s (s\<lparr>s_db := d\<rparr>)"
| registered: "\<not> s_listening s \<Longrightarrow> session_step p since after n s (s\<lparr>s_listening := True\<rparr>)"
| handed: "s_handed s < length (outbox (s_db s)) \<Longrightarrow> session_step p since after n s
    (s\<lparr>s_handed := Suc (s_handed s), s_buffer := offered p since (outbox (s_db s) ! s_handed s) s\<rparr>)"
| checked: "s_phase s = Checking \<Longrightarrow> ids = answer p after n (s_db s) \<Longrightarrow>
    session_step p since after n s (s\<lparr>s_phase := (if ids = [] then Waiting else Answered ids)\<rparr>)"
| woken: "s_phase s = Waiting \<Longrightarrow> s_buffer s = Some e \<Longrightarrow>
    session_step p since after n s (s\<lparr>s_buffer := None, s_phase := (if p = AwaitGeneration then Checking else Rereading)\<rparr>)"
| timed_out: "s_phase s = Waiting \<Longrightarrow>
    session_step p since after n s (s\<lparr>s_phase := (if p = AwaitGeneration then Answered [] else Rereading)\<rparr>)"
| cancelled: "s_phase s = Waiting \<Longrightarrow> session_step p since after n s (s\<lparr>s_phase := Cancelled\<rparr>)"
| reread: "s_phase s = Rereading \<Longrightarrow> session_step p since after n s (s\<lparr>s_phase := Answered (answer p after n (s_db s))\<rparr>)"

section \<open>No lost wake-up\<close>

text \<open>
  What waiting relies on: the queue of notifications only grows, and whatever ends the quiet of a
  reader puts a notification into it that wakes the reader.
\<close>

locale wake_source =
  fixes step :: "'s \<Rightarrow> 's \<Rightarrow> bool" and ok :: "'s \<Rightarrow> bool" and quiet :: "'s \<Rightarrow> bool"
    and posted :: "'s \<Rightarrow> 'x list" and wakes :: "'x \<Rightarrow> bool"
  assumes step_ok: "ok s \<Longrightarrow> step s t \<Longrightarrow> ok t"
    and posted_grows: "ok s \<Longrightarrow> step s t \<Longrightarrow> \<exists>xs. posted t = posted s @ xs"
    and woken: "ok s \<Longrightarrow> step s t \<Longrightarrow> quiet s \<Longrightarrow> \<not> quiet t \<Longrightarrow>
      \<exists>x \<in> set (drop (length (posted s)) (posted t)). wakes x"
begin

text \<open>A reader is cared for from position \<open>h\<close> on: it has nothing to read, or a notification ahead wakes it.\<close>

lemma cared_for_step:
  assumes "ok s" "step s t" "h \<le> length (posted s)"
    and "quiet s \<or> (\<exists>x \<in> set (drop h (posted s)). wakes x)"
  shows "quiet t \<or> (\<exists>x \<in> set (drop h (posted t)). wakes x)"
proof (cases "\<exists>x \<in> set (drop h (posted s)). wakes x")
  case True
  obtain xs where "posted t = posted s @ xs" using posted_grows [OF assms(1,2)] by blast
  then show ?thesis using True by auto
next
  case False
  then have "quiet s" using assms(4) by blast
  have "x \<in> set (drop h (posted t))" if "x \<in> set (drop (length (posted s)) (posted t))" for x
    using that set_drop_subset_set_drop [OF assms(3), of "posted t"] by blast
  then show ?thesis using woken [OF assms(1,2) \<open>quiet s\<close>] by blast
qed

lemma cared_for_handed:
  assumes "h < length (posted s)" "quiet s \<or> (\<exists>x \<in> set (drop h (posted s)). wakes x)" "\<not> wakes (posted s ! h)"
  shows "quiet s \<or> (\<exists>x \<in> set (drop (Suc h) (posted s)). wakes x)"
  using assms Cons_nth_drop_Suc [OF assms(1)] by (metis set_ConsD)

end

definition poll_quiet :: "poll \<Rightarrow> int \<Rightarrow> int \<Rightarrow> int \<Rightarrow> db \<Rightarrow> bool" where
  "poll_quiet p since after n d \<longleftrightarrow> (0 < n \<and> since \<le> after \<longrightarrow> answer p after n d = [])"

lemma commit_wakes:
  assumes d: "reachable d" and step: "store_step d d'" and n: "0 < n" "since \<le> after"
    and old: "answer p after n d = []" and new: "answer p after n d' \<noteq> []"
  shows "\<exists>x \<in> announced d d'. wakes p since x"
proof (cases p)
  case (PollSystem r)
  obtain m where m: "m \<in> set (system_rows r d')" "after < m_id m"
    using new n by (auto simp: PollSystem answer_Nil simp del: answer.simps)
  have "m \<in> set (system_rows r d') - set (system_rows r d)" "since < m_id m"
    using old m n by (auto simp: PollSystem answer_Nil simp del: answer.simps)
  then obtain e where "(NotifyChannelMessageUpdate, MessageEvent e) \<in> announced d d'" "OnMessageUpdate r since e"
    using conjunct1 [OF commit_wakes_polls [OF d step]] by blast
  then show ?thesis by (intro bexI) (simp_all add: wakes_def PollSystem NewPGStore_def NewFanOut_def)
next
  case (PollInbox reader)
  obtain m where m: "m \<in> set (inbox_rows reader d')" "after < im_id m"
    using new n by (auto simp: PollInbox answer_Nil simp del: answer.simps)
  have "m \<in> set (inbox_rows reader d') - set (inbox_rows reader d)" "since < im_id m"
    using old m n by (auto simp: PollInbox answer_Nil simp del: answer.simps)
  then obtain e where "(NotifyChannelInboxMessageUpdate, MessageEvent e) \<in> announced d d'" "OnInboxMessageUpdate reader since e"
    using conjunct1 [OF conjunct2 [OF commit_wakes_polls [OF d step]]] by blast
  then show ?thesis by (intro bexI) (simp_all add: wakes_def PollInbox NewPGStore_def NewFanOut_def)
next
  case (PollLog owners)
  obtain x where x: "x \<in> set (eventlog_rows owners d')" "after < ev_id x"
    using new n by (auto simp: PollLog answer_Nil simp del: answer.simps)
  have "x \<in> set (eventlog_rows owners d') - set (eventlog_rows owners d)" "since < ev_id x"
    using old x n by (auto simp: PollLog answer_Nil simp del: answer.simps)
  then obtain e where "(NotifyChannelEventLogUpdate, EventLogEvent e) \<in> announced d d'" "OnEventLogUpdate owners since e"
    using conjunct2 [OF conjunct2 [OF commit_wakes_polls [OF d step]]] by blast
  then show ?thesis by (intro bexI) (simp_all add: wakes_def PollLog NewPGStore_def NewFanOut_def)
next
  case AwaitGeneration
  have "active_cg_id d' \<noteq> active_cg_id d"
    using old new n by (auto simp: AwaitGeneration answer_Nil simp del: answer.simps)
  then have "activation_notice \<in> announced d d'" by (rule active_cg_id_announced [OF step])
  then show ?thesis
    by (intro bexI) (simp_all add: wakes_def AwaitGeneration NewPGStore_def NewFanOut_def OnSchemaUpdate_def)
qed

interpretation poll_source: wake_source store_step reachable "poll_quiet p since after n" outbox "wakes p since" for p since after n
proof
  show "reachable t" if "reachable s" "store_step s t" for s t by (rule reachable_step [OF that])
  show "\<exists>xs. outbox t = outbox s @ xs" if "reachable s" "store_step s t" for s t using step_posts [OF that(2)] by blast
  show "\<exists>x \<in> set (drop (length (outbox s)) (outbox t)). wakes p since x"
    if "reachable s" "store_step s t" "poll_quiet p since after n s" "\<not> poll_quiet p since after n t" for s t
    using commit_wakes [OF that(1,2), of n since after p] that(3,4) by (auto simp: poll_quiet_def announced_def)
qed

text \<open>A session whose listener is registered, from before its last read on.\<close>

definition attended :: "poll \<Rightarrow> int \<Rightarrow> int \<Rightarrow> int \<Rightarrow> session \<Rightarrow> bool" where
  "attended p since after n s \<longleftrightarrow>
     reachable (s_db s) \<and> s_handed s \<le> length (outbox (s_db s)) \<and> s_listening s \<and>
     (s_phase s = Waiting \<longrightarrow> s_buffer s \<noteq> None \<or> poll_quiet p since after n (s_db s) \<or>
        (\<exists>x \<in> set (drop (s_handed s) (outbox (s_db s))). wakes p since x))"

lemma attended_step:
  assumes "session_step p since after n s t" "attended p since after n s"
  shows "attended p since after n t"
  using assms(1)
proof (cases rule: session_step.cases)
  case (committed d)
  obtain xs where "outbox d = outbox (s_db s) @ xs" using step_posts [OF committed(2)] by blast
  moreover have "poll_quiet p since after n (s_db s) \<or> (\<exists>x \<in> set (drop (s_handed s) (outbox (s_db s))). wakes p since x) \<Longrightarrow>
      poll_quiet p since after n d \<or> (\<exists>x \<in> set (drop (s_handed s) (outbox d)). wakes p since x)"
    using assms(2) poll_source.cared_for_step [OF _ committed(2)] by (simp add: attended_def)
  ultimately show ?thesis
    using assms(2) reachable_step [OF _ committed(2)] unfolding committed(1) by (auto simp: attended_def)
next
  case handed
  show ?thesis
  proof (cases "wakes p since (outbox (s_db s) ! s_handed s)")
    case True
    then show ?thesis using assms(2) handed(2) unfolding handed(1) by (auto simp: attended_def offered_def)
  next
    case False
    then show ?thesis
      using assms(2) handed(2) poll_source.cared_for_handed [OF handed(2) _ False]
      unfolding handed(1) by (auto simp: attended_def offered_def)
  qed
qed (use assms(2) in \<open>auto simp: attended_def poll_quiet_def\<close>)

lemma attended_steps: "(session_step p since after n)\<^sup>*\<^sup>* s t \<Longrightarrow> attended p since after n s \<Longrightarrow> attended p since after n t"
  by (induction rule: rtranclp_induct) (auto intro: attended_step)

lemma session_sound:
  assumes "(session_step p since after n)\<^sup>*\<^sup>* s t" "reachable (s_db s)" "s_handed s \<le> length (outbox (s_db s))"
  shows "reachable (s_db t) \<and> s_handed t \<le> length (outbox (s_db t))"
  using assms
proof (induction rule: rtranclp_induct)
  case (step t u)
  then have t: "reachable (s_db t)" "s_handed t \<le> length (outbox (s_db t))" by auto
  from step.hyps(2) show ?case
  proof (cases rule: session_step.cases)
    case (committed d)
    then show ?thesis using t step_posts [OF committed(2)] reachable_step [OF t(1) committed(2)] by auto
  qed (use t in auto)
qed simp

text \<open>C12: a call that waits is not left waiting: once the notifications sent so far have been delivered, a poll
  that waits while there is something for it to read has its wake-up in the channel, although that holds
  one event and a send to a full channel is dropped. This needs the listener to be registered
  before the call reads the store.\<close>

theorem polls_woken:
  assumes "reachable d" "h \<le> length (outbox d)" "0 < n" "since \<le> after"
    and "(session_step p since after n)\<^sup>*\<^sup>* (start_session d h) s1" "s_listening s1" "s_phase s1 = Checking"
    and "(session_step p since after n)\<^sup>*\<^sup>* s1 s" "s_phase s = Waiting"
    and "s_handed s = length (outbox (s_db s))" "answer p after n (s_db s) \<noteq> []"
  shows "s_buffer s \<noteq> None"
proof -
  have "reachable (s_db s1) \<and> s_handed s1 \<le> length (outbox (s_db s1))"
    using session_sound [OF assms(5)] assms(1,2) by (simp add: start_session_def)
  then have "attended p since after n s1" using assms(6,7) by (simp add: attended_def)
  then have "attended p since after n s" by (rule attended_steps [OF assms(8)])
  then show ?thesis using assms(3,4,9-11) by (simp add: attended_def poll_quiet_def)
qed

lemma answers_sample:
  "answer (PollInbox (inboxReader sample_user)) 0 5 empty_db = []"
  "answer (PollInbox (inboxReader sample_user)) 0 5 (db pushed) = [1]"
  using sample_fetch by (simp_all add: inbox_fetch_page page_after_def page_asc_def inbox_rows_def empty_db_def)

definition waiting_session :: "bool \<Rightarrow> session" where
  "waiting_session listening = \<lparr>s_db = db pushed, s_handed = 1, s_listening = True,
     s_buffer = (if listening then Some (MessageEvent \<lparr>me_ID = 1, me_Recipient = ''u''\<rparr>) else None), s_phase = Waiting\<rparr>"

text \<open>
  The goroutine may register the listener late. Then a message committed between the read and the
  registration wakes nobody, and the call sits out its timer with the message there to read.
\<close>

lemma late_listener_waits:
  "\<exists>s. (session_step (PollInbox (inboxReader sample_user)) 0 0 5)\<^sup>*\<^sup>* (start_session empty_db 0) s \<and> s_listening s \<and>
     s_phase s = Waiting \<and> s_handed s = length (outbox (s_db s)) \<and>
     answer (PollInbox (inboxReader sample_user)) 0 5 (s_db s) \<noteq> [] \<and> s_buffer s = None"
proof -
  let ?step = "session_step (PollInbox (inboxReader sample_user)) 0 0 5" and ?s0 = "start_session empty_db 0"
  have "?step ?s0 (?s0\<lparr>s_phase := Waiting\<rparr>)"
    using session_step.checked [of ?s0 "[]"] answers_sample(1) by (simp add: start_session_def)
  moreover have "?step (?s0\<lparr>s_phase := Waiting\<rparr>) (?s0\<lparr>s_phase := Waiting, s_db := db pushed\<rparr>)"
    using session_step.committed [of "?s0\<lparr>s_phase := Waiting\<rparr>" "db pushed"] step_pushed by (simp add: start_session_def)
  moreover have "?step (?s0\<lparr>s_phase := Waiting, s_db := db pushed\<rparr>) (?s0\<lparr>s_phase := Waiting, s_db := db pushed, s_handed := 1\<rparr>)"
    using session_step.handed [of "?s0\<lparr>s_phase := Waiting, s_db := db pushed\<rparr>"]
    by (simp add: start_session_def outbox_pushed offered_def)
  moreover have "?step (?s0\<lparr>s_phase := Waiting, s_db := db pushed, s_handed := 1\<rparr>) (waiting_session False)"
    using session_step.registered [of "?s0\<lparr>s_phase := Waiting, s_db := db pushed, s_handed := 1\<rparr>"]
    by (simp add: start_session_def waiting_session_def)
  ultimately have "?step\<^sup>*\<^sup>* ?s0 (waiting_session False)" by (meson rtranclp.rtrancl_into_rtrancl rtranclp.rtrancl_refl)
  then show ?thesis using answers_sample(2) outbox_pushed by (intro exI [of _ "waiting_session False"]) (simp add: waiting_session_def)
qed

theorem polls_woken_witness:
  "s_buffer (waiting_session True) \<noteq> None \<and> answer (PollInbox (inboxReader sample_user)) 0 5 (s_db (waiting_session True)) = [1]"
proof -
  let ?step = "session_step (PollInbox (inboxReader sample_user)) 0 0 5" and ?s0 = "start_session empty_db 0"
  let ?s1 = "?s0\<lparr>s_listening := True\<rparr>"
  have "?step ?s0 ?s1" using session_step.registered [of ?s0] by (simp add: start_session_def)
  then have start: "?step\<^sup>*\<^sup>* ?s0 ?s1" by (rule r_into_rtranclp)
  have "?step ?s1 (?s1\<lparr>s_phase := Waiting\<rparr>)"
    using session_step.checked [of ?s1 "[]"] answers_sample(1) by (simp add: start_session_def)
  moreover have "?step (?s1\<lparr>s_phase := Waiting\<rparr>) (?s1\<lparr>s_phase := Waiting, s_db := db pushed\<rparr>)"
    using session_step.committed [of "?s1\<lparr>s_phase := Waiting\<rparr>" "db pushed"] step_pushed by (simp add: start_session_def)
  moreover have "?step (?s1\<lparr>s_phase := Waiting, s_db := db pushed\<rparr>) (waiting_session True)"
    using session_step.handed [of "?s1\<lparr>s_phase := Waiting, s_db := db pushed\<rparr>" "PollInbox (inboxReader sample_user)" 0 0 5]
    by (simp add: start_session_def outbox_pushed offered_def waiting_session_def wakes_def NewPGStore_def NewFanOut_def
        OnInboxMessageUpdate_def inboxReader_def getAllOwners_def sample_user_def)
  ultimately have run: "?step\<^sup>*\<^sup>* ?s1 (waiting_session True)" by (meson rtranclp.rtrancl_into_rtrancl rtranclp.rtrancl_refl)
  have "s_buffer (waiting_session True) \<noteq> None"
    by (rule polls_woken [OF reachable_empty _ _ _ start _ _ run])
      (use answers_sample(2) outbox_pushed in \<open>simp_all add: waiting_session_def start_session_def\<close>)
  then show ?thesis using answers_sample(2) by (simp add: waiting_session_def)
qed

end
