(* ===== verification/App_Props.thy ===== *)
theory App_Props
  imports App Config_Service_Props
begin

text \<open>
  Properties of the program as it is put together: when it starts, that it starts without any schemas, and
  how it stops.
\<close>

section \<open>Starting\<close>

definition loadable :: "('c, 'v) revisor_api \<Rightarrow> db \<Rightarrow> bool" where
  "loadable api d \<longleftrightarrow> Option.bind (decode_schemas api (map schema_full (active_schemas d))) (build_validators api) \<noteq> None"

lemma NewValidator_iff:
  assumes "fault w = (\<lambda>_. False)"
  shows "(\<exists>v w'. NewValidator pg_validator_store api w = (Inr v, w')) \<longleftrightarrow> loadable api (db w)"
proof
  assume "loadable api (db w)"
  then obtain decoded vals where "decode_schemas api (map schema_full (active_schemas (db w))) = Some decoded" "build_validators api decoded = Some vals"
    unfolding loadable_def by (auto split: bind_splits)
  then show "\<exists>v w'. NewValidator pg_validator_store api w = (Inr v, w')" using NewValidator_pg [OF assms] by blast
next
  assume "\<exists>v w'. NewValidator pg_validator_store api w = (Inr v, w')"
  then obtain v0 v1 w1 where 1: "loadSchemas pg_validator_store api v0 w = (Inr v1, w1)" by (auto simp: NewValidator_def bindM_Inr_iff)
  show "loadable api (db w)"
  proof (rule ccontr)
    assume "\<not> loadable api (db w)"
    then have "\<exists>w'. loadSchemas pg_validator_store api v0 w = (Inl ErrBadSchema, w')"
      using loadSchemas_pg_fails [OF assms, of api v0] by (auto simp: loadable_def)
    with 1 show False by simp
  qed
qed

text \<open>What the libraries have to answer for the program to start.\<close>

definition libraries_ready :: "set_up \<Rightarrow> (string \<Rightarrow> flag_value option) \<Rightarrow> bool" where
  "libraries_ready su cmd \<longleftrightarrow>
     su_poolsErr su (cmd_String cmd ''db'') (cmd_Int cmd ''db-max-conns'') (cmd_String cmd ''db-bouncer'') = None \<and>
     su_authErr su = None \<and> (\<forall>c \<in> set metrics_counters. \<not> su_refuses su c) \<and> su_optionsErr su = None"

definition program_of ::
    "string \<Rightarrow> (string \<Rightarrow> flag_value option) \<Rightarrow> ('w, 'doc) parameters \<Rightarrow> 'v validator \<Rightarrow> ('w, 'doc, 'v) program" where
  "program_of version cmd p v = \<lparr>pr_addr = cmd_String cmd ''addr'', pr_profileAddr = cmd_String cmd ''profile-addr'',
     pr_serverOpts = server_options version cmd,
     pr_optionalReady = [(''postgres'', Ping MainPool), (''schemas'', SchemasReady)],
     pr_validator = v, pr_apis = run_apis p, pr_tasks = run_tasks p\<rparr>"

lemma runUser_Inr_iff:
  "runUser su version api ms ss cs validate cmd w = (Inr prog, w') \<longleftrightarrow>
     0 < cmd_Duration cmd ''cleanup-interval'' \<and> libraries_ready su cmd \<and>
     (\<exists>v. NewValidator pg_validator_store api w = (Inr v, w') \<and>
       prog = program_of version cmd (run_parameters ms ss cs validate cmd v) v)"
  by (auto simp: runUser_def libraries_ready_def unless_error_def NewMetrics_def wrap_error_def catchM_def bindM_Inr_iff Run_def program_of_def
      split: option.splits sum.splits prod.splits)

lemma runUser_starts:
  assumes "fault w = (\<lambda>_. False)"
  shows "(\<exists>prog w'. runUser su version api ms ss cs validate cmd w = (Inr prog, w')) \<longleftrightarrow>
    0 < cmd_Duration cmd ''cleanup-interval'' \<and> libraries_ready su cmd \<and> loadable api (db w)"
  using NewValidator_iff [OF assms, of api] by (auto simp: runUser_Inr_iff)

lemma loadable_without_generation:
  assumes "active_generation d = None"
  shows "loadable api d" "active_schemas d = []"
proof -
  have "filter cg_active (generations d) = []" using assms by (auto simp: active_generation_def find_None_iff filter_empty_conv)
  then show "active_schemas d = []" by (simp add: active_schemas_def)
  then show "loadable api d" by (simp add: loadable_def build_validators_def sets_for_def Let_def)
qed

lemma run_tasks_parameters:
  "run_tasks (run_parameters ms ss cs validate cmd v) =
     [\<lparr>tk_name = ''server'', tk_kind = Required, tk_stop_scoped = False, tk_work = ListenAndServe\<rparr>,
      \<lparr>tk_name = ''pubsub'', tk_kind = GoWithRetries subscriberRetryOptions, tk_stop_scoped = True,
        tk_work = RunSubscriber PubSubPool (NewSubscriber NewPGStore)\<rparr>] @
     (if 0 < cmd_Duration cmd ''cleanup-interval''
      then [\<lparr>tk_name = ''cleaner'', tk_kind = Go, tk_stop_scoped = True, tk_work = CleanEvery (cmd_Duration cmd ''cleanup-interval'')\<rparr>]
      else [])"
  by (simp add: run_tasks_def run_parameters_def Let_def)

lemma schemasReadyCheck_iff:
  assumes "fault w = (\<lambda>_. False)"
  shows "(\<exists>w'. schemasReadyCheck w = (Inr (), w')) \<longleftrightarrow> (\<forall>u. u \<in> sc_Usage ` set (map schema_full (active_schemas (db w))))"
proof -
  have "(\<forall>u. u \<in> A) \<longleftrightarrow> SchemaUsageSettings \<in> A \<and> SchemaUsageMessages \<in> A" for A by (metis schema_usage.exhaust)
  then show ?thesis
    using assms by (simp add: schemasReadyCheck_def bindM_def GetActiveSchemas_def q_GetActiveSchemas_def run_stmt_def)
qed

text \<open>C26: a fresh deployment starts: without an active generation, with libraries that answer and a positive cleanup
  interval, the program comes up with its server, subscriber and cleaner and writes nothing; it serves the API that
  schemas are registered with, refuses every document until then, and reports that it lacks schemas only as an
  optional check.\<close>

theorem fresh_deploy_starts:
  assumes "fault w = (\<lambda>_. False)" "active_generation (db w) = None"
    and "libraries_ready su cmd" "0 < cmd_Duration cmd ''cleanup-interval''"
  shows "\<exists>prog w'. runUser su version api (pg_messages_store tx txi) (pg_settings_store tx sortu sortd) (pg_config_store tx txi sha rounding)
      (ValidateDocument run) cmd w = (Inr prog, w') \<and> db w' = db w \<and>
    map tk_name (pr_tasks prog) = [''server'', ''pubsub'', ''cleaner''] \<and>
    RegisterAPI (ConfigurationServer (NewConfigurationService (pg_config_store tx txi sha rounding))) \<in> set (pr_apis prog) \<and>
    RegisterConnect (ConfigurationServer (NewConfigurationService (pg_config_store tx txi sha rounding))) \<in> set (pr_apis prog) \<and>
    (\<forall>usage doc. ValidateDocument run (pr_validator prog) usage doc = Inl (ErrNoActiveSchema usage)) \<and>
    fst (schemasReadyCheck w') = Inl (ErrNoActiveSchema SchemaUsageSettings) \<and> (''schemas'', SchemasReady) \<in> set (pr_optionalReady prog)"
proof -
  have none: "decode_schemas api (map schema_full (active_schemas (db w))) = Some []" "build_validators api [] = Some Map.empty"
    using loadable_without_generation(2) [OF assms(2)] by (simp_all add: build_validators_def sets_for_def Let_def)
  obtain v w' where v: "NewValidator pg_validator_store api w = (Inr v, w')" "v_validators v = Map.empty" "db w' = db w" "fault w' = fault w"
    using NewValidator_pg [OF assms(1) none] by blast
  show ?thesis
    by (intro exI [of _ "program_of version cmd (run_parameters _ _ _ _ cmd v) v"] exI [of _ w'] conjI, unfold runUser_Inr_iff)
      (use assms v loadable_without_generation(2) [OF assms(2)] in \<open>auto simp: program_of_def run_tasks_def run_apis_def run_parameters_def Let_def
        ValidateDocument_def schemasReadyCheck_def bindM_def GetActiveSchemas_def q_GetActiveSchemas_def run_stmt_def\<close>)
qed

definition quiet_set_up :: set_up where
  "quiet_set_up = \<lparr>su_poolsErr = (\<lambda>_ _ _. None), su_authErr = None, su_refuses = (\<lambda>_. False), su_optionsErr = None\<rparr>"

lemma libraries_quiet: "libraries_ready quiet_set_up cmd"
  by (simp add: libraries_ready_def quiet_set_up_def)

lemma default_interval: "0 < cmd_Duration default_command ''cleanup-interval''"
  by (simp add: cmd_Duration_def default_command_def runCmd_Flags_def)

lemma snapshot_quiet: "fault (snapshot d) = (\<lambda>_. False)"
  by (simp add: fun_eq_iff)

theorem fresh_deploy_starts_witness:
  "\<exists>prog w'. runUser quiet_set_up ''v1'' sample_revisor (pg_messages_store run_tx run_tx) (pg_settings_store run_tx (\<lambda>_. id) (\<lambda>_. id))
     (pg_config_store run_tx run_tx id id) (ValidateDocument (\<lambda>val dh usage (doc :: json). Inr [])) default_command (snapshot empty_db) = (Inr prog, w') \<and>
   map tk_name (pr_tasks prog) = [''server'', ''pubsub'', ''cleaner'']"
proof -
  have "active_generation (db (snapshot empty_db)) = None" by (simp add: active_generation_def empty_db_def)
  from fresh_deploy_starts [OF snapshot_quiet this libraries_quiet default_interval,
      where version = "''v1''" and api = sample_revisor and tx = run_tx and txi = run_tx and sortu = "\<lambda>_. id" and sortd = "\<lambda>_. id"
        and sha = id and rounding = id and run = "\<lambda>val dh usage (doc :: json). Inr []"]
  show ?thesis by (elim exE conjE, intro exI conjI)
qed

lemma decode_schemas_usages: "decode_schemas api ss = Some xs \<Longrightarrow> map fst xs = map sc_Usage ss"
  by (induction ss arbitrary: xs) (auto split: option.splits)

lemma build_validators_usages:
  "build_validators api xs = Some vals \<Longrightarrow> vals u \<noteq> None \<Longrightarrow> u \<in> fst ` set xs"
  by (auto simp: build_validators_def Let_def sets_for_def filter_empty_conv split: if_splits)


definition message_request :: request_schema where
  "message_request = \<lparr>rq_Name = ''note'', rq_Version = ''1'', rq_Spec = ''null'', rq_Usage = SCHEMA_USAGE_MESSAGES\<rparr>"

lemma sample_svc_register_both:
  "\<exists>gen w'. svc_RegisterConfigGeneration (pg_config_store run_tx run_tx id id) sample_revisor [SchemaUsageSettings, SchemaUsageMessages]
      (caller_ctx sample_admin 5) ''first'' [sample_request, message_request] True (snapshot empty_db) = (Inr gen, w') \<and> rg_Id gen = 1"
proof -
  have "\<exists>gen. fst (svc_RegisterConfigGeneration (pg_config_store run_tx run_tx id id) sample_revisor [SchemaUsageSettings, SchemaUsageMessages]
      (caller_ctx sample_admin 5) ''first'' [sample_request, message_request] True (snapshot empty_db)) = Inr gen \<and> rg_Id gen = 1"
    unfolding svc_RegisterConfigGeneration_def requireAny_def sample_admin_ctx
    by (simp add: register_eval numeral_2_eq_2 pg_config_store_def sample_request_def message_request_def sample_revisor_def resolveConstraintSet_def
        schemaUsageFromRPC_def spec_of_def grouped_def configGenerationToRPC_def)
  then show ?thesis by (metis prod.collapse)
qed


section \<open>Stopping\<close>

lemma group_step_tasks [simp]: "gr_tasks (group_step ends g e) = gr_tasks g"
  by (simp add: group_step_def split: group_event.splits option.splits)

lemma run_group_tasks [simp]: "gr_tasks (run_group ends es g) = gr_tasks g"
  unfolding run_group_def by (induction es arbitrary: g) simp_all

lemma group_step_stopped: "gr_stopped (group_step ends g e) \<longleftrightarrow> gr_stopped g \<or> e = StopRequested"
  by (auto simp: group_step_def split: group_event.splits option.splits)

lemma group_step_quit: "gr_quit (group_step ends g e) \<longleftrightarrow> gr_quit g \<or> e = QuitDeadline"
  by (auto simp: group_step_def split: group_event.splits option.splits)

text \<open>What ends the group of the program: a return of the server, or a cleaner that fails before a stop.\<close>

lemma group_step_cancelled:
  assumes "group_contract ends" "gr_tasks g = run_tasks (run_parameters ms ss cs validate cmd v)"
    "0 < cmd_Duration cmd ''cleanup-interval''" "\<not> gr_cancelled g"
  shows "gr_cancelled (group_step ends g e) \<longleftrightarrow>
    (\<exists>err. e = Returned ''server'' err) \<or> (\<exists>err. e = Returned ''cleaner'' (Some err) \<and> \<not> gr_stopped g \<and> \<not> gr_quit g)"
  using assms
  by (auto simp: group_step_def run_tasks_parameters group_contract_def task_result_def task_ctx_done_def stopScoped_def subscriberRetryOptions_def
      split: group_event.splits option.splits if_splits)

lemma run_group_snoc: "run_group ends (es @ [e]) g = group_step ends (run_group ends es g) e"
  by (simp add: run_group_def)

lemma run_group_flags:
  "gr_stopped (run_group ends es (start_group ts)) \<longleftrightarrow> StopRequested \<in> set es"
  "gr_quit (run_group ends es (start_group ts)) \<longleftrightarrow> QuitDeadline \<in> set es"
  by (induction es rule: rev_induct)
    (auto simp: run_group_snoc group_step_stopped group_step_quit, simp_all add: run_group_def start_group_def)

definition cleaner_failed :: "group_event list \<Rightarrow> bool" where
  "cleaner_failed es \<longleftrightarrow> (\<exists>before err after. es = before @ Returned ''cleaner'' (Some err) # after \<and>
     StopRequested \<notin> set before \<and> QuitDeadline \<notin> set before)"

lemma cleaner_failed_snoc:
  "cleaner_failed (es @ [e]) \<longleftrightarrow>
     cleaner_failed es \<or> (\<exists>err. e = Returned ''cleaner'' (Some err) \<and> StopRequested \<notin> set es \<and> QuitDeadline \<notin> set es)"
proof
  assume "cleaner_failed (es @ [e])"
  then obtain before err after where 1: "es @ [e] = before @ Returned ''cleaner'' (Some err) # after"
    "StopRequested \<notin> set before" "QuitDeadline \<notin> set before" by (auto simp: cleaner_failed_def)
  show "cleaner_failed es \<or> (\<exists>err. e = Returned ''cleaner'' (Some err) \<and> StopRequested \<notin> set es \<and> QuitDeadline \<notin> set es)"
    using 1 by (cases after rule: rev_cases) (auto simp: cleaner_failed_def)
next
  assume "cleaner_failed es \<or> (\<exists>err. e = Returned ''cleaner'' (Some err) \<and> StopRequested \<notin> set es \<and> QuitDeadline \<notin> set es)"
  then show "cleaner_failed (es @ [e])" by (fastforce simp: cleaner_failed_def)
qed

lemma group_cancelled_iff:
  assumes "group_contract ends" "ts = run_tasks (run_parameters ms ss cs validate cmd v)" "0 < cmd_Duration cmd ''cleanup-interval''"
  shows "gr_cancelled (run_group ends es (start_group ts)) \<longleftrightarrow> (\<exists>err. Returned ''server'' err \<in> set es) \<or> cleaner_failed es"
proof (induction es rule: rev_induct)
  case Nil
  then show ?case by (simp add: run_group_def start_group_def cleaner_failed_def)
next
  case (snoc e es)
  let ?g = "run_group ends es (start_group ts)"
  have tasks: "gr_tasks ?g = run_tasks (run_parameters ms ss cs validate cmd v)" by (simp add: assms(2) start_group_def)
  show ?case
  proof (cases "gr_cancelled ?g")
    case True
    then have "gr_cancelled (group_step ends ?g e)" by (simp add: group_step_def split: group_event.splits option.splits)
    then show ?thesis using snoc.IH True by (auto simp: run_group_snoc cleaner_failed_snoc)
  next
    case False
    then show ?thesis
      using snoc.IH group_step_cancelled [OF assms(1) tasks assms(3) False, of e]
      by (auto simp: run_group_snoc cleaner_failed_snoc run_group_flags)
  qed
qed

text \<open>C33: what ends the service: a program that has started ends exactly when its server returns, or when the cleaner
  fails before a stop was requested. Whatever the subscriber does, and whatever the background tasks return once a stop
  is requested, the server keeps serving until the quit deadline, while the background tasks are told to stop at once.\<close>

theorem service_ends:
  assumes "group_contract ends" "runUser su version api ms ss cs validate cmd w = (Inr prog, w')"
    and g: "g = run_group ends es (start_group (pr_tasks prog))"
  shows "(gr_cancelled g \<longleftrightarrow> (\<exists>err. Returned ''server'' err \<in> set es) \<or>
      (\<exists>before err after. es = before @ Returned ''cleaner'' (Some err) # after \<and> StopRequested \<notin> set before \<and> QuitDeadline \<notin> set before)) \<and>
    (\<forall>t \<in> set (pr_tasks prog). task_ctx_done g t \<longleftrightarrow>
      gr_cancelled g \<or> QuitDeadline \<in> set es \<or> (tk_name t \<noteq> ''server'' \<and> StopRequested \<in> set es))"
proof -
  obtain v where v: "pr_tasks prog = run_tasks (run_parameters ms ss cs validate cmd v)" "0 < cmd_Duration cmd ''cleanup-interval''"
    using assms(2) by (auto simp: runUser_Inr_iff program_of_def)
  have "task_ctx_done g t \<longleftrightarrow> gr_cancelled g \<or> QuitDeadline \<in> set es \<or> (tk_name t \<noteq> ''server'' \<and> StopRequested \<in> set es)"
    if "t \<in> set (pr_tasks prog)" for t
    using that v(2) by (auto simp: v(1) g run_tasks_parameters task_ctx_done_def run_group_flags)
  then show ?thesis using group_cancelled_iff [OF assms(1) v, of es] unfolding g cleaner_failed_def by blast
qed

definition sample_ends :: "task_kind \<Rightarrow> string option \<Rightarrow> bool" where
  "sample_ends k err = (case k of Required \<Rightarrow> True | Go \<Rightarrow> err \<noteq> None | GoWithRetries opts \<Rightarrow> False)"

lemma sample_runUser:
  "\<exists>prog w'. runUser quiet_set_up ''v1'' sample_revisor (pg_messages_store run_tx run_tx) (pg_settings_store run_tx (\<lambda>_. id) (\<lambda>_. id))
     (pg_config_store run_tx run_tx id id) (ValidateDocument (\<lambda>val dh usage doc. Inr [])) default_command (snapshot empty_db) = (Inr prog, w')"
  by (simp add: runUser_starts [OF snapshot_quiet] default_interval libraries_quiet loadable_without_generation active_generation_def empty_db_def)

theorem service_ends_witness:
  "\<exists>prog. map tk_name (pr_tasks (prog :: (world, json, json list) program)) = [''server'', ''pubsub'', ''cleaner''] \<and>
     \<not> gr_cancelled (run_group sample_ends [Returned ''pubsub'' (Some ''conn''), StopRequested, Returned ''cleaner'' (Some ''ctx'')]
       (start_group (pr_tasks prog))) \<and>
     gr_cancelled (run_group sample_ends [Returned ''cleaner'' (Some ''db'')] (start_group (pr_tasks prog)))"
proof -
  have contract: "group_contract sample_ends" by (simp add: group_contract_def sample_ends_def)
  obtain prog :: "(world, json, json list) program" and w' where prog: "runUser quiet_set_up ''v1'' sample_revisor
     (pg_messages_store run_tx run_tx) (pg_settings_store run_tx (\<lambda>_. id) (\<lambda>_. id))
     (pg_config_store run_tx run_tx id id) (ValidateDocument (\<lambda>val dh usage doc. Inr [])) default_command (snapshot empty_db) = (Inr prog, w')"
    using sample_runUser by blast
  note ends = conjunct1 [OF service_ends [OF contract prog refl]]
  have "\<not> gr_cancelled (run_group sample_ends [Returned ''pubsub'' (Some ''conn''), StopRequested, Returned ''cleaner'' (Some ''ctx'')]
       (start_group (pr_tasks prog)))"
    unfolding ends by (auto simp: Cons_eq_append_conv)
  moreover have "gr_cancelled (run_group sample_ends [Returned ''cleaner'' (Some ''db'')] (start_group (pr_tasks prog)))"
    unfolding ends by (auto simp: Cons_eq_append_conv)
  moreover have "map tk_name (pr_tasks prog) = [''server'', ''pubsub'', ''cleaner'']"
    using prog default_interval by (auto simp: runUser_Inr_iff program_of_def run_tasks_parameters)
  ultimately show ?thesis by (intro exI [of _ prog] conjI)
qed

end
