(* ===== verification/Settings_Spec.thy ===== *)
theory Settings_Spec
  imports Settings_Props
begin

text \<open>
  What the settings store promises, without tables, rows, ids or clocks: a map of documents, a
  map of property values and the list of changes made so far. The operations of
  \<open>internal/settings_store.go\<close> refine it: each call, with other calls in between, takes its
  abstract effect at one point or, when it fails, not at all.
\<close>

section \<open>The specification\<close>

type_synonym spec_key = "string \<times> string \<times> string \<times> string"

record spec_document =
  sd_version :: int
  sd_schema_version :: string
  sd_title :: string
  sd_updated_by :: string
  sd_payload :: json

datatype settings_change =
    DocumentStored spec_key int string
  | DocumentRemoved spec_key string
  | PropertyStored "string \<times> string \<times> string"
  | PropertyRemoved "string \<times> string \<times> string"

record settings_spec =
  spec_docs :: "spec_key \<rightharpoonup> spec_document"
  spec_props :: "string \<times> string \<times> string \<rightharpoonup> string"
  spec_history :: "settings_change list"

definition spec_next_version :: "spec_key \<Rightarrow> settings_spec \<Rightarrow> int" where
  "spec_next_version k s = (case spec_docs s k of None \<Rightarrow> 1 | Some c \<Rightarrow> sd_version c + 1)"

definition spec_update :: "document_update \<Rightarrow> settings_spec \<Rightarrow> settings_spec" where
  "spec_update u s =
     (let v = spec_next_version (update_key u) s in
      s\<lparr>spec_docs := (spec_docs s)(update_key u \<mapsto>
          \<lparr>sd_version = v, sd_schema_version = du_SchemaVersion u, sd_title = du_Title u,
           sd_updated_by = du_UpdatedBy u, sd_payload = jsonb_norm (du_Payload u)\<rparr>),
        spec_history := spec_history s @ [DocumentStored (update_key u) v (du_UpdatedBy u)]\<rparr>)"

definition spec_delete :: "spec_key \<Rightarrow> string \<Rightarrow> settings_spec \<Rightarrow> settings_spec" where
  "spec_delete k updatedBy s =
     (if spec_docs s k = None then s
      else s\<lparr>spec_docs := (spec_docs s)(k := None), spec_history := spec_history s @ [DocumentRemoved k updatedBy]\<rparr>)"

definition spec_set_property :: "string \<Rightarrow> property_update \<Rightarrow> settings_spec \<Rightarrow> settings_spec" where
  "spec_set_property owner p s =
     s\<lparr>spec_props := (spec_props s)(update_target owner p \<mapsto> pu_Value p),
       spec_history := spec_history s @ [PropertyStored (update_target owner p)]\<rparr>"

definition spec_drop_property :: "string \<Rightarrow> property_delete \<Rightarrow> settings_spec \<Rightarrow> settings_spec" where
  "spec_drop_property owner p s =
     (if spec_props s (delete_key owner p) = None then s
      else s\<lparr>spec_props := (spec_props s)(delete_key owner p := None),
             spec_history := spec_history s @ [PropertyRemoved (delete_key owner p)]\<rparr>)"

text \<open>The calls that write, as the store runs them and as the specification says.\<close>

datatype settings_call =
    CallUpdate document_update
  | CallDelete string string string string string
  | CallSet string "property_update list"
  | CallDrop string "property_delete list"

fun call_body :: "property_update sorter \<Rightarrow> property_delete sorter \<Rightarrow> settings_call \<Rightarrow> unit query" where
  "call_body sortu sortd (CallUpdate u) = UpdateDocument_tx u"
| "call_body sortu sortd (CallDelete ow ap ty ky by) = DeleteDocument_tx ow ap ty ky by"
| "call_body sortu sortd (CallSet ow us) = SetProperties_tx sortu ow us"
| "call_body sortu sortd (CallDrop ow ds) = DeleteProperties_tx sortd ow ds"

fun run_call :: "unit tx_runner \<Rightarrow> property_update sorter \<Rightarrow> property_delete sorter \<Rightarrow> settings_call \<Rightarrow> unit query" where
  "run_call tx sortu sortd (CallUpdate u) = UpdateDocument tx u"
| "run_call tx sortu sortd (CallDelete ow ap ty ky by) = DeleteDocument tx ow ap ty ky by"
| "run_call tx sortu sortd (CallSet ow us) = SetProperties tx sortu ow us"
| "run_call tx sortu sortd (CallDrop ow ds) = DeleteProperties tx sortd ow ds"

fun spec_call :: "property_update sorter \<Rightarrow> property_delete sorter \<Rightarrow> settings_call \<Rightarrow> settings_spec \<Rightarrow> settings_spec" where
  "spec_call sortu sortd (CallUpdate u) s = spec_update u s"
| "spec_call sortu sortd (CallDelete ow ap ty ky by) s = spec_delete (ow, ap, ty, ky) by s"
| "spec_call sortu sortd (CallSet ow us) s = fold (spec_set_property ow) (sortu compare_updates us) s"
| "spec_call sortu sortd (CallDrop ow ds) s = fold (spec_drop_property ow) (sortd compare_deletes ds) s"

inductive spec_step :: "settings_spec \<Rightarrow> settings_spec \<Rightarrow> bool" where
  stutter: "spec_step s s"
| updated: "spec_step s (spec_update u s)"
| deleted: "spec_step s (spec_delete k by s)"
| set: "spec_step s (fold (spec_set_property ow) us s)"
| dropped: "spec_step s (fold (spec_drop_property ow) ds s)"

lemma run_call_body: "run_call tx sortu sortd c = tx (call_body sortu sortd c)"
  by (cases c) (auto simp: UpdateDocument_def DeleteDocument_def SetProperties_def DeleteProperties_def)

section \<open>The abstraction\<close>

definition abs_document :: "document_row \<Rightarrow> spec_document" where
  "abs_document r = \<lparr>sd_version = d_version r, sd_schema_version = d_schema_version r, sd_title = d_title r,
     sd_updated_by = d_updated_by r, sd_payload = d_payload r\<rparr>"

definition abs_event :: "event_row \<Rightarrow> settings_change" where
  "abs_event e =
     (let k = (ev_owner e, ev_application e, text_string (ev_document_type e), ev_key e);
          p = (ev_owner e, ev_application e, ev_key e) in
      case (ev_resource_kind e, ev_type e) of
        (ResourceKindDocument, EventTypeUpdate) \<Rightarrow>
          DocumentStored k (case ev_version e of None \<Rightarrow> 0 | Some v \<Rightarrow> v) (ev_updated_by e)
      | (ResourceKindDocument, EventTypeDelete) \<Rightarrow> DocumentRemoved k (ev_updated_by e)
      | (ResourceKindProperty, EventTypeUpdate) \<Rightarrow> PropertyStored p
      | (ResourceKindProperty, EventTypeDelete) \<Rightarrow> PropertyRemoved p)"

definition abs_tables :: "document_row list \<Rightarrow> property_row list \<Rightarrow> event_row list \<Rightarrow> settings_spec" where
  "abs_tables docs props evs =
     \<lparr>spec_docs = (\<lambda>k. map_option abs_document (row_at doc_key k docs)),
      spec_props = (\<lambda>k. map_option p_value (row_at prop_key k props)),
      spec_history = map abs_event evs\<rparr>"

definition abs_settings :: "db \<Rightarrow> settings_spec" where
  "abs_settings d = abs_tables (documents d) (properties d) (eventlog d)"

lemma abs_settings_cong:
  "documents d' = documents d \<Longrightarrow> properties d' = properties d \<Longrightarrow> eventlog d' = eventlog d \<Longrightarrow>
     abs_settings d' = abs_settings d"
  by (simp add: abs_settings_def)

lemma abs_event_stamp: "abs_event (e\<lparr>ev_id := n, ev_created := t\<rparr>) = abs_event e"
  by (cases "ev_type e"; cases "ev_resource_kind e") (simp_all add: abs_event_def Let_def)

lemma abs_log_rows: "map abs_event (log_rows clk p n es) = map abs_event es"
  by (induction es arbitrary: p n) (simp_all add: abs_event_stamp)

lemma abs_settings_logged:
  "abs_settings (logged clk p es d) = abs_tables (documents d) (properties d) (eventlog d @ es)"
  by (simp add: abs_settings_def abs_tables_def abs_log_rows)

lemma abs_document_event:
  "abs_event (document_event ow EventTypeUpdate ap ty ky (Some v) by) = DocumentStored (ow, ap, ty, ky) v by"
  "abs_event (document_event ow EventTypeDelete ap ty ky v' by) = DocumentRemoved (ow, ap, ty, ky) by"
  "abs_event (property_event ow EventTypeUpdate ap ky) = PropertyStored (ow, ap, ky)"
  "abs_event (property_event ow EventTypeDelete ap ky) = PropertyRemoved (ow, ap, ky)"
  by (simp_all add: abs_event_def document_event_def property_event_def text_string_def)

section \<open>Each effect is the abstract operation\<close>

lemma abs_update_document:
  "abs_settings (update_document_effect u created now clk p d) = spec_update u (abs_settings d)"
proof -
  let ?r = "updated_document u now d"
  have v: "spec_next_version (update_key u) (abs_settings d) = d_version ?r"
    by (cases "row_at doc_key (update_key u) (documents d)")
      (simp_all add: spec_next_version_def abs_settings_def abs_tables_def updated_document_def abs_document_def)
  have doc: "abs_document ?r = \<lparr>sd_version = d_version ?r, sd_schema_version = du_SchemaVersion u,
      sd_title = du_Title u, sd_updated_by = du_UpdatedBy u, sd_payload = jsonb_norm (du_Payload u)\<rparr>"
    by (simp add: abs_document_def updated_document_def Let_def)
  show ?thesis
    unfolding update_document_effect_def abs_settings_logged
    by (simp add: spec_update_def Let_def v)
      (simp add: put_document_def abs_settings_def abs_tables_def fun_eq_iff row_at_put_row doc abs_document_event)
qed

lemma abs_delete_document:
  "abs_settings (delete_document_effect ow ap ty ky by clk p d) = spec_delete (ow, ap, ty, ky) by (abs_settings d)"
proof (cases "row_at doc_key (ow, ap, ty, ky) (documents d)")
  case None
  then show ?thesis by (simp add: delete_document_effect_def spec_delete_def abs_settings_def abs_tables_def)
next
  case (Some r)
  have "abs_settings (delete_document_effect ow ap ty ky by clk p d) =
      abs_tables (drop_row doc_key (ow, ap, ty, ky) (documents d)) (properties d)
        (eventlog d @ [document_event ow EventTypeDelete ap ty ky None by])"
    using Some by (simp add: delete_document_effect_def abs_settings_logged)
  then show ?thesis
    using Some by (simp add: spec_delete_def abs_settings_def abs_tables_def fun_eq_iff row_at_drop_row abs_document_event)
qed

lemma abs_put_property:
  "abs_tables docs (put_property ow now p props) (evs @ [property_event ow EventTypeUpdate (pu_Application p) (pu_Key p)]) =
     spec_set_property ow p (abs_tables docs props evs)"
  by (simp add: abs_tables_def spec_set_property_def fun_eq_iff row_at_put_property abs_document_event)

lemma abs_put_properties:
  "abs_tables docs (fold (put_property ow now) ps props) (evs @ property_events ow ps) =
     fold (spec_set_property ow) ps (abs_tables docs props evs)"
proof (induction ps arbitrary: props evs)
  case (Cons p ps)
  let ?e = "property_event ow EventTypeUpdate (pu_Application p) (pu_Key p)"
  have "property_events ow (p # ps) = ?e # property_events ow ps" by (simp add: property_events_def)
  with Cons.IH [of "put_property ow now p props" "evs @ [?e]"] show ?case by (simp add: abs_put_property)
qed (simp add: property_events_def)

lemma abs_drop_property:
  "row_at prop_key (delete_key ow p) props \<noteq> None \<Longrightarrow>
     abs_tables docs (drop_row prop_key (delete_key ow p) props)
       (evs @ [property_event ow EventTypeDelete (pd_Application p) (pd_Key p)]) =
     spec_drop_property ow p (abs_tables docs props evs)"
  by (auto simp: abs_tables_def spec_drop_property_def fun_eq_iff row_at_drop_row abs_document_event)

lemma abs_drop_missing:
  "row_at prop_key (delete_key ow p) props = None \<Longrightarrow>
     spec_drop_property ow p (abs_tables docs props evs) = abs_tables docs props evs"
  by (simp add: abs_tables_def spec_drop_property_def)

lemma abs_drop_properties:
  "abs_tables docs (drop_properties ow ps props) (evs @ dropped_events ow ps props) =
     fold (spec_drop_property ow) ps (abs_tables docs props evs)"
proof (induction ps arbitrary: props evs)
  case (Cons p ps)
  let ?e = "property_event ow EventTypeDelete (pd_Application p) (pd_Key p)"
  let ?props = "drop_row prop_key (delete_key ow p) props"
  note IH = Cons.IH [unfolded drop_properties_def]
  show ?case
  proof (cases "row_at prop_key (delete_key ow p) props = None")
    case True
    then show ?thesis using IH [of props evs] by (simp add: drop_properties_def drop_row_None abs_drop_missing)
  next
    case False
    have "dropped_events ow (p # ps) props = ?e # dropped_events ow ps ?props" using False by auto
    then show ?thesis using IH [of ?props "evs @ [?e]"] by (simp add: drop_properties_def abs_drop_property [OF False])
  qed
qed (simp add: drop_properties_def)

lemma abs_set_properties:
  "abs_settings (set_properties_effect ow us created now clk p d) = fold (spec_set_property ow) us (abs_settings d)"
  using abs_put_properties [of "documents d" ow now us "properties d" "eventlog d"]
  by (simp add: set_properties_effect_def abs_settings_logged) (simp add: abs_settings_def)

lemma abs_delete_properties:
  "abs_settings (delete_properties_effect ow ds clk p d) = fold (spec_drop_property ow) ds (abs_settings d)"
  using abs_drop_properties [of "documents d" ow ds "properties d" "eventlog d"]
  by (simp add: delete_properties_effect_def abs_settings_logged) (simp add: abs_settings_def)

lemma abs_call_body:
  "call_body sortu sortd c w = (Inr (), w') \<Longrightarrow> abs_settings (db w') = spec_call sortu sortd c (abs_settings (db w))"
  by (cases c)
    (auto dest!: UpdateDocument_tx_effect(1) DeleteDocument_tx_effect SetProperties_tx_effect(1) DeleteProperties_tx_effect
      simp: abs_update_document abs_delete_document abs_set_properties abs_delete_properties)

section \<open>The refinement\<close>

text \<open>Every step of the store, whatever component takes it, is a step of the specification.\<close>

lemma store_step_refines: "store_step d d' \<Longrightarrow> spec_step (abs_settings d) (abs_settings d')"
proof -
  assume "store_step d d'"
  then have "store_effect d d'" by (rule store_step_effect)
  then show ?thesis
  proof (cases rule: store_effect.cases)
    case configured
    then have "abs_settings d' = abs_settings d"
      by (intro abs_settings_cong) (simp_all add: config_step_def config_frame_def)
    then show ?thesis by (simp add: spec_step.stutter)
  qed (simp_all add: abs_update_document abs_delete_document abs_set_properties abs_delete_properties spec_step.intros,
      simp_all add: effect_defs abs_settings_def spec_step.stutter)
qed

lemma store_steps_refine: "store_step\<^sup>*\<^sup>* d d' \<Longrightarrow> spec_step\<^sup>*\<^sup>* (abs_settings d) (abs_settings d')"
  by (induction rule: rtranclp_induct) (auto dest: store_step_refines intro: rtranclp.rtrancl_into_rtrancl)

lemma abs_settings_seq [simp]: "abs_settings (d\<lparr>generation_seq := n\<rparr>) = abs_settings d"
  by (simp add: abs_settings_def)

text \<open>C7: the settings store refines the abstract store of documents, property values and changes: other calls
  only ever take abstract steps, a call that succeeds has the abstract effect of its operation at one
  point, and a call that fails has none, except that a commit whose answer was lost may have happened.\<close>

theorem settings_refine_spec:
  assumes "step_runner tx" "run_call tx sortu sortd c w = (r, w')"
  shows "\<exists>s. spec_step\<^sup>*\<^sup>* (abs_settings (db w)) s \<and>
    (case r of
       Inr _ \<Rightarrow> abs_settings (db w') = spec_call sortu sortd c s
     | Inl e \<Rightarrow> abs_settings (db w') = s \<or> e = TxFault \<and> abs_settings (db w') = spec_call sortu sortd c s)"
proof (cases r)
  case (Inr a)
  then have "tx (call_body sortu sortd c) w = (Inr a, w')" using assms(2) by (simp add: run_call_body)
  then obtain d t p wc p' where "store_step\<^sup>*\<^sup>* (db w) d" "call_body sortu sortd c (begun d t p w) = (Inr a, wc)" "w' = wc\<lparr>pos := p'\<rparr>"
    using tx_contract_Inr [OF assms(1) [unfolded step_runner_def]] by blast
  then show ?thesis
    using Inr by (intro exI [of _ "abs_settings d"]) (auto dest: abs_call_body intro: store_steps_refine)
next
  case (Inl e)
  then have "tx (call_body sortu sortd c) w = (Inl e, w')" using assms(2) by (simp add: run_call_body)
  with assms(1) [unfolded step_runner_def] show ?thesis
  proof (cases rule: tx_contract_Inl)
    case (body_failed d)
    then show ?thesis using Inl by (intro exI [of _ "abs_settings d"]) (auto intro: store_steps_refine)
  next
    case not_begun
    then show ?thesis using Inl by (intro exI [of _ "abs_settings (db w')"]) (auto intro: store_steps_refine)
  next
    case (lost d)
    then show ?thesis using Inl by (intro exI [of _ "abs_settings d"]) (auto intro: store_steps_refine)
  next
    case (applied d)
    then show ?thesis
      using Inl by (intro exI [of _ "abs_settings d"]) (auto dest: abs_call_body intro: store_steps_refine)
  qed
qed

theorem settings_refine_spec_witness:
  "\<exists>s c. spec_step\<^sup>*\<^sup>* (abs_settings empty_db) s \<and>
     abs_settings (db written) = spec_call (sample_sort pu_Key) (sample_sort pd_Key) (CallUpdate c) s"
proof -
  have "run_call run_tx (sample_sort pu_Key) (sample_sort pd_Key) (CallUpdate \<lparr>du_Owner = ''u'', du_Application = ''app'',
     du_Type = ''ty'', du_Key = ''k'', du_SchemaVersion = ''v1'', du_Title = ''t'', du_UpdatedBy = ''u'',
     du_Payload = JBool True\<rparr>) (snapshot empty_db) = (Inr (), written)"
    using sample_update_store by simp
  from settings_refine_spec [OF run_tx_step_runner this] show ?thesis by auto
qed

end
