(* ===== verification/Statements.thy ===== *)
theory Statements
  imports Settings_Spec
begin

text \<open>
  The settings transactions taken apart into their statements: what each statement locks, writes
  and contributes to the eventlog. The bodies of \<open>internal/settings_store.go\<close> are a list of data
  statements followed by \<open>logAndNotifyAll\<close> (\<open>call_body_statements\<close>).
\<close>

section \<open>Statements\<close>

datatype data_stmt =
    PutUser string int user_kind
  | PutDoc document_update
  | DropDoc string string string string string
  | PutProp string property_update
  | DropProp string property_delete

text \<open>The statement on a document, with the entry its transaction logs for it.\<close>

fun update_statement :: "document_update \<Rightarrow> event_row list query" where
  "update_statement u =
     bindM (q_UpsertDocument u) (\<lambda>version.
     returnM [document_event (du_Owner u) EventTypeUpdate (du_Application u) (du_Type u) (du_Key u)
       (Some version) (du_UpdatedBy u)])"

fun delete_statement :: "string \<Rightarrow> string \<Rightarrow> string \<Rightarrow> string \<Rightarrow> string \<Rightarrow> event_row list query" where
  "delete_statement owner application docType key updatedBy =
     catchM (q_DeleteDocument owner application docType key) (\<lambda>r.
       case r of
         Inl e \<Rightarrow> if e = ErrNoRows then returnM [] else failM e
       | Inr _ \<Rightarrow> returnM [document_event owner EventTypeDelete application docType key None updatedBy])"

fun stmt_query :: "data_stmt \<Rightarrow> event_row list query" where
  "stmt_query (PutUser sub created kind) = bindM (q_UpsertUser sub created kind) (\<lambda>_. returnM [])"
| "stmt_query (PutDoc u) = update_statement u"
| "stmt_query (DropDoc ow ap ty ky by) = delete_statement ow ap ty ky by"
| "stmt_query (PutProp ow p) = bindM (set_property ow p) (\<lambda>e. returnM [e])"
| "stmt_query (DropProp ow p) = delete_property ow p"

text \<open>The statements of a call, in the order of the code; \<open>created\<close> is the clock reading that goes into the user row.\<close>

fun update_stmts :: "int \<Rightarrow> document_update \<Rightarrow> data_stmt list" where
  "update_stmts created u = [PutUser (du_Owner u) created (ownerToUserKind (du_Owner u)), PutDoc u]"

fun set_stmts :: "property_update sorter \<Rightarrow> int \<Rightarrow> string \<Rightarrow> property_update list \<Rightarrow> data_stmt list" where
  "set_stmts sortf created owner updates =
     PutUser owner created UserKindUser # map (PutProp owner) (sortf compare_updates updates)"

fun drop_stmts :: "property_delete sorter \<Rightarrow> string \<Rightarrow> property_delete list \<Rightarrow> data_stmt list" where
  "drop_stmts sortf owner deletes = map (DropProp owner) (sortf compare_deletes deletes)"

fun call_stmts :: "property_update sorter \<Rightarrow> property_delete sorter \<Rightarrow> int \<Rightarrow> settings_call \<Rightarrow> data_stmt list" where
  "call_stmts sortu sortd created (CallUpdate u) = update_stmts created u"
| "call_stmts sortu sortd created (CallDelete ow ap ty ky by) = [DropDoc ow ap ty ky by]"
| "call_stmts sortu sortd created (CallSet ow us) = set_stmts sortu created ow us"
| "call_stmts sortu sortd created (CallDrop ow ds) = drop_stmts sortd ow ds"

definition stmts_body :: "data_stmt list \<Rightarrow> unit query" where
  "stmts_body ss = bindM (for_each stmt_query ss) (\<lambda>evs. logAndNotifyAll (concat evs))"

lemma bindM_Pair [simp]: "bindM (Pair (Inr a)) f = f a"
  by (simp add: bindM_def fun_eq_iff)

lemma for_each_map: "for_each f (map g xs) = for_each (\<lambda>x. f (g x)) xs"
  by (induction xs) simp_all

lemma for_each_bind_return: "for_each (\<lambda>x. bindM (f x) (\<lambda>a. returnM (h a))) xs = bindM (for_each f xs) (\<lambda>as. returnM (map h as))"
  by (induction xs) (simp_all add: bindM_assoc)

text \<open>The code's transaction bodies, statement by statement.\<close>

lemma call_body_statements:
  "call_body sortu sortd (CallUpdate u) = bindM time_now (\<lambda>now. stmts_body (call_stmts sortu sortd now (CallUpdate u)))"
  "call_body sortu sortd (CallDelete ow ap ty ky by) = stmts_body (call_stmts sortu sortd now (CallDelete ow ap ty ky by))"
  "call_body sortu sortd (CallSet ow us) = bindM time_now (\<lambda>now. stmts_body (call_stmts sortu sortd now (CallSet ow us)))"
  "call_body sortu sortd (CallDrop ow ds) = stmts_body (call_stmts sortu sortd now (CallDrop ow ds))"
proof -
  show "call_body sortu sortd (CallUpdate u) = bindM time_now (\<lambda>now. stmts_body (call_stmts sortu sortd now (CallUpdate u)))"
    by (simp add: UpdateDocument_tx_def stmts_body_def bindM_assoc logAndNotify_def)
  show "call_body sortu sortd (CallDelete ow ap ty ky by) = stmts_body (call_stmts sortu sortd now (CallDelete ow ap ty ky by))"
    by (rule ext) (auto simp: DeleteDocument_tx_def stmts_body_def bindM_def catchM_def logAndNotify_def logAndNotifyAll_def
        split: prod.splits sum.splits)
  show "call_body sortu sortd (CallSet ow us) = bindM time_now (\<lambda>now. stmts_body (call_stmts sortu sortd now (CallSet ow us)))"
    by (simp add: SetProperties_tx_def stmts_body_def bindM_assoc for_each_map for_each_bind_return)
  show "call_body sortu sortd (CallDrop ow ds) = stmts_body (call_stmts sortu sortd now (CallDrop ow ds))"
    by (simp add: DeleteProperties_tx_def stmts_body_def for_each_map)
qed

section \<open>What a statement writes\<close>

datatype row_write =
    WUser string int user_kind
  | WDoc document_row
  | WDropDoc spec_key
  | WProp property_row
  | WDropProp "string \<times> string \<times> string"

fun apply_write :: "row_write \<Rightarrow> db \<Rightarrow> db" where
  "apply_write (WUser sub created kind) d = d\<lparr>users := with_user sub created kind (users d)\<rparr>"
| "apply_write (WDoc r) d = d\<lparr>documents := put_row doc_key r (documents d)\<rparr>"
| "apply_write (WDropDoc k) d = d\<lparr>documents := drop_row doc_key k (documents d)\<rparr>"
| "apply_write (WProp r) d = d\<lparr>properties := put_row prop_key r (properties d)\<rparr>"
| "apply_write (WDropProp k) d = d\<lparr>properties := drop_row prop_key k (properties d)\<rparr>"

abbreviation apply_writes :: "row_write list \<Rightarrow> db \<Rightarrow> db" where
  "apply_writes ws d \<equiv> fold apply_write ws d"

definition property_row_of :: "string \<Rightarrow> int \<Rightarrow> property_update \<Rightarrow> db \<Rightarrow> property_row" where
  "property_row_of owner now p d =
     \<lparr>p_owner = owner, p_application = pu_Application p, p_key = pu_Key p, p_value = pu_Value p,
      p_created = (case row_at prop_key (update_target owner p) (properties d) of None \<Rightarrow> now | Some r \<Rightarrow> p_created r),
      p_updated = now\<rparr>"

fun stmt_writes :: "int \<Rightarrow> data_stmt \<Rightarrow> db \<Rightarrow> row_write list" where
  "stmt_writes now (PutUser sub created kind) d = (if users d sub = None then [WUser sub created kind] else [])"
| "stmt_writes now (PutDoc u) d = [WDoc (updated_document u now d)]"
| "stmt_writes now (DropDoc ow ap ty ky by) d =
     (if row_at doc_key (ow, ap, ty, ky) (documents d) = None then [] else [WDropDoc (ow, ap, ty, ky)])"
| "stmt_writes now (PutProp ow p) d = [WProp (property_row_of ow now p d)]"
| "stmt_writes now (DropProp ow p) d =
     (if row_at prop_key (delete_key ow p) (properties d) = None then [] else [WDropProp (delete_key ow p)])"

fun stmt_events :: "int \<Rightarrow> data_stmt \<Rightarrow> db \<Rightarrow> event_row list" where
  "stmt_events now (PutUser sub created kind) d = []"
| "stmt_events now (PutDoc u) d = [document_event (du_Owner u) EventTypeUpdate (du_Application u) (du_Type u) (du_Key u)
     (Some (d_version (updated_document u now d))) (du_UpdatedBy u)]"
| "stmt_events now (DropDoc ow ap ty ky by) d =
     (if row_at doc_key (ow, ap, ty, ky) (documents d) = None then [] else [document_event ow EventTypeDelete ap ty ky None by])"
| "stmt_events now (PutProp ow p) d = [property_event ow EventTypeUpdate (pu_Application p) (pu_Key p)]"
| "stmt_events now (DropProp ow p) d =
     (if row_at prop_key (delete_key ow p) (properties d) = None then []
      else [property_event ow EventTypeDelete (pd_Application p) (pd_Key p)])"

text \<open>What the database checks: the owner's user row and the range of the version.\<close>

fun stmt_ok :: "int \<Rightarrow> data_stmt \<Rightarrow> db \<Rightarrow> bool" where
  "stmt_ok now (PutDoc u) d =
     (case row_at doc_key (update_key u) (documents d) of
        None \<Rightarrow> users d (du_Owner u) \<noteq> None
      | Some _ \<Rightarrow> in_bigint (d_version (updated_document u now d)))"
| "stmt_ok now (PutProp ow p) d =
     (row_at prop_key (update_target ow p) (properties d) = None \<longrightarrow> users d ow \<noteq> None)"
| "stmt_ok now s d = True"

lemma with_user_present: "us s \<noteq> None \<Longrightarrow> with_user s t k us = us"
  by (auto simp: with_user_def)

lemma stmt_query_iff:
  "stmt_query s w = (Inr evs, w') \<longleftrightarrow>
     \<not> fault w (pos w) \<and> stmt_ok (sql_now w) s (db w) \<and> evs = stmt_events (sql_now w) s (db w) \<and>
     w' = step_to (apply_writes (stmt_writes (sql_now w) s (db w)) (db w)) w"
proof (cases s)
  case (PutUser sub created kind)
  then show ?thesis by (auto simp: bindM_Inr_iff q_UpsertUser_iff with_user_present)
next
  case (PutDoc u)
  then show ?thesis by (auto simp: bindM_Inr_iff q_UpsertDocument_iff put_document_def)
next
  case (DropDoc ow ap ty ky "by")
  then show ?thesis by (auto simp: catchM_def q_DeleteDocument_eq split: sum.splits if_splits)
next
  case (PutProp ow p)
  then show ?thesis by (auto simp: bindM_Inr_iff set_property_iff put_property_def property_row_of_def)
next
  case (DropProp ow p)
  then show ?thesis by (auto simp: delete_property_iff drop_row_None)
qed

section \<open>A batch of statements\<close>

text \<open>The writes and events of statements run in turn, each on what the ones before it left.\<close>

fun exec_stmts :: "int \<Rightarrow> data_stmt list \<Rightarrow> db \<Rightarrow> row_write list \<times> event_row list" where
  "exec_stmts now [] d = ([], [])"
| "exec_stmts now (s # ss) d =
     (let ws = stmt_writes now s d; (ws', es') = exec_stmts now ss (apply_writes ws d)
      in (ws @ ws', stmt_events now s d @ es'))"

text \<open>A deletion that finds no row writes nothing and locks nothing.\<close>

fun missed :: "data_stmt \<Rightarrow> db \<Rightarrow> bool" where
  "missed (DropDoc ow ap ty ky by) d \<longleftrightarrow> row_at doc_key (ow, ap, ty, ky) (documents d) = None"
| "missed (DropProp ow p) d \<longleftrightarrow> row_at prop_key (delete_key ow p) (properties d) = None"
| "missed s d \<longleftrightarrow> False"

fun stmts_ok :: "int \<Rightarrow> data_stmt list \<Rightarrow> db \<Rightarrow> bool" where
  "stmts_ok now [] d = True"
| "stmts_ok now (s # ss) d =
     (stmt_ok now s d \<and> \<not> missed s d \<and> stmts_ok now ss (apply_writes (stmt_writes now s d) d))"

lemma exec_stmts_snoc:
  "exec_stmts now ss d = (ws, es) \<Longrightarrow>
     exec_stmts now (ss @ [s]) d = (ws @ stmt_writes now s (apply_writes ws d), es @ stmt_events now s (apply_writes ws d))"
  by (induction ss arbitrary: d ws es) (auto simp: Let_def split: prod.splits)

lemma stmts_ok_snoc:
  "exec_stmts now ss d = (ws, es) \<Longrightarrow>
     stmts_ok now (ss @ [s]) d \<longleftrightarrow> stmts_ok now ss d \<and> stmt_ok now s (apply_writes ws d) \<and> \<not> missed s (apply_writes ws d)"
  by (induction ss arbitrary: d ws es) (auto simp: Let_def split: prod.splits)

lemma for_each_stmts:
  assumes "stmts_ok (sql_now w) ss (db w)" "\<And>n. \<not> fault w n" "exec_stmts (sql_now w) ss (db w) = (ws, es)"
  obtains evs w' where "for_each stmt_query ss w = (Inr evs, w')" "concat evs = es" "db w' = apply_writes ws (db w)"
    "pos w' = pos w + length ss" "same_env w w'"
  using assms
proof (induction ss arbitrary: w ws es thesis)
  case (Cons s ss)
  let ?w1 = "step_to (apply_writes (stmt_writes (sql_now w) s (db w)) (db w)) w"
  obtain ws1 es1 where 1: "exec_stmts (sql_now w) ss (db ?w1) = (ws1, es1)"
    "ws = stmt_writes (sql_now w) s (db w) @ ws1" "es = stmt_events (sql_now w) s (db w) @ es1"
    using Cons.prems(4) by (auto simp: Let_def split: prod.splits)
  obtain evs w' where 2: "for_each stmt_query ss ?w1 = (Inr evs, w')" "concat evs = es1" "db w' = apply_writes ws1 (db ?w1)"
    "pos w' = pos ?w1 + length ss" "same_env ?w1 w'"
    by (rule Cons.IH [where w = ?w1 and ws = ws1 and es = es1]) (use Cons.prems(2,3) 1(1) in simp_all)
  have "stmt_query s w = (Inr (stmt_events (sql_now w) s (db w)), ?w1)"
    using Cons.prems(2,3) by (simp add: stmt_query_iff)
  then have all: "for_each stmt_query (s # ss) w = (Inr (stmt_events (sql_now w) s (db w) # evs), w')"
    using 2(1) by (auto simp: bindM_Inr_iff)
  show ?case
    by (rule Cons.prems(1) [OF all]) (use 1 2(2-4) same_env_trans [OF same_env_step(1) 2(5)] in simp_all)
qed simp

lemma stmts_body_total:
  assumes "stmts_ok (sql_now w) ss (db w)" "\<And>n. \<not> fault w n" "exec_stmts (sql_now w) ss (db w) = (ws, es)"
    and "eventlog_ok (apply_writes ws (db w))" "es \<noteq> [] \<Longrightarrow> in_bigint (event_counter (apply_writes ws (db w)) + int (length es))"
  obtains w' where "stmts_body ss w = (Inr (), w')"
    "db w' = logged (clock w) (pos w + length ss + 1) es (apply_writes ws (db w))"
proof -
  obtain evs w1 where 1: "for_each stmt_query ss w = (Inr evs, w1)" "concat evs = es" "db w1 = apply_writes ws (db w)"
    "pos w1 = pos w + length ss" "same_env w w1"
    by (rule for_each_stmts [OF assms(1-3)])
  have env: "clock w1 = clock w" "fault w1 = fault w" using 1(5) by (simp_all add: same_env_def)
  note counter = eventlog_ok_counter [OF assms(4)]
  have "\<forall>e \<in> set (eventlog (db w1)). ev_id e \<le> event_counter (db w1)"
  proof
    fix e assume "e \<in> set (eventlog (db w1))"
    then have "ev_id e \<in> set (map ev_id (eventlog (db w1)))" by simp
    then show "ev_id e \<le> event_counter (db w1)" using counter by (simp add: 1(3))
  qed
  then have "es \<noteq> [] \<Longrightarrow> \<exists>w'. logAndNotifyAll es w1 = (Inr (), w')"
    using logAndNotifyAll_total [of w1 "event_counter (db w1)" es] assms(2,5) counter by (auto simp: 1(3) env)
  then obtain w' where 2: "logAndNotifyAll es w1 = (Inr (), w')"
    by (cases "es = []") (auto simp: logAndNotifyAll_def)
  have "stmts_body ss w = (Inr (), w')" using 1(1,2) 2 by (auto simp: stmts_body_def bindM_Inr_iff)
  then show thesis
    using that logAndNotifyAll_effect(1) [OF 2] by (simp add: 1(3,4) env)
qed

end
