(* ===== verification/Interleaving.thy ===== *)
theory Interleaving
  imports Statements "HOL-Library.Sublist"
begin

text \<open>
  Settings transactions whose statements interleave, under the rules of PostgreSQL at the isolation
  level the code uses (read committed): a statement reads what has been committed and what its own
  transaction has written; a write locks its row until the transaction ends, and waits while another
  transaction has locked it; a deletion that finds no row locks nothing; the transaction that has
  reserved ids has locked the counter row. A transaction may abort at any moment. The invariant
  relates every active transaction to what has been committed so far: run now, on the rows it has
  locked, its statements would do just what they did. So every commit is a step of the store.
\<close>

section \<open>Row locks\<close>

datatype lock =
    UserLock string
  | DocLock spec_key
  | PropLock "string \<times> string \<times> string"

fun write_lock :: "row_write \<Rightarrow> lock" where
  "write_lock (WUser sub created kind) = UserLock sub"
| "write_lock (WDoc r) = DocLock (doc_key r)"
| "write_lock (WDropDoc k) = DocLock k"
| "write_lock (WProp r) = PropLock (prop_key r)"
| "write_lock (WDropProp k) = PropLock k"

fun stmt_lock :: "data_stmt \<Rightarrow> lock" where
  "stmt_lock (PutUser sub created kind) = UserLock sub"
| "stmt_lock (PutDoc u) = DocLock (update_key u)"
| "stmt_lock (DropDoc ow ap ty ky by) = DocLock (ow, ap, ty, ky)"
| "stmt_lock (PutProp ow p) = PropLock (update_target ow p)"
| "stmt_lock (DropProp ow p) = PropLock (delete_key ow p)"

definition locks_of :: "row_write list \<Rightarrow> lock set" where
  "locks_of ws = write_lock ` set ws"

lemma locks_of_simps [simp]:
  "locks_of [] = {}" "locks_of (w # ws) = insert (write_lock w) (locks_of ws)" "locks_of (ws @ vs) = locks_of ws \<union> locks_of vs"
  by (auto simp: locks_of_def)

lemma stmt_writes_lock: "locks_of (stmt_writes now s d) \<subseteq> {stmt_lock s}"
  by (cases s) (simp_all add: property_row_of_def)

text \<open>Two databases that agree on the locked rows; users are only ever added.\<close>

definition agree :: "lock set \<Rightarrow> db \<Rightarrow> db \<Rightarrow> bool" where
  "agree L d e \<longleftrightarrow>
     (\<forall>k. DocLock k \<in> L \<longrightarrow> row_at doc_key k (documents e) = row_at doc_key k (documents d)) \<and>
     (\<forall>k. PropLock k \<in> L \<longrightarrow> row_at prop_key k (properties e) = row_at prop_key k (properties d)) \<and>
     (\<forall>s. UserLock s \<in> L \<longrightarrow> users e s = users d s) \<and>
     (\<forall>s u. users d s = Some u \<longrightarrow> users e s = Some u)"

lemma agree_refl [simp]: "agree L d d"
  by (simp add: agree_def)

lemma agree_trans: "agree L d e \<Longrightarrow> agree L e f \<Longrightarrow> agree L d f"
  by (simp add: agree_def)

lemma agree_mono: "agree L d e \<Longrightarrow> K \<subseteq> L \<Longrightarrow> agree K d e"
  by (auto simp: agree_def)

lemma agree_logged [simp]: "agree L d (logged clk p es e) \<longleftrightarrow> agree L d e"
  by (simp add: agree_def)

lemma agree_write: "agree L d e \<Longrightarrow> write_lock w \<in> L \<Longrightarrow> agree L (apply_write w d) (apply_write w e)"
  by (cases w) (auto simp: agree_def row_at_put_row row_at_drop_row with_user_def split: option.splits)

lemma agree_other: "write_lock w \<notin> L \<Longrightarrow> agree L d (apply_write w d)"
  by (cases w) (auto simp: agree_def row_at_put_row row_at_drop_row with_user_def split: option.splits)

lemma agree_writes: "agree L d e \<Longrightarrow> locks_of ws \<subseteq> L \<Longrightarrow> agree L (apply_writes ws d) (apply_writes ws e)"
  by (induction ws arbitrary: d e) (auto intro: agree_write)

lemma agree_others: "locks_of ws \<inter> L = {} \<Longrightarrow> agree L d (apply_writes ws d)"
proof (induction ws arbitrary: d)
  case (Cons w ws)
  then have "agree L d (apply_write w d)" by (intro agree_other) auto
  moreover have "agree L (apply_write w d) (apply_writes ws (apply_write w d))" using Cons by auto
  ultimately show ?case by (auto intro: agree_trans)
qed simp

text \<open>On databases that agree on what a statement locks it does the same.\<close>

lemma stmt_agree:
  assumes "agree L d e" "locks_of (stmt_writes now s d) \<subseteq> L" "\<not> missed s d"
  shows "stmt_writes now s e = stmt_writes now s d" "stmt_events now s e = stmt_events now s d"
    "stmt_ok now s d \<Longrightarrow> stmt_ok now s e" "\<not> missed s e"
proof -
  have "stmt_writes now s e = stmt_writes now s d \<and> stmt_events now s e = stmt_events now s d \<and>
      (stmt_ok now s d \<longrightarrow> stmt_ok now s e) \<and> \<not> missed s e"
  proof (cases s)
    case (PutUser sub created kind)
    then show ?thesis using assms by (cases "users d sub") (auto simp: agree_def)
  next
    case (PutDoc u)
    then have "DocLock (update_key u) \<in> L" using assms(2) by simp
    then have row: "row_at doc_key (update_key u) (documents e) = row_at doc_key (update_key u) (documents d)"
      using assms(1) by (simp add: agree_def)
    then have "updated_document u now e = updated_document u now d" by (simp add: updated_document_def)
    then show ?thesis
      using PutDoc row assms(1) by (cases "row_at doc_key (update_key u) (documents d)") (auto simp: agree_def)
  next
    case (DropDoc ow ap ty ky "by")
    with assms(2,3) have "DocLock (ow, ap, ty, ky) \<in> L" by auto
    then show ?thesis using DropDoc assms(1,3) by (simp add: agree_def)
  next
    case (PutProp ow p)
    then have "PropLock (update_target ow p) \<in> L" using assms(2) by (simp add: property_row_of_def)
    then have "row_at prop_key (update_target ow p) (properties e) = row_at prop_key (update_target ow p) (properties d)"
      using assms(1) by (simp add: agree_def)
    then show ?thesis using PutProp assms(1) by (auto simp: agree_def property_row_of_def)
  next
    case (DropProp ow p)
    with assms(2,3) have "PropLock (delete_key ow p) \<in> L" by auto
    then show ?thesis using DropProp assms(1,3) by (simp add: agree_def)
  qed
  then show "stmt_writes now s e = stmt_writes now s d" "stmt_events now s e = stmt_events now s d"
    "stmt_ok now s d \<Longrightarrow> stmt_ok now s e" "\<not> missed s e" by blast+
qed

lemma exec_agree:
  assumes "agree L d e" "exec_stmts now ss d = (ws, es)" "locks_of ws \<subseteq> L" "stmts_ok now ss d"
  shows "exec_stmts now ss e = (ws, es) \<and> stmts_ok now ss e"
  using assms
proof (induction ss arbitrary: d e ws es)
  case (Cons s ss)
  let ?d1 = "apply_writes (stmt_writes now s d) d" and ?e1 = "apply_writes (stmt_writes now s d) e"
  obtain ws1 es1 where 1: "exec_stmts now ss ?d1 = (ws1, es1)"
    "ws = stmt_writes now s d @ ws1" "es = stmt_events now s d @ es1"
    using Cons.prems(2) by (auto simp: Let_def split: prod.splits)
  have locks: "locks_of (stmt_writes now s d) \<subseteq> L" "locks_of ws1 \<subseteq> L" using Cons.prems(3) 1(2) by auto
  have "agree L ?d1 ?e1" by (rule agree_writes [OF Cons.prems(1) locks(1)])
  then have "exec_stmts now ss ?e1 = (ws1, es1) \<and> stmts_ok now ss ?e1"
    using Cons.IH 1(1) locks(2) Cons.prems(4) by auto
  then show ?case
    using stmt_agree [OF Cons.prems(1) locks(1)] Cons.prems(4) 1(2,3) by (simp add: Let_def)
qed simp

section \<open>The machine\<close>

text \<open>
  An active transaction: its call, \<open>now()\<close>, the statements that found their row and those to come, what
  it has written and will log, and, once it has reserved its ids, the first of them with the creation
  times of the entries inserted so far.
\<close>

record settings_tx =
  t_call :: settings_call
  t_now :: int
  t_done :: "data_stmt list"
  t_todo :: "data_stmt list"
  t_writes :: "row_write list"
  t_events :: "event_row list"
  t_log :: "(int \<times> int list) option"

record machine =
  committed :: db
  active :: "nat \<rightharpoonup> settings_tx"
  m_clock :: int

definition put_tx :: "nat \<Rightarrow> settings_tx \<Rightarrow> machine \<Rightarrow> machine" where
  "put_tx t x m = m\<lparr>active := (active m)(t \<mapsto> x)\<rparr>"

definition end_tx :: "nat \<Rightarrow> machine \<Rightarrow> machine" where
  "end_tx t m = m\<lparr>active := (active m)(t := None)\<rparr>"

lemma tx_simps [simp]:
  "active (put_tx t x m) t' = (if t' = t then Some x else active m t')" "committed (put_tx t x m) = committed m" "m_clock (put_tx t x m) = m_clock m"
  "active (end_tx t m) t' = (if t' = t then None else active m t')" "committed (end_tx t m) = committed m" "m_clock (end_tx t m) = m_clock m"
  by (simp_all add: put_tx_def end_tx_def)

lemma put_tx_twice [simp]: "put_tx t y (put_tx t x m) = put_tx t y m" "end_tx t (put_tx t x m) = end_tx t m"
  by (simp_all add: put_tx_def end_tx_def)

lemma put_tx_same: "active m t = Some x \<Longrightarrow> put_tx t x m = m"
  by (simp add: put_tx_def map_upd_triv)

definition held :: "settings_tx \<Rightarrow> lock set" where
  "held x = locks_of (t_writes x)"

definition view :: "machine \<Rightarrow> settings_tx \<Rightarrow> db" where
  "view m x = apply_writes (t_writes x) (committed m)"

definition waiting_row :: "machine \<Rightarrow> nat \<Rightarrow> settings_tx \<Rightarrow> data_stmt \<Rightarrow> bool" where
  "waiting_row m t x s \<longleftrightarrow> \<not> missed s (view m x) \<and>
     (\<exists>t' x'. t' \<noteq> t \<and> active m t' = Some x' \<and> stmt_lock s \<in> held x')"

definition counter_taken :: "machine \<Rightarrow> nat \<Rightarrow> bool" where
  "counter_taken m t \<longleftrightarrow> (\<exists>t' x'. t' \<noteq> t \<and> active m t' = Some x' \<and> t_log x' \<noteq> None)"

definition start_tx :: "property_update sorter \<Rightarrow> property_delete sorter \<Rightarrow> settings_call \<Rightarrow> int \<Rightarrow> int \<Rightarrow> settings_tx" where
  "start_tx sortu sortd c now created =
     \<lparr>t_call = c, t_now = now, t_done = [], t_todo = call_stmts sortu sortd created c, t_writes = [], t_events = [], t_log = None\<rparr>"

definition logged_all :: "settings_tx \<Rightarrow> bool" where
  "logged_all x \<longleftrightarrow> t_todo x = [] \<and>
     (case t_log x of None \<Rightarrow> t_events x = [] | Some (first, ts) \<Rightarrow> length ts = length (t_events x))"

definition commit_tx :: "settings_tx \<Rightarrow> db \<Rightarrow> db" where
  "commit_tx x d =
     (case t_log x of
        None \<Rightarrow> apply_writes (t_writes x) d
      | Some (first, ts) \<Rightarrow>
          append_log (log_rows (\<lambda>p. ts ! (p div 3)) 0 first (t_events x))
            ((apply_writes (t_writes x) d)\<lparr>counters := (counters d)
               (sequenceEventLog \<mapsto> first + int (length (t_events x)) - 1)\<rparr>))"

text \<open>
  A transaction begins, runs its next data statement, reserves the ids of its entries, inserts an entry
  (stamped by the clock of the machine), commits with the notification, or aborts; time passes; another
  component commits, leaving the settings tables alone and changing no row a transaction has locked.
\<close>

inductive machine_step :: "property_update sorter \<Rightarrow> property_delete sorter \<Rightarrow> machine \<Rightarrow> machine \<Rightarrow> bool"
  for sortu sortd where
  began: "active m t = None \<Longrightarrow>
    machine_step sortu sortd m (put_tx t (start_tx sortu sortd c now (m_clock m)) m)"
| ran: "active m t = Some x \<Longrightarrow> t_log x = None \<Longrightarrow> t_todo x = s # rest \<Longrightarrow> \<not> waiting_row m t x s \<Longrightarrow>
    db v = view m x \<Longrightarrow> sql_now v = t_now x \<Longrightarrow> stmt_query s v = (Inr evs, v') \<Longrightarrow>
    machine_step sortu sortd m (put_tx t (x\<lparr>t_todo := rest, t_done := t_done x @ (if missed s (view m x) then [] else [s]),
        t_writes := t_writes x @ stmt_writes (t_now x) s (view m x), t_events := t_events x @ evs\<rparr>) m)"
| reserved: "active m t = Some x \<Longrightarrow> t_log x = None \<Longrightarrow> t_todo x = [] \<Longrightarrow> t_events x \<noteq> [] \<Longrightarrow> \<not> counter_taken m t \<Longrightarrow>
    db v = view m x \<Longrightarrow> q_ReserveSequenceValues (int (length (t_events x))) sequenceEventLog v = (Inr lastID, v') \<Longrightarrow>
    machine_step sortu sortd m (put_tx t (x\<lparr>t_log := Some (lastID - int (length (t_events x)) + 1, [])\<rparr>) m)"
| entry_logged: "active m t = Some x \<Longrightarrow> t_log x = Some (first, ts) \<Longrightarrow> length ts < length (t_events x) \<Longrightarrow>
    machine_step sortu sortd m (put_tx t (x\<lparr>t_log := Some (first, ts @ [m_clock m])\<rparr>) m)"
| finished: "active m t = Some x \<Longrightarrow> logged_all x \<Longrightarrow>
    machine_step sortu sortd m ((end_tx t m)\<lparr>committed := commit_tx x (committed m)\<rparr>)"
| aborted: "active m t = Some x \<Longrightarrow> machine_step sortu sortd m (end_tx t m)"
| ticked: "m_clock m \<le> now \<Longrightarrow> machine_step sortu sortd m (m\<lparr>m_clock := now\<rparr>)"
| elsewhere: "store_step (committed m) d \<Longrightarrow> documents d = documents (committed m) \<Longrightarrow> properties d = properties (committed m) \<Longrightarrow>
    eventlog d = eventlog (committed m) \<Longrightarrow> counters d sequenceEventLog = counters (committed m) sequenceEventLog \<Longrightarrow>
    (\<And>t x. active m t = Some x \<Longrightarrow> agree (held x) (committed m) d) \<Longrightarrow>
    machine_step sortu sortd m (m\<lparr>committed := d\<rparr>)"

section \<open>The invariant\<close>

fun is_drop :: "data_stmt \<Rightarrow> bool" where
  "is_drop (DropDoc ow ap ty ky by) \<longleftrightarrow> True"
| "is_drop (DropProp ow p) \<longleftrightarrow> True"
| "is_drop s \<longleftrightarrow> False"

text \<open>A call's statements without some of the deletions: those that found no row.\<close>

definition thinned :: "data_stmt list \<Rightarrow> data_stmt list \<Rightarrow> bool" where
  "thinned ss full \<longleftrightarrow> subseq ss full \<and> filter (\<lambda>s. \<not> is_drop s) ss = filter (\<lambda>s. \<not> is_drop s) full"

definition tx_ok :: "property_update sorter \<Rightarrow> property_delete sorter \<Rightarrow> db \<Rightarrow> settings_tx \<Rightarrow> bool" where
  "tx_ok sortu sortd d x \<longleftrightarrow>
     (\<exists>created. thinned (t_done x @ t_todo x) (call_stmts sortu sortd created (t_call x))) \<and>
     exec_stmts (t_now x) (t_done x) d = (t_writes x, t_events x) \<and> stmts_ok (t_now x) (t_done x) d \<and>
     (\<forall>first ts. t_log x = Some (first, ts) \<longrightarrow> t_todo x = [] \<and> t_events x \<noteq> [] \<and> first = event_counter d + 1 \<and>
        in_bigint (event_counter d + int (length (t_events x))) \<and> length ts \<le> length (t_events x))"

definition machine_ok :: "property_update sorter \<Rightarrow> property_delete sorter \<Rightarrow> machine \<Rightarrow> bool" where
  "machine_ok sortu sortd m \<longleftrightarrow>
     reachable (committed m) \<and>
     (\<forall>t x. active m t = Some x \<longrightarrow> tx_ok sortu sortd (committed m) x) \<and>
     (\<forall>t t' x x'. t \<noteq> t' \<longrightarrow> active m t = Some x \<longrightarrow> active m t' = Some x' \<longrightarrow>
        held x \<inter> held x' = {} \<and> \<not> (t_log x \<noteq> None \<and> t_log x' \<noteq> None))"

lemma apply_writes_frame [simp]:
  "eventlog (apply_writes ws d) = eventlog d" "counters (apply_writes ws d) = counters d"
  "outbox (apply_writes ws d) = outbox d"
  by (induction ws arbitrary: d; simp; case_tac a; simp)+

lemma event_counter_writes [simp]: "event_counter (apply_writes ws d) = event_counter d"
  by (simp add: event_counter_def)

lemma eventlog_ok_writes [simp]: "eventlog_ok (apply_writes ws d) \<longleftrightarrow> eventlog_ok d"
  by (rule eventlog_ok_cong) simp_all

lemma log_rows_shift: "log_rows clk (p + q) n es = log_rows (\<lambda>i. clk (p + i)) q n es"
  by (induction es arbitrary: q n) (simp_all add: add.assoc)

text \<open>A commit is the effect of the statements that hit a row, run at that moment, and their entries.\<close>

lemma commit_tx_logged:
  assumes "tx_ok sortu sortd d x" "logged_all x"
  shows "\<exists>ts. commit_tx x d = logged (\<lambda>p. ts ! (p div 3)) 0 (t_events x) (apply_writes (t_writes x) d)"
proof (cases "t_log x")
  case None
  then show ?thesis using assms(2) by (simp add: commit_tx_def logged_all_def logged_def)
next
  case (Some l)
  then obtain first ts where l: "t_log x = Some (first, ts)" by (cases l) auto
  then have "first = event_counter d + 1" "t_events x \<noteq> []" using assms(1) by (auto simp: tx_ok_def)
  then show ?thesis by (intro exI [of _ ts]) (simp add: commit_tx_def l logged_def)
qed

lemma tx_ok_agree:
  assumes "tx_ok sortu sortd d x" "agree (held x) d e" "t_log x \<noteq> None \<Longrightarrow> event_counter e = event_counter d"
  shows "tx_ok sortu sortd e x"
proof -
  have "exec_stmts (t_now x) (t_done x) e = (t_writes x, t_events x) \<and> stmts_ok (t_now x) (t_done x) e"
    using assms(1) by (intro exec_agree [OF assms(2)]) (auto simp: tx_ok_def held_def)
  moreover have "event_counter e = event_counter d" if "t_log x = Some l" for l using assms(3) that by simp
  ultimately show ?thesis using assms(1) unfolding tx_ok_def by (metis (no_types, lifting))
qed

section \<open>Commits are atomic steps of the store\<close>

lemma logged_shift: "logged clk p es d = logged (\<lambda>i. clk (p + i)) 0 es d"
proof -
  have "log_rows clk p n es = log_rows (\<lambda>i. clk (p + i)) 0 n es" for n
    using log_rows_shift [of clk p 0 n es] by simp
  then show ?thesis by (simp add: logged_def)
qed

lemma set_subseq: "subseq xs ys \<Longrightarrow> set xs \<subseteq> set ys"
  by (induction rule: list_emb.induct) auto

lemma thinned_puts: "thinned ss full \<Longrightarrow> \<forall>s \<in> set full. \<not> is_drop s \<Longrightarrow> ss = full"
  using set_subseq [of ss full] unfolding thinned_def by (metis (no_types, lifting) filter_True subsetD)

lemma subseq_map_inv: "subseq ss (map f xs) \<Longrightarrow> \<exists>ys. ss = map f ys \<and> subseq ys xs"
proof (induction xs arbitrary: ss)
  case (Cons x xs)
  show ?case
  proof (cases "\<exists>ss1. ss = f x # ss1")
    case True
    then obtain ss1 where ss: "ss = f x # ss1" by blast
    then have "subseq ss1 (map f xs)" using Cons.prems by simp
    from Cons.IH [OF this] show ?thesis using ss by (metis list.simps(9) subseq_Cons2)
  next
    case False
    then have "subseq ss (map f xs)" using Cons.prems by (cases ss) (auto split: if_splits)
    from Cons.IH [OF this] show ?thesis by blast
  qed
qed (auto dest: list_emb_Nil2)

text \<open>A world to run a call in alone: the clock gives the times the machine has recorded.\<close>

definition alone_world :: "db \<Rightarrow> int \<Rightarrow> int \<Rightarrow> nat \<Rightarrow> (nat \<Rightarrow> int) \<Rightarrow> world" where
  "alone_world d now created q tms =
     \<lparr>db = d, sql_now = now, clock = (\<lambda>i. if i = 0 then created else tms (i - q)), fault = (\<lambda>_. False), pos = 0,
      collate = id, two_weeks_before = id, six_months_before = id\<rparr>"

lemma alone_world_simps [simp]:
  "db (alone_world d now created q tms) = d" "sql_now (alone_world d now created q tms) = now"
  "clock (alone_world d now created q tms) 0 = created" "fault (alone_world d now created q tms) n = False"
  "pos (alone_world d now created q tms) = 0"
  by (simp_all add: alone_world_def)

lemma clock_alone: "0 < q \<Longrightarrow> (\<lambda>i. clock (alone_world d now created q tms) (q + i)) = tms"
  by (simp add: alone_world_def fun_eq_iff)

lemma alone_body:
  assumes "exec_stmts now ss d = (ws, es)" "stmts_ok now ss d" "eventlog_ok d" "es = [] \<or> in_bigint (event_counter d + int (length es))"
    and "db v = d" "sql_now v = now" "\<And>n. \<not> fault v n" "(\<lambda>i. clock v (pos v + length ss + 1 + i)) = tms"
  shows "\<exists>w'. stmts_body ss v = (Inr (), w') \<and> db w' = logged tms 0 es (apply_writes ws d)"
proof -
  obtain w' where "stmts_body ss v = (Inr (), w')"
    "db w' = logged (clock v) (pos v + length ss + 1) es (apply_writes ws (db v))"
    by (rule stmts_body_total [of v ss ws es]) (use assms in simp_all)
  then show ?thesis using assms(5,8) logged_shift [of "clock v" "pos v + length ss + 1"] by simp
qed

text \<open>Calls that begin by reading the clock, and those that do not.\<close>

lemma alone_timed:
  assumes "exec_stmts now ss d = (ws, es)" "stmts_ok now ss d" "eventlog_ok d" "es = [] \<or> in_bigint (event_counter d + int (length es))"
    and "body = bindM time_now (\<lambda>t. stmts_body (stmts t))" "stmts created = ss"
  shows "\<exists>w w'. body w = (Inr (), w') \<and> db w = d \<and> db w' = logged tms 0 es (apply_writes ws d)"
proof -
  let ?w = "alone_world d now created (length ss + 2) tms"
  have tms: "(\<lambda>i. clock (step_to d ?w) (pos (step_to d ?w) + length ss + 1 + i)) = tms"
    using clock_alone [of "length ss + 2" d now created tms] by (simp add: add.commute add.left_commute)
  obtain w' where "stmts_body ss (step_to d ?w) = (Inr (), w')" "db w' = logged tms 0 es (apply_writes ws d)"
    using alone_body [OF assms(1-4), of "step_to d ?w"] tms by auto
  then show ?thesis
    using assms(5,6) by (intro exI [of _ ?w] exI [of _ w']) (simp add: bindM_Inr_iff)
qed

lemma alone_untimed:
  assumes "exec_stmts now ss d = (ws, es)" "stmts_ok now ss d" "eventlog_ok d" "es = [] \<or> in_bigint (event_counter d + int (length es))"
    and "body = stmts_body ss"
  shows "\<exists>w w'. body w = (Inr (), w') \<and> db w = d \<and> db w' = logged tms 0 es (apply_writes ws d)"
proof -
  let ?w = "alone_world d now 0 (length ss + 1) tms"
  have tms: "(\<lambda>i. clock ?w (pos ?w + length ss + 1 + i)) = tms"
    using clock_alone [of "length ss + 1" d now 0 tms] by simp
  obtain w' where "stmts_body ss ?w = (Inr (), w')" "db w' = logged tms 0 es (apply_writes ws d)"
    using alone_body [OF assms(1-4), of ?w] tms by auto
  then show ?thesis using assms(5) by (intro exI [of _ ?w] exI [of _ w']) simp
qed

text \<open>
  What a finished transaction has carried out: its call, or of a batch of deletions those that found
  a row when their statement ran.
\<close>

definition carried_out :: "property_delete sorter \<Rightarrow> settings_call \<Rightarrow> property_delete sorter \<Rightarrow> settings_call \<Rightarrow> bool" where
  "carried_out sortd c sd c' \<longleftrightarrow>
     (case c of
        CallDrop ow ds \<Rightarrow> \<exists>ds'. c' = CallDrop ow ds' \<and> subseq ds' (sortd compare_deletes ds) \<and> sd = (\<lambda>_ ps. ps)
      | _ \<Rightarrow> c' = c \<and> sd = sortd)"

lemma commit_call:
  assumes ok: "tx_ok sortu sortd d x" and "logged_all x" and log: "eventlog_ok d"
  shows "(\<exists>ow ap ty ky by. t_call x = CallDelete ow ap ty ky by) \<and> commit_tx x d = d \<or>
    (\<exists>sd c w w'. carried_out sortd (t_call x) sd c \<and> call_body sortu sd c w = (Inr (), w') \<and> db w = d \<and> db w' = commit_tx x d)"
proof -
  obtain ts where commit: "commit_tx x d = logged (\<lambda>p. ts ! (p div 3)) 0 (t_events x) (apply_writes (t_writes x) d)"
    using commit_tx_logged [OF assms(1,2)] by blast
  let ?times = "\<lambda>p. ts ! (p div 3)" and ?ss = "t_done x"
  obtain created where thin: "thinned ?ss (call_stmts sortu sortd created (t_call x))"
    and exec: "exec_stmts (t_now x) ?ss d = (t_writes x, t_events x)" "stmts_ok (t_now x) ?ss d"
    using ok assms(2) by (auto simp: tx_ok_def logged_all_def)
  have big: "t_events x = [] \<or> in_bigint (event_counter d + int (length (t_events x)))"
    using ok assms(2) by (auto simp: tx_ok_def logged_all_def split: option.splits)
  note timed = alone_timed [OF exec log big, where tms = ?times, folded commit]
  note untimed = alone_untimed [OF exec log big, where tms = ?times, folded commit]
  show ?thesis
  proof (cases "t_call x")
    case (CallUpdate u)
    then have "?ss = call_stmts sortu sortd created (CallUpdate u)" using thinned_puts [OF thin] by simp
    with timed [OF call_body_statements(1) [of sortu sortd u]] obtain w w' where
      "call_body sortu sortd (CallUpdate u) w = (Inr (), w')" "db w = d" "db w' = commit_tx x d" by metis
    then show ?thesis using CallUpdate by (auto simp: carried_out_def)
  next
    case (CallDelete ow ap ty ky "by")
    then have "?ss = [] \<or> ?ss = [DropDoc ow ap ty ky by]"
      using thin by (cases ?ss) (auto simp: thinned_def dest: list_emb_Nil2 split: if_splits)
    then show ?thesis
    proof
      assume "?ss = []"
      then show ?thesis using exec commit CallDelete by (simp add: logged_def)
    next
      assume "?ss = [DropDoc ow ap ty ky by]"
      with untimed [of "call_body sortu sortd (CallDelete ow ap ty ky by)"] call_body_statements(2) [of sortu sortd ow ap ty ky "by" created]
      obtain w w' where "call_body sortu sortd (CallDelete ow ap ty ky by) w = (Inr (), w')" "db w = d" "db w' = commit_tx x d" by auto
      then show ?thesis using CallDelete by (auto simp: carried_out_def)
    qed
  next
    case (CallSet ow us)
    then have "?ss = call_stmts sortu sortd created (CallSet ow us)" using thinned_puts [OF thin] by auto
    with timed [OF call_body_statements(3) [of sortu sortd ow us]] obtain w w' where
      "call_body sortu sortd (CallSet ow us) w = (Inr (), w')" "db w = d" "db w' = commit_tx x d" by metis
    then show ?thesis using CallSet by (auto simp: carried_out_def)
  next
    case (CallDrop ow ds)
    then obtain ds' where ds': "?ss = map (DropProp ow) ds'" "subseq ds' (sortd compare_deletes ds)"
      using thin subseq_map_inv by (fastforce simp: thinned_def)
    then have "stmts_body ?ss = call_body sortu (\<lambda>_ ps. ps) (CallDrop ow ds')"
      using call_body_statements(4) [of sortu "\<lambda>_ ps. ps" ow ds' created] by simp
    with untimed obtain w w' where
      "call_body sortu (\<lambda>_ ps. ps) (CallDrop ow ds') w = (Inr (), w')" "db w = d" "db w' = commit_tx x d" by metis
    moreover have "carried_out sortd (t_call x) (\<lambda>_ ps. ps) (CallDrop ow ds')" using ds'(2) CallDrop by (simp add: carried_out_def)
    ultimately show ?thesis by blast
  qed
qed

lemma call_body_step: "call_body sortu sortd c w = (Inr (), w') \<Longrightarrow> store_step (db w) (db w')"
  by (cases c) (auto intro: store_step.intros)

lemma commit_step:
  assumes "tx_ok sortu sortd d x" "logged_all x" "eventlog_ok d"
  shows "commit_tx x d = d \<or> store_step d (commit_tx x d)"
  using commit_call [OF assms] call_body_step by metis

section \<open>Every step keeps the invariant\<close>

lemma machine_okD:
  assumes "machine_ok sortu sortd m"
  shows "reachable (committed m)" "active m t = Some x \<Longrightarrow> tx_ok sortu sortd (committed m) x"
    "t \<noteq> t' \<Longrightarrow> active m t = Some x \<Longrightarrow> active m t' = Some x' \<Longrightarrow> held x \<inter> held x' = {}"
    "t \<noteq> t' \<Longrightarrow> active m t = Some x \<Longrightarrow> active m t' = Some x' \<Longrightarrow> t_log x \<noteq> None \<Longrightarrow> t_log x' = None"
  using assms unfolding machine_ok_def by blast+

text \<open>Replacing one transaction, and changing the committed database under the others.\<close>

lemma machine_ok_update:
  assumes "machine_ok sortu sortd m" "tx_ok sortu sortd (committed m) y"
    and "\<And>t' x'. t' \<noteq> t \<Longrightarrow> active m t' = Some x' \<Longrightarrow> held y \<inter> held x' = {} \<and> (t_log y \<noteq> None \<longrightarrow> t_log x' = None)"
  shows "machine_ok sortu sortd (put_tx t y m)"
proof -
  have "held a \<inter> held b = {} \<and> \<not> (t_log a \<noteq> None \<and> t_log b \<noteq> None)"
    if ij: "i \<noteq> j" "active (put_tx t y m) i = Some a" "active (put_tx t y m) j = Some b" for i j a b
  proof -
    have sym: "held y \<inter> held x' = {} \<Longrightarrow> held x' \<inter> held y = {}" for x' by blast
    show ?thesis
    proof (cases "i = t")
      case True
      have j: "j \<noteq> t" using ij(1) True by simp
      have a: "y = a" using ij(2) unfolding True by simp
      have b: "active m j = Some b" using ij(3) j by simp
      from assms(3) [OF j b] show ?thesis unfolding a by (cases "t_log b") auto
    next
      case False
      then have i: "active m i = Some a" using ij(2) by simp
      show ?thesis
      proof (cases "j = t")
        case True
        then have b: "y = b" using ij(3) by simp
        from assms(3) [OF False i] sym [of a] show ?thesis unfolding b by (cases "t_log a") auto
      next
        case False
        then show ?thesis using ij(1,3) machine_okD(3,4) [OF assms(1) ij(1) i, of b] by (cases "t_log b") auto
      qed
    qed
  qed
  then show ?thesis using assms(1,2) unfolding machine_ok_def by auto
qed

lemma machine_ok_remove:
  "machine_ok sortu sortd m \<Longrightarrow> machine_ok sortu sortd (end_tx t m)"
  unfolding machine_ok_def by auto

lemma machine_ok_commit:
  assumes "machine_ok sortu sortd m" "reachable d"
    and "\<And>t x. active m t = Some x \<Longrightarrow> agree (held x) (committed m) d \<and> (t_log x \<noteq> None \<longrightarrow> event_counter d = event_counter (committed m))"
  shows "machine_ok sortu sortd (m\<lparr>committed := d\<rparr>)"
  using assms(1,2) tx_ok_agree [OF machine_okD(2) [OF assms(1)]] assms(3) unfolding machine_ok_def by auto

lemma tx_ok_start: "tx_ok sortu sortd d (start_tx sortu sortd c now created)"
  by (auto simp: tx_ok_def start_tx_def thinned_def)

lemma tx_ok_ran:
  assumes ok: "tx_ok sortu sortd d x" and x: "t_log x = None" "t_todo x = s # rest"
    and v: "db v = apply_writes (t_writes x) d" "sql_now v = t_now x" "stmt_query s v = (Inr evs, v')"
  shows "tx_ok sortu sortd d (x\<lparr>t_todo := rest, t_done := t_done x @ (if missed s (db v) then [] else [s]),
    t_writes := t_writes x @ stmt_writes (t_now x) s (db v), t_events := t_events x @ evs\<rparr>)"
proof -
  have run: "stmt_ok (t_now x) s (db v)" "evs = stmt_events (t_now x) s (db v)"
    using v(3) by (simp_all add: stmt_query_iff v(2))
  have exec: "exec_stmts (t_now x) (t_done x) d = (t_writes x, t_events x)" "stmts_ok (t_now x) (t_done x) d"
    using ok by (simp_all add: tx_ok_def)
  obtain created where thin: "thinned (t_done x @ s # rest) (call_stmts sortu sortd created (t_call x))"
    using ok x(2) by (auto simp: tx_ok_def)
  show ?thesis
  proof (cases "missed s (db v)")
    case True
    then have "is_drop s" "stmt_writes (t_now x) s (db v) = []" "evs = []" using run(2) by (cases s; simp)+
    moreover have "subseq (t_done x @ rest) (t_done x @ s # rest)" by (rule list_emb_append_mono) auto
    then have "thinned (t_done x @ rest) (call_stmts sortu sortd created (t_call x))"
      using thin \<open>is_drop s\<close> subseq_order.order_trans by (fastforce simp: thinned_def)
    ultimately show ?thesis using True exec x(1) unfolding tx_ok_def by auto
  next
    case False
    then have "exec_stmts (t_now x) (t_done x @ [s]) d = (t_writes x @ stmt_writes (t_now x) s (db v), t_events x @ evs)"
      "stmts_ok (t_now x) (t_done x @ [s]) d"
      using exec_stmts_snoc [OF exec(1), of s] stmts_ok_snoc [OF exec(1), of s] exec(2) run by (simp_all add: v(1))
    then show ?thesis using False thin x(1) unfolding tx_ok_def by auto
  qed
qed

lemma new_locks:
  assumes "machine_ok sortu sortd m" "active m t = Some x" "\<not> waiting_row m t x s" "t' \<noteq> t" "active m t' = Some x'"
  shows "locks_of (t_writes x @ stmt_writes now s (view m x)) \<inter> held x' = {}"
proof -
  have "stmt_writes now s (view m x) = [] \<or> stmt_lock s \<notin> held x'"
    using assms(3-5) by (cases s) (auto simp: waiting_row_def)
  then have "locks_of (stmt_writes now s (view m x)) \<inter> held x' = {}" using stmt_writes_lock [of now s "view m x"] by auto
  moreover have "locks_of (t_writes x) \<inter> held x' = {}"
    using machine_okD(3) [OF assms(1) assms(4) assms(5,2)] by (auto simp: held_def)
  ultimately show ?thesis by auto
qed

lemma reachable_eventlog_ok: "reachable d \<Longrightarrow> eventlog_ok d"
  using reachable_ok by (simp add: store_ok_def settings_ok_def)

lemma machine_ok_step:
  assumes "machine_step sortu sortd m m'" "machine_ok sortu sortd m"
  shows "machine_ok sortu sortd m'"
  using assms
proof (cases rule: machine_step.cases)
  case (began t c now)
  show ?thesis unfolding began(1)
    by (rule machine_ok_update [OF assms(2) tx_ok_start]) (simp add: start_tx_def held_def)
next
  case (ran t x s rest v evs v')
  have dv: "view m x = db v" "db v = apply_writes (t_writes x) (committed m)" using ran(6) by (simp_all add: view_def)
  show ?thesis unfolding ran(1)
  proof (rule machine_ok_update [OF assms(2)])
    show "tx_ok sortu sortd (committed m) (x\<lparr>t_todo := rest, t_done := t_done x @ (if missed s (view m x) then [] else [s]),
        t_writes := t_writes x @ stmt_writes (t_now x) s (view m x), t_events := t_events x @ evs\<rparr>)"
      unfolding dv(1) by (rule tx_ok_ran [OF machine_okD(2) [OF assms(2) ran(2)] ran(3,4) dv(2) ran(7,8)])
    fix t' x' assume "t' \<noteq> t" "active m t' = Some x'"
    from new_locks [OF assms(2) ran(2,5) this, of "t_now x"] ran(3)
    show "held (x\<lparr>t_todo := rest, t_done := t_done x @ (if missed s (view m x) then [] else [s]),
          t_writes := t_writes x @ stmt_writes (t_now x) s (view m x), t_events := t_events x @ evs\<rparr>) \<inter> held x' = {} \<and>
        (t_log (x\<lparr>t_todo := rest, t_done := t_done x @ (if missed s (view m x) then [] else [s]),
          t_writes := t_writes x @ stmt_writes (t_now x) s (view m x), t_events := t_events x @ evs\<rparr>) \<noteq> None \<longrightarrow> t_log x' = None)"
      by (simp add: held_def)
  qed
next
  case (reserved t x v lastID v')
  have "lastID = event_counter (committed m) + int (length (t_events x)) \<and> in_bigint lastID"
    using reserved(8) by (auto simp: q_ReserveSequenceValues_iff reserved(7) view_def event_counter_def)
  then have "tx_ok sortu sortd (committed m) (x\<lparr>t_log := Some (lastID - int (length (t_events x)) + 1, [])\<rparr>)"
    using machine_okD(2) [OF assms(2) reserved(2)] reserved(4,5) by (auto simp: tx_ok_def)
  moreover have "held (x\<lparr>t_log := l\<rparr>) \<inter> held x' = {} \<and> t_log x' = None" if "t' \<noteq> t" "active m t' = Some x'" for t' x' l
  proof -
    have "t_log x' = None" using that reserved(6) unfolding counter_taken_def by blast
    then show ?thesis using machine_okD(3) [OF assms(2) that(1) that(2) reserved(2)] by (auto simp: held_def)
  qed
  ultimately show ?thesis unfolding reserved(1) by (intro machine_ok_update [OF assms(2)]) auto
next
  case (entry_logged t x first ts)
  have "tx_ok sortu sortd (committed m) (x\<lparr>t_log := Some (first, ts @ [m_clock m])\<rparr>)"
    using machine_okD(2) [OF assms(2) entry_logged(2)] entry_logged(3,4) by (auto simp: tx_ok_def)
  moreover have "held (x\<lparr>t_log := l\<rparr>) \<inter> held x' = {} \<and> t_log x' = None" if "t' \<noteq> t" "active m t' = Some x'" for t' x' l
    using that machine_okD(3,4) [OF assms(2) that(1) [symmetric] entry_logged(2) that(2)] entry_logged(3) by (simp add: held_def)
  ultimately show ?thesis unfolding entry_logged(1) by (intro machine_ok_update [OF assms(2)]) auto
next
  case (finished t x)
  let ?d = "commit_tx x (committed m)"
  note ok = machine_okD(2) [OF assms(2) finished(2)]
  have reach: "reachable ?d"
    using commit_step [OF ok finished(3) reachable_eventlog_ok] machine_okD(1) [OF assms(2)] reachable_step by metis
  obtain clk where d: "?d = logged clk 0 (t_events x) (apply_writes (t_writes x) (committed m))"
    using commit_tx_logged [OF ok finished(3)] by blast
  have "machine_ok sortu sortd ((end_tx t m)\<lparr>committed := ?d\<rparr>)"
  proof (rule machine_ok_commit [OF machine_ok_remove [OF assms(2)] reach])
    fix t' x' assume "active (end_tx t m) t' = Some x'"
    then have x': "t' \<noteq> t" "active m t' = Some x'" by (auto split: if_splits)
    have "held x \<inter> held x' = {}" using machine_okD(3) [OF assms(2) x'(1) x'(2) finished(2)] by blast
    then have "agree (held x') (committed m) ?d" by (simp add: d held_def agree_others)
    moreover have "event_counter ?d = event_counter (committed m)" if "t_log x' \<noteq> None"
    proof -
      have "t_log x = None" using machine_okD(4) [OF assms(2) x'(1) x'(2) finished(2) that] .
      then have "t_events x = []" using finished(3) by (simp add: logged_all_def)
      then show ?thesis by (simp add: d event_counter_logged)
    qed
    ultimately show "agree (held x') (committed (end_tx t m)) ?d \<and>
        (t_log x' \<noteq> None \<longrightarrow> event_counter ?d = event_counter (committed (end_tx t m)))" by simp
  qed
  then show ?thesis unfolding finished(1) by simp
next
  case (aborted t x)
  then show ?thesis using machine_ok_remove [OF assms(2)] by simp
next
  case (ticked now)
  then show ?thesis using assms(2) by (simp add: machine_ok_def)
next
  case (elsewhere d)
  have "reachable d" using reachable_step [OF machine_okD(1) [OF assms(2)] elsewhere(2)] .
  then show ?thesis unfolding elsewhere(1)
    by (rule machine_ok_commit [OF assms(2)]) (use elsewhere in \<open>simp add: event_counter_def\<close>)
qed

section \<open>Runs\<close>

definition idle_machine :: "int \<Rightarrow> machine" where
  "idle_machine now = \<lparr>committed = empty_db, active = Map.empty, m_clock = now\<rparr>"

definition machine_reachable :: "property_update sorter \<Rightarrow> property_delete sorter \<Rightarrow> machine \<Rightarrow> bool" where
  "machine_reachable sortu sortd m \<longleftrightarrow> (\<exists>now. (machine_step sortu sortd)\<^sup>*\<^sup>* (idle_machine now) m)"

lemma machine_reachable_induct [consumes 1, case_names idle step]:
  assumes "machine_reachable sortu sortd m" "\<And>now. P (idle_machine now)"
    and "\<And>m m'. machine_reachable sortu sortd m \<Longrightarrow> machine_step sortu sortd m m' \<Longrightarrow> P m \<Longrightarrow> P m'"
  shows "P m"
proof -
  obtain now where "(machine_step sortu sortd)\<^sup>*\<^sup>* (idle_machine now) m" using assms(1) by (auto simp: machine_reachable_def)
  then show ?thesis
  proof (induction rule: rtranclp_induct)
    case (step m m')
    then show ?case using assms(3) [of m m'] by (auto simp: machine_reachable_def)
  qed (rule assms(2))
qed

lemma machine_reachable_ok: "machine_reachable sortu sortd m \<Longrightarrow> machine_ok sortu sortd m"
proof (induction rule: machine_reachable_induct)
  case (idle now)
  then show ?case by (simp add: idle_machine_def machine_ok_def reachable_empty)
next
  case (step m m')
  then show ?case using machine_ok_step by blast
qed

lemma machine_reachable_step: "machine_reachable sortu sortd m \<Longrightarrow> machine_step sortu sortd m m' \<Longrightarrow> machine_reachable sortu sortd m'"
  unfolding machine_reachable_def by (meson rtranclp.rtrancl_into_rtrancl)

lemma machine_step_atomic:
  assumes "machine_step sortu sortd m m'" "machine_ok sortu sortd m"
  shows "committed m' = committed m \<or> store_step (committed m) (committed m')"
  using assms(1)
proof (cases rule: machine_step.cases)
  case (finished t x)
  have "commit_tx x (committed m) = committed m \<or> store_step (committed m) (commit_tx x (committed m))"
    by (rule commit_step [OF machine_okD(2) [OF assms(2) finished(2)] finished(3) reachable_eventlog_ok [OF machine_okD(1) [OF assms(2)]]])
  then show ?thesis by (simp add: finished(1))
qed simp_all

interpretation interleaved_tail: commit_ordered_stream
  "\<lambda>m. page_after ev_id (eventlog_rows owners (committed m))" ev_id "\<lambda>m. eventlog_rows owners (committed m)"
  "machine_ok sortu sortd" "machine_step sortu sortd" "\<lambda>m. event_counter (committed m)" for owners sortu sortd
  by (rule eventlog_tail.lifted)
    (use machine_okD(1) reachable_eventlog_ok machine_ok_step machine_step_atomic in \<open>blast+\<close>)

section \<open>Times\<close>

definition times_ok :: "machine \<Rightarrow> bool" where
  "times_ok m \<longleftrightarrow>
     sorted (map ev_created (eventlog (committed m))) \<and> (\<forall>e \<in> set (eventlog (committed m)). ev_created e \<le> m_clock m) \<and>
     (\<forall>t x first ts. active m t = Some x \<longrightarrow> t_log x = Some (first, ts) \<longrightarrow> sorted ts \<and>
        (\<forall>i \<in> set ts. i \<le> m_clock m \<and> (\<forall>e \<in> set (eventlog (committed m)). ev_created e \<le> i)))"

lemma created_recorded: "length ts = length es \<Longrightarrow> map ev_created (log_rows (\<lambda>p. ts ! (p div 3)) 0 n es) = ts"
  using map_nth [of ts] by (simp add: created_log_rows)

lemma eventlog_commit:
  assumes "logged_all x"
  shows "map ev_created (eventlog (commit_tx x d)) = map ev_created (eventlog d) @ (case t_log x of None \<Rightarrow> [] | Some (first, ts) \<Rightarrow> ts)"
  using assms by (auto simp: commit_tx_def logged_all_def append_log_def created_recorded split: option.splits)

lemma times_ok_update:
  assumes "times_ok m" "\<And>first ts. t_log y = Some (first, ts) \<Longrightarrow> sorted ts \<and>
    (\<forall>i \<in> set ts. i \<le> m_clock m \<and> (\<forall>e \<in> set (eventlog (committed m)). ev_created e \<le> i))"
  shows "times_ok (put_tx t y m)"
  using assms unfolding times_ok_def by (auto split: if_splits)

lemma times_ok_step:
  assumes "machine_step sortu sortd m m'" "machine_ok sortu sortd m" "times_ok m"
  shows "times_ok m'"
  using assms(1)
proof (cases rule: machine_step.cases)
  case (began t c now)
  show ?thesis unfolding began(1) by (rule times_ok_update [OF assms(3)]) (simp add: start_tx_def)
next
  case (ran t x s rest v evs v')
  show ?thesis unfolding ran(1) by (rule times_ok_update [OF assms(3)]) (simp add: ran(3))
next
  case (reserved t x v lastID v')
  show ?thesis unfolding reserved(1) by (rule times_ok_update [OF assms(3)]) simp
next
  case (entry_logged t x first ts)
  then have "sorted ts \<and> (\<forall>i \<in> set ts. i \<le> m_clock m \<and> (\<forall>e \<in> set (eventlog (committed m)). ev_created e \<le> i))"
    "\<forall>e \<in> set (eventlog (committed m)). ev_created e \<le> m_clock m"
    using assms(3) unfolding times_ok_def by blast+
  then show ?thesis unfolding entry_logged(1) by (intro times_ok_update [OF assms(3)]) (auto simp: sorted_append)
next
  case (finished t x)
  let ?ts = "case t_log x of None \<Rightarrow> [] | Some (first, ts) \<Rightarrow> ts"
  note created = eventlog_commit [OF finished(3), of "committed m"]
  have ts: "sorted ?ts \<and> (\<forall>i \<in> set ?ts. i \<le> m_clock m \<and> (\<forall>e \<in> set (eventlog (committed m)). ev_created e \<le> i))"
    using assms(3) finished(2) unfolding times_ok_def by (auto split: option.splits)
  have old: "sorted (map ev_created (eventlog (committed m)))" "\<forall>e \<in> set (eventlog (committed m)). ev_created e \<le> m_clock m"
    using assms(3) by (simp_all add: times_ok_def)
  have new: "ev_created e \<in> ev_created ` set (eventlog (committed m)) \<union> set ?ts" if "e \<in> set (eventlog (commit_tx x (committed m)))" for e
  proof -
    have "ev_created e \<in> set (map ev_created (eventlog (commit_tx x (committed m))))" using that by simp
    then show ?thesis unfolding created by simp
  qed
  have "sorted (map ev_created (eventlog (commit_tx x (committed m))))"
    unfolding created using ts old(1) by (auto simp: sorted_append)
  moreover have "ev_created e \<le> m_clock m" if "e \<in> set (eventlog (commit_tx x (committed m)))" for e
    using new [OF that] ts old(2) by auto
  moreover have "ev_created e \<le> i"
    if y: "t' \<noteq> t" "active m t' = Some y" "t_log y = Some (first, us)" "i \<in> set us"
      and e: "e \<in> set (eventlog (commit_tx x (committed m)))" for t' y first us i e
  proof -
    have "t_log x = None" using machine_okD(4) [OF assms(2) y(1,2) finished(2)] y(3) by simp
    then have "ev_created e \<in> ev_created ` set (eventlog (committed m))" using new [OF e] by simp
    then show ?thesis using assms(3) y(2-4) unfolding times_ok_def by auto
  qed
  ultimately show ?thesis
    using assms(3) unfolding finished(1) times_ok_def by (auto split: if_splits)
next
  case (aborted t x)
  then show ?thesis using assms(3) unfolding times_ok_def by (auto split: if_splits)
next
  case (ticked now)
  then show ?thesis using assms(3) unfolding times_ok_def by fastforce
next
  case (elsewhere d)
  then show ?thesis using assms(3) by (simp add: times_ok_def)
qed

lemma machine_reachable_times: "machine_reachable sortu sortd m \<Longrightarrow> times_ok m"
proof (induction rule: machine_reachable_induct)
  case (idle now)
  then show ?case by (simp add: times_ok_def idle_machine_def empty_db_def)
next
  case (step m m')
  then show ?case using times_ok_step machine_reachable_ok by blast
qed

end
