(* ===== verification/Interleaving_Progress.thy ===== *)
theory Interleaving_Progress
  imports Interleaving
begin

text \<open>
  The order in which transactions take their locks, which is why they never all wait; how a call runs
  through while the others hold nothing; and how a transaction that waits for nothing gets on.
\<close>

section \<open>The order of locks\<close>

text \<open>The order in which the code's transactions take their row locks: users first, then documents or properties by key.\<close>

fun lock_rank :: "lock \<Rightarrow> nat \<times> string \<times> string \<times> string \<times> string" where
  "lock_rank (UserLock sub) = (0, sub, [], [], [])"
| "lock_rank (DocLock (ow, ap, ty, ky)) = (1, ow, ap, ty, ky)"
| "lock_rank (PropLock (ow, ap, ky)) = (2, ow, ap, ky, [])"

lemma lock_rank_inj: "lock_rank a = lock_rank b \<Longrightarrow> a = b"
  by (cases a rule: lock_rank.cases; cases b rule: lock_rank.cases) auto

instantiation lock :: linorder
begin

definition less_eq_lock :: "lock \<Rightarrow> lock \<Rightarrow> bool" where
  "less_eq_lock a b \<longleftrightarrow> lock_rank a \<le> lock_rank b"

definition less_lock :: "lock \<Rightarrow> lock \<Rightarrow> bool" where
  "less_lock a b \<longleftrightarrow> lock_rank a < lock_rank b"

instance
proof
  fix a b c :: lock
  show "a < b \<longleftrightarrow> a \<le> b \<and> \<not> b \<le> a" unfolding less_lock_def less_eq_lock_def by (rule less_le_not_le)
  show "a \<le> a" unfolding less_eq_lock_def by (rule order_refl)
  show "a \<le> b \<Longrightarrow> b \<le> c \<Longrightarrow> a \<le> c" unfolding less_eq_lock_def by (rule order_trans)
  show "a \<le> b \<Longrightarrow> b \<le> a \<Longrightarrow> a = b" unfolding less_eq_lock_def by (rule lock_rank_inj) (rule antisym)
  show "a \<le> b \<or> b \<le> a" unfolding less_eq_lock_def by (rule linear)
qed

end

lemma prop_lock_le: "PropLock (ow, ap, ky) \<le> PropLock (ow, ap', ky') \<longleftrightarrow> (ap, ky) \<le> (ap', ky')"
  by (auto simp: less_eq_lock_def less_eq_prod_def)

lemma user_lock_le: "UserLock s \<le> PropLock k" "UserLock s \<le> DocLock l"
  by (cases k; simp add: less_eq_lock_def) (cases l; simp add: less_eq_lock_def)

lemma call_stmts_sorted:
  assumes "sort_contract sortu compare_updates" "sort_contract sortd compare_deletes"
  shows "sorted (map stmt_lock (call_stmts sortu sortd created c))"
proof (cases c)
  case (CallSet ow us)
  have "sorted_wrt (\<lambda>a b. compare_updates a b \<le> 0) (sortu compare_updates us)" using assms(1) by (simp add: sort_contract_def)
  then have "sorted (map (\<lambda>p. PropLock (update_target ow p)) (sortu compare_updates us))"
    by (simp add: sorted_wrt_map compare_updates_le prop_lock_le)
  then show ?thesis using CallSet by (auto simp: comp_def user_lock_le)
next
  case (CallDrop ow ds)
  have "sorted_wrt (\<lambda>a b. compare_deletes a b \<le> 0) (sortd compare_deletes ds)" using assms(2) by (simp add: sort_contract_def)
  then show ?thesis using CallDrop by (simp add: sorted_wrt_map comp_def compare_deletes_le prop_lock_le)
qed (auto simp: user_lock_le)

lemma subseq_sorted: "subseq xs ys \<Longrightarrow> sorted (map f ys) \<Longrightarrow> sorted (map f xs)"
proof (induction rule: list_emb.induct)
  case (list_emb_Cons2 x y xs ys)
  then show ?case using set_subseq [of xs ys] by auto
qed auto

lemma exec_locks: "exec_stmts now ss d = (ws, es) \<Longrightarrow> locks_of ws \<subseteq> stmt_lock ` set ss"
proof (induction ss arbitrary: d ws es)
  case (Cons s ss)
  obtain ws1 es1 where 1: "exec_stmts now ss (apply_writes (stmt_writes now s d) d) = (ws1, es1)" "ws = stmt_writes now s d @ ws1"
    using Cons.prems by (auto simp: Let_def split: prod.splits)
  show ?case using Cons.IH [OF 1(1)] stmt_writes_lock [of now s d] by (auto simp: 1(2))
qed simp

text \<open>What a transaction holds comes before what it asks for next.\<close>

lemma held_below_next:
  assumes "sort_contract sortu compare_updates" "sort_contract sortd compare_deletes"
    and "tx_ok sortu sortd d x" "t_todo x = s # rest" "l \<in> held x"
  shows "l \<le> stmt_lock s"
proof -
  obtain created where "subseq (t_done x @ s # rest) (call_stmts sortu sortd created (t_call x))"
    using assms(3,4) by (auto simp: tx_ok_def thinned_def)
  from subseq_sorted [OF this call_stmts_sorted [OF assms(1,2)]]
  have "\<forall>r \<in> set (t_done x). stmt_lock r \<le> stmt_lock s" by (simp add: sorted_append)
  moreover have "held x \<subseteq> stmt_lock ` set (t_done x)"
    using assms(3) exec_locks unfolding held_def tx_ok_def by metis
  ultimately show ?thesis using assms(5) by auto
qed

section \<open>Waiting\<close>

definition waits :: "machine \<Rightarrow> nat \<Rightarrow> settings_tx \<Rightarrow> bool" where
  "waits m t x \<longleftrightarrow> t_log x = None \<and>
     (case t_todo x of
        s # rest \<Rightarrow> waiting_row m t x s
      | [] \<Rightarrow> t_events x \<noteq> [] \<and> counter_taken m t)"

lemma finite_dom_upd: "finite (dom f) \<Longrightarrow> finite (dom (f(t := y)))"
  by (rule finite_subset [of _ "insert t (dom f)"]) auto

lemma finite_active: "machine_reachable sortu sortd m \<Longrightarrow> finite (dom (active m))"
proof (induction rule: machine_reachable_induct)
  case (idle now)
  then show ?case by (simp add: idle_machine_def)
next
  case (step m m')
  from step(2,3) show ?case
    by (cases rule: machine_step.cases) (simp_all add: put_tx_def end_tx_def finite_dom_upd del: fun_upd_apply)
qed

lemma not_all_wait:
  assumes "sort_contract sortu compare_updates" "sort_contract sortd compare_deletes"
    and reach: "machine_reachable sortu sortd m" and some: "active m t0 = Some x0"
  shows "\<exists>t x. active m t = Some x \<and> \<not> waits m t x"
proof (rule ccontr)
  assume "\<not> ?thesis"
  then have all: "waits m t x" if "active m t = Some x" for t x using that by blast
  note ok = machine_okD(2) [OF machine_reachable_ok [OF reach]]
  have free: "\<not> counter_taken m t" for t
    using all by (auto simp: counter_taken_def waits_def)
  have blocked: "\<exists>s rest. t_todo x = s # rest \<and> waiting_row m t x s" if "active m t = Some x" for t x
    using all [OF that] free by (auto simp: waits_def split: list.splits)
  let ?next = "\<lambda>t. stmt_lock (hd (t_todo (the (active m t))))"
  let ?L = "?next ` dom (active m)"
  have L: "finite ?L" "?L \<noteq> {}" using finite_active [OF reach] some by auto
  obtain t x where t: "active m t = Some x" "?next t = Max ?L" using Max_in [OF L] by force
  obtain s rest where s: "t_todo x = s # rest" "waiting_row m t x s" using blocked [OF t(1)] by blast
  then obtain t' x' where t': "active m t' = Some x'" "stmt_lock s \<in> held x'" "t' \<noteq> t" by (auto simp: waiting_row_def)
  obtain s' rest' where s': "t_todo x' = s' # rest'" "waiting_row m t' x' s'" using blocked [OF t'(1)] by blast
  have "stmt_lock s \<le> stmt_lock s'" by (rule held_below_next [OF assms(1,2) ok [OF t'(1)] s'(1) t'(2)])
  moreover have "stmt_lock s' \<in> ?L" using t'(1) s'(1) by force
  then have "stmt_lock s' \<le> Max ?L" using L(1) by (rule Max_ge [rotated])
  ultimately have same: "stmt_lock s' = stmt_lock s" using t s(1) by simp
  obtain t2 x2 where t2: "active m t2 = Some x2" "stmt_lock s' \<in> held x2" "t2 \<noteq> t'" using s'(2) by (auto simp: waiting_row_def)
  then show False
    using machine_okD(3) [OF machine_reachable_ok [OF reach] t2(3) t2(1) t'(1)] t'(2) same by auto
qed

section \<open>A call alone\<close>

text \<open>While no other transaction holds a lock, a call runs through as the code runs it alone.\<close>

definition others_quiet :: "machine \<Rightarrow> nat \<Rightarrow> bool" where
  "others_quiet m t \<longleftrightarrow> (\<forall>t' x'. t' \<noteq> t \<longrightarrow> active m t' = Some x' \<longrightarrow> held x' = {} \<and> t_log x' = None)"

lemma quiet_put_tx [simp]: "others_quiet (put_tx t y m) t \<longleftrightarrow> others_quiet m t"
  by (simp add: others_quiet_def)

lemma view_put_tx [simp]: "view (put_tx t y m) x = view m x"
  by (simp add: view_def)

text \<open>A statement runs when nothing blocks it and the database accepts it.\<close>

definition after_stmt :: "data_stmt \<Rightarrow> data_stmt list \<Rightarrow> db \<Rightarrow> settings_tx \<Rightarrow> settings_tx" where
  "after_stmt s rest d x =
     x\<lparr>t_todo := rest, t_done := t_done x @ (if missed s d then [] else [s]),
       t_writes := t_writes x @ stmt_writes (t_now x) s d, t_events := t_events x @ stmt_events (t_now x) s d\<rparr>"

lemma after_stmt_simps [simp]:
  "t_todo (after_stmt s rest d x) = rest" "t_log (after_stmt s rest d x) = t_log x" "t_call (after_stmt s rest d x) = t_call x"
  "t_now (after_stmt s rest d x) = t_now x" "t_events (after_stmt s rest d x) = t_events x @ stmt_events (t_now x) s d"
  "t_writes (after_stmt s rest d x) = t_writes x @ stmt_writes (t_now x) s d"
  by (simp_all add: after_stmt_def)

lemma run_statement:
  assumes "active m t = Some x" "t_log x = None" "t_todo x = s # rest" "\<not> waiting_row m t x s" "stmt_ok (t_now x) s (view m x)"
  shows "machine_step sortu sortd m (put_tx t (after_stmt s rest (view m x) x) m)"
proof -
  let ?v = "alone_world (view m x) (t_now x) 0 0 (\<lambda>_. 0)"
  have "stmt_query s ?v = (Inr (stmt_events (t_now x) s (view m x)), step_to (apply_writes (stmt_writes (t_now x) s (view m x)) (view m x)) ?v)"
    using assms(5) by (simp add: stmt_query_iff)
  then show ?thesis
    unfolding after_stmt_def using assms(1-4) by (intro machine_step.ran [where v = ?v]) simp_all
qed

text \<open>The log of a transaction has room unless the database refuses an id.\<close>

lemma view_counter:
  assumes "machine_ok sortu sortd m"
  shows "counters (view m x) sequenceEventLog = Some (event_counter (committed m))"
    "e \<in> set (eventlog (view m x)) \<Longrightarrow> ev_id e \<le> event_counter (committed m)"
proof -
  note c = eventlog_ok_counter [OF reachable_eventlog_ok [OF machine_okD(1) [OF assms]]]
  show "counters (view m x) sequenceEventLog = Some (event_counter (committed m))" using c by (simp add: view_def)
  show "ev_id e \<le> event_counter (committed m)" if "e \<in> set (eventlog (view m x))"
  proof -
    have "ev_id e \<in> set (map ev_id (eventlog (committed m)))" using that by (simp add: view_def)
    then show ?thesis using c by simp
  qed
qed

lemma log_total:
  assumes "machine_ok sortu sortd m" "in_bigint (event_counter (committed m) + int (length (t_events x)))"
  obtains v v' where "logAndNotifyAll (t_events x) v = (Inr (), v')" "db v = view m x"
  using logAndNotifyAll_total [of "alone_world (view m x) 0 0 0 (\<lambda>_. 0)" "event_counter (committed m)" "t_events x"]
    view_counter [OF assms(1)] assms(2) by auto

lemma run_statements:
  assumes "others_quiet m t" "active m t = Some x" "t_log x = None" "t_todo x = ss @ rest"
    and "for_each stmt_query ss v = (Inr evs, v')" "db v = view m x" "sql_now v = t_now x"
  shows "\<exists>y. (machine_step sortu sortd)\<^sup>*\<^sup>* m (put_tx t y m) \<and> t_todo y = rest \<and> t_log y = None \<and> t_call y = t_call x \<and>
    t_now y = t_now x \<and> t_events y = t_events x @ concat evs \<and> view m y = db v' \<and> same_env v v'"
  using assms
proof (induction ss arbitrary: m x v evs)
  case Nil
  then show ?case by (intro exI [of _ x]) (simp add: put_tx_same)
next
  case (Cons s ss)
  from Cons.prems(5) obtain e v1 evs1 where s: "stmt_query s v = (Inr e, v1)" and rest: "for_each stmt_query ss v1 = (Inr evs1, v')"
    and evs: "evs = e # evs1" by (auto simp: bindM_Inr_iff)
  let ?y = "after_stmt s (ss @ rest) (view m x) x"
  have e: "stmt_ok (t_now x) s (view m x)" "e = stmt_events (t_now x) s (view m x)"
    using s by (simp_all add: stmt_query_iff Cons.prems(6,7))
  have "\<not> waiting_row m t x s" using Cons.prems(1) by (auto simp: waiting_row_def others_quiet_def)
  then have step: "machine_step sortu sortd m (put_tx t ?y m)"
    using Cons.prems(2-4) e(1) by (intro run_statement) simp_all
  have v1: "v1 = step_to (apply_writes (stmt_writes (t_now x) s (view m x)) (view m x)) v"
    using s by (simp add: stmt_query_iff Cons.prems(6,7))
  have view1: "db v1 = view (put_tx t ?y m) ?y" by (simp add: v1) (simp add: view_def)
  have env: "sql_now v1 = t_now ?y" "same_env v v1" using Cons.prems(7) by (simp_all add: v1)
  have "\<exists>y. (machine_step sortu sortd)\<^sup>*\<^sup>* (put_tx t ?y m) (put_tx t y (put_tx t ?y m)) \<and> t_todo y = rest \<and> t_log y = None \<and>
      t_call y = t_call ?y \<and> t_now y = t_now ?y \<and> t_events y = t_events ?y @ concat evs1 \<and> view (put_tx t ?y m) y = db v' \<and> same_env v1 v'"
    by (rule Cons.IH [OF _ _ _ _ rest view1 env(1)]) (use Cons.prems(1,3) in simp_all)
  then obtain y where y: "(machine_step sortu sortd)\<^sup>*\<^sup>* (put_tx t ?y m) (put_tx t y m)" "t_todo y = rest" "t_log y = None"
    "t_call y = t_call x" "t_now y = t_now x" "t_events y = t_events x @ stmt_events (t_now x) s (view m x) @ concat evs1" "view m y = db v'" "same_env v1 v'"
    unfolding put_tx_twice view_put_tx by auto
  have "(machine_step sortu sortd)\<^sup>*\<^sup>* m (put_tx t y m)" using step y(1) by (rule converse_rtranclp_into_rtranclp)
  then show ?case
    using y(2-7) same_env_trans [OF env(2) y(8)] by (intro exI [of _ y]) (simp add: evs e(2))
qed

lemma run_log:
  assumes "active m t = Some x" "t_log x = Some (first, ts)" "length ts + k = length (t_events x)"
  shows "\<exists>us. (machine_step sortu sortd)\<^sup>*\<^sup>* m (put_tx t (x\<lparr>t_log := Some (first, us)\<rparr>) m) \<and> length us = length (t_events x)"
  using assms
proof (induction k arbitrary: m x ts)
  case 0
  then have "put_tx t (x\<lparr>t_log := Some (first, ts)\<rparr>) m = m" by (cases x) (simp add: put_tx_same)
  with 0 show ?case by (intro exI [of _ ts]) simp
next
  case (Suc k)
  let ?y = "x\<lparr>t_log := Some (first, ts @ [m_clock m])\<rparr>"
  have step: "machine_step sortu sortd m (put_tx t ?y m)"
    using Suc.prems by (intro machine_step.entry_logged) simp_all
  have "\<exists>us. (machine_step sortu sortd)\<^sup>*\<^sup>* (put_tx t ?y m) (put_tx t (?y\<lparr>t_log := Some (first, us)\<rparr>) (put_tx t ?y m)) \<and>
      length us = length (t_events ?y)"
    using Suc.IH [of "put_tx t ?y m" ?y "ts @ [m_clock m]"] Suc.prems by simp
  then obtain us where "(machine_step sortu sortd)\<^sup>*\<^sup>* (put_tx t ?y m) (put_tx t (x\<lparr>t_log := Some (first, us)\<rparr>) m)"
    "length us = length (t_events x)" by auto
  then show ?case using step by (meson converse_rtranclp_into_rtranclp)
qed

text \<open>The end of a transaction that has run its statements: the log, then the commit.\<close>

lemma run_to_logged:
  assumes quiet: "others_quiet m t" and x: "active m t = Some x" "t_log x = None" "t_todo x = []"
    and log: "logAndNotifyAll (t_events x) v = (Inr (), v')" "db v = view m x"
  shows "\<exists>z. (machine_step sortu sortd)\<^sup>*\<^sup>* m (put_tx t z m) \<and> logged_all z \<and> t_call z = t_call x \<and>
    abs_settings (commit_tx z (committed m)) = abs_settings (db v')"
proof (cases "t_events x = []")
  case True
  then have all: "logged_all x" using x by (simp add: logged_all_def)
  have "db v' = view m x" using log True by (simp add: logAndNotifyAll_def)
  then have "commit_tx x (committed m) = db v'" using x(2) by (simp add: commit_tx_def view_def)
  then show ?thesis using all put_tx_same [OF x(1)] by (metis rtranclp.rtrancl_refl)
next
  case False
  obtain lastID v1 where r: "q_ReserveSequenceValues (int (length (t_events x))) sequenceEventLog v = (Inr lastID, v1)"
    using log(1) False by (auto simp: logAndNotifyAll_def bindM_Inr_iff)
  let ?first = "lastID - int (length (t_events x)) + 1"
  let ?y = "x\<lparr>t_log := Some (?first, [])\<rparr>"
  have "\<not> counter_taken m t" using quiet by (auto simp: counter_taken_def others_quiet_def)
  then have step: "machine_step sortu sortd m (put_tx t ?y m)"
    using x False log(2) r by (intro machine_step.reserved) simp_all
  have "\<exists>us. (machine_step sortu sortd)\<^sup>*\<^sup>* (put_tx t ?y m)
      (put_tx t (?y\<lparr>t_log := Some (?first, us)\<rparr>) (put_tx t ?y m)) \<and> length us = length (t_events ?y)"
    by (rule run_log [where k = "length (t_events x)"]) simp_all
  then obtain us where us: "(machine_step sortu sortd)\<^sup>*\<^sup>* (put_tx t ?y m) (put_tx t (x\<lparr>t_log := Some (?first, us)\<rparr>) m)"
    "length us = length (t_events x)" by auto
  let ?z = "x\<lparr>t_log := Some (?first, us)\<rparr>"
  have "logged_all ?z" using us(2) x(3) by (simp add: logged_all_def)
  moreover have "abs_settings (commit_tx ?z (committed m)) = abs_settings (db v')"
  proof -
    have "db v' = logged (clock v) (Suc (pos v)) (t_events x) (view m x)"
      using logAndNotifyAll_effect(1) [OF log(1)] by (simp add: log(2))
    then have "abs_settings (db v') = abs_tables (documents (view m x)) (properties (view m x)) (eventlog (view m x) @ t_events x)"
      by (simp add: abs_settings_logged)
    moreover have "abs_settings (commit_tx ?z (committed m)) =
        abs_tables (documents (view m x)) (properties (view m x)) (eventlog (view m x) @ t_events x)"
      by (simp add: commit_tx_def abs_settings_def abs_tables_def append_log_def abs_log_rows view_def)
    ultimately show ?thesis by simp
  qed
  moreover have "t_call ?z = t_call x" by simp
  ultimately show ?thesis using converse_rtranclp_into_rtranclp [OF step us(1)] by blast
qed

lemma logged_alone:
  assumes "others_quiet m t" "active m t = None" "call_body sortu sortd c w = (Inr (), w')" "db w = committed m" "clock w (pos w) = m_clock m"
  shows "\<exists>z. (machine_step sortu sortd)\<^sup>*\<^sup>* m (put_tx t z m) \<and> logged_all z \<and> t_call z = c \<and>
    abs_settings (commit_tx z (committed m)) = abs_settings (db w')"
proof -
  obtain v where body: "stmts_body (call_stmts sortu sortd (m_clock m) c) v = (Inr (), w')" and v: "db v = committed m"
  proof (cases c)
    case (CallUpdate u)
    then show thesis using assms(3-5) that [of "step_to (db w) w"] unfolding CallUpdate call_body_statements(1) by (simp add: bindM_Inr_iff)
  next
    case (CallDelete ow ap ty ky "by")
    then show thesis using assms(3,4) that unfolding CallDelete call_body_statements(2) [where now = "m_clock m"] by blast
  next
    case (CallSet ow us)
    then show thesis using assms(3-5) that [of "step_to (db w) w"] unfolding CallSet call_body_statements(3) by (simp add: bindM_Inr_iff)
  next
    case (CallDrop ow ds)
    then show thesis using assms(3,4) that unfolding CallDrop call_body_statements(4) [where now = "m_clock m"] by blast
  qed
  obtain evs v1 where stmts: "for_each stmt_query (call_stmts sortu sortd (m_clock m) c) v = (Inr evs, v1)"
    and log: "logAndNotifyAll (concat evs) v1 = (Inr (), w')"
    using body by (auto simp: stmts_body_def bindM_Inr_iff)
  let ?x = "start_tx sortu sortd c (sql_now v) (m_clock m)"
  have start: "machine_step sortu sortd m (put_tx t ?x m)" by (rule machine_step.began [of m t sortu sortd c "sql_now v"]) (rule assms(2))
  have view: "db v = view (put_tx t ?x m) ?x" by (simp add: v view_def start_tx_def)
  have "\<exists>y. (machine_step sortu sortd)\<^sup>*\<^sup>* (put_tx t ?x m) (put_tx t y (put_tx t ?x m)) \<and> t_todo y = [] \<and> t_log y = None \<and>
      t_call y = t_call ?x \<and> t_now y = t_now ?x \<and> t_events y = t_events ?x @ concat evs \<and> view (put_tx t ?x m) y = db v1 \<and> same_env v v1"
    by (rule run_statements [OF _ _ _ _ stmts view]) (simp_all add: assms(1) start_tx_def)
  then obtain y where y: "(machine_step sortu sortd)\<^sup>*\<^sup>* (put_tx t ?x m) (put_tx t y m)" "t_todo y = []" "t_log y = None"
    "t_events y = concat evs" "view m y = db v1" "t_call y = c" by (auto simp: start_tx_def)
  have "\<exists>z. (machine_step sortu sortd)\<^sup>*\<^sup>* (put_tx t y m) (put_tx t z (put_tx t y m)) \<and> logged_all z \<and> t_call z = t_call y \<and>
      abs_settings (commit_tx z (committed (put_tx t y m))) = abs_settings (db w')"
    by (rule run_to_logged [where v = v1 and x = y]) (use assms(1) y log in simp_all)
  then show ?thesis
    using converse_rtranclp_into_rtranclp [OF start y(1)] y(6) by (auto intro: rtranclp_trans)
qed

section \<open>Progress\<close>

text \<open>What the database refuses: a version or an id out of range, a row without its user.\<close>

definition refused :: "machine \<Rightarrow> settings_tx \<Rightarrow> bool" where
  "refused m x \<longleftrightarrow>
     (case t_todo x of
        s # rest \<Rightarrow> \<not> stmt_ok (t_now x) s (view m x)
      | [] \<Rightarrow> t_log x = None \<and> t_events x \<noteq> [] \<and> \<not> in_bigint (event_counter (committed m) + int (length (t_events x))))"

text \<open>The statements still to come, counting two for a data statement and the entry it may add.\<close>

definition remaining :: "settings_tx \<Rightarrow> nat" where
  "remaining x = 2 * length (t_todo x) +
     (case t_log x of None \<Rightarrow> length (t_events x) + 2 | Some (first, ts) \<Rightarrow> length (t_events x) - length ts + 1)"

definition advances :: "property_update sorter \<Rightarrow> property_delete sorter \<Rightarrow> machine \<Rightarrow> nat \<Rightarrow> settings_tx \<Rightarrow> bool" where
  "advances sortu sortd m t x \<longleftrightarrow>
     (\<exists>y. machine_step sortu sortd m (put_tx t y m) \<and> remaining y < remaining x) \<or>
     machine_step sortu sortd m ((end_tx t m)\<lparr>committed := commit_tx x (committed m)\<rparr>)"

lemma stmt_events_length: "length (stmt_events now s d) \<le> 1"
  by (cases s) simp_all

lemma advances_unless:
  assumes ok: "machine_ok sortu sortd m" and x: "active m t = Some x" "\<not> waits m t x" "\<not> refused m x"
  shows "advances sortu sortd m t x"
proof (cases "t_log x")
  case (Some l)
  then obtain first ts where l: "t_log x = Some (first, ts)" by (cases l) auto
  then have todo: "t_todo x = []" "length ts \<le> length (t_events x)" using machine_okD(2) [OF ok x(1)] by (auto simp: tx_ok_def)
  show ?thesis
  proof (cases "length ts < length (t_events x)")
    case True
    then have "remaining (x\<lparr>t_log := Some (first, ts @ [m_clock m])\<rparr>) < remaining x" by (simp add: remaining_def l)
    then show ?thesis using machine_step.entry_logged [OF x(1) l True, of sortu sortd] unfolding advances_def by blast
  next
    case False
    then have "logged_all x" using todo l by (simp add: logged_all_def)
    then show ?thesis using machine_step.finished [OF x(1)] unfolding advances_def by blast
  qed
next
  case None
  let ?v = "alone_world (view m x) (t_now x) 0 0 (\<lambda>_. 0)"
  show ?thesis
  proof (cases "t_todo x")
    case (Cons s rest)
    have "\<not> waiting_row m t x s" using x(2) None Cons by (simp add: waits_def)
    then have "machine_step sortu sortd m (put_tx t (after_stmt s rest (view m x) x) m)"
      using x(1,3) None Cons by (intro run_statement) (simp_all add: refused_def)
    moreover have "remaining (after_stmt s rest (view m x) x) < remaining x"
      using stmt_events_length [of "t_now x" s "view m x"] Cons None by (simp add: remaining_def)
    ultimately show ?thesis unfolding advances_def by blast
  next
    case Nil
    show ?thesis
    proof (cases "t_events x = []")
      case True
      then have "logged_all x" using Nil None by (simp add: logged_all_def)
      then show ?thesis using machine_step.finished [OF x(1)] unfolding advances_def by blast
    next
      case False
      let ?last = "event_counter (committed m) + int (length (t_events x))"
      have "\<exists>v'. q_ReserveSequenceValues (int (length (t_events x))) sequenceEventLog ?v = (Inr ?last, v')"
        using x(3) Nil None False view_counter(1) [OF ok, of x] by (simp add: q_ReserveSequenceValues_iff refused_def)
      then obtain v' where "q_ReserveSequenceValues (int (length (t_events x))) sequenceEventLog ?v = (Inr ?last, v')" by blast
      moreover have "\<not> counter_taken m t" using x(2) None Nil False by (simp add: waits_def)
      ultimately have "machine_step sortu sortd m (put_tx t (x\<lparr>t_log := Some (?last - int (length (t_events x)) + 1, [])\<rparr>) m)"
        using x(1) None Nil False by (intro machine_step.reserved [where v = ?v]) simp_all
      moreover have "remaining (x\<lparr>t_log := Some (?last - int (length (t_events x)) + 1, [])\<rparr>) < remaining x"
        using None Nil by (simp add: remaining_def)
      ultimately show ?thesis unfolding advances_def by blast
    qed
  qed
qed

end
