(* ===== verification/Interleaving_Props.thy ===== *)
theory Interleaving_Props
  imports Interleaving_Progress Eventlog_Props
begin

text \<open>
  The properties of the machine: commits are atomic steps of the store, a client that tails the
  eventlog meanwhile misses nothing and the times it sees do not go back, and writers never block
  each other for good.
\<close>

section \<open>A run for the witnesses\<close>

abbreviation sample_call :: settings_call where
  "sample_call \<equiv> CallUpdate \<lparr>du_Owner = ''u'', du_Application = ''app'', du_Type = ''ty'', du_Key = ''k'',
     du_SchemaVersion = ''v1'', du_Title = ''t'', du_UpdatedBy = ''u'', du_Payload = JBool True\<rparr>"

lemma sample_body: "call_body sortu sortd sample_call (snapshot empty_db) = (Inr (), written)"
  using sample_update_store by (simp add: UpdateDocument_def run_tx_def split: prod.splits sum.splits)

lemma idle_reachable: "machine_reachable sortu sortd (idle_machine now)"
  by (auto simp: machine_reachable_def)

lemma machine_reachable_steps:
  "machine_reachable sortu sortd m \<Longrightarrow> (machine_step sortu sortd)\<^sup>*\<^sup>* m m' \<Longrightarrow> machine_reachable sortu sortd m'"
  unfolding machine_reachable_def by (meson rtranclp_trans)

lemma sample_logged:
  obtains m z where "m = put_tx 0 z (idle_machine 0)" "(machine_step sortu sortd)\<^sup>*\<^sup>* (idle_machine 0) m" "logged_all z"
    "t_call z = sample_call" "abs_settings (commit_tx z (committed m)) = abs_settings (db written)"
  using logged_alone [of "idle_machine 0" 0 sortu sortd sample_call "snapshot empty_db" written] sample_body
  by (auto simp: others_quiet_def idle_machine_def)

lemma sample_run:
  obtains m where "machine_reachable sortu sortd m" "(machine_step sortu sortd)\<^sup>*\<^sup>* (idle_machine 0) m" "active m = Map.empty"
    "abs_settings (committed m) = abs_settings (db written)"
proof -
  obtain m z where m: "m = put_tx 0 z (idle_machine 0)" "(machine_step sortu sortd)\<^sup>*\<^sup>* (idle_machine 0) m" "logged_all z"
    "abs_settings (commit_tx z (committed m)) = abs_settings (db written)" by (rule sample_logged)
  have step: "machine_step sortu sortd m ((end_tx 0 m)\<lparr>committed := commit_tx z (committed m)\<rparr>)"
    by (rule machine_step.finished [of m 0 z]) (use m(1,3) in simp_all)
  have run: "(machine_step sortu sortd)\<^sup>*\<^sup>* (idle_machine 0) ((end_tx 0 m)\<lparr>committed := commit_tx z (committed m)\<rparr>)"
    using m(2) step by (rule rtranclp.rtrancl_into_rtrancl)
  have "active (end_tx 0 m) = Map.empty" by (rule ext) (simp add: m(1) idle_machine_def)
  then show thesis
    by (intro that [OF machine_reachable_steps [OF idle_reachable run] run]) (simp_all add: m(4))
qed

lemma history_written: "spec_history (abs_settings (db written)) = [DocumentStored (''u'', ''app'', ''ty'', ''k'') 1 ''u'']"
  by (simp add: abs_settings_def abs_tables_def eventlog_written abs_event_def document_event_def text_string_def)

section \<open>Commits are atomic\<close>

text \<open>C8: however the statements of the settings transactions interleave, what has been committed is a
  reachable database, every step leaves it alone or is one step of the store, and a transaction that
  finishes has the effect of its call run alone at that moment; of a batch of deletions it has the
  effect of those that found their row, and a deletion that found no document changes nothing.\<close>

theorem interleaved_commits_atomic:
  assumes "machine_reachable sortu sortd m"
  shows "reachable (committed m) \<and>
    (\<forall>m'. machine_step sortu sortd m m' \<longrightarrow> committed m' = committed m \<or> store_step (committed m) (committed m')) \<and>
    (\<forall>t x. active m t = Some x \<longrightarrow> logged_all x \<longrightarrow>
       ((\<exists>ow ap ty ky by. t_call x = CallDelete ow ap ty ky by) \<and> commit_tx x (committed m) = committed m) \<or>
       (\<exists>sd c w w'. carried_out sortd (t_call x) sd c \<and> call_body sortu sd c w = (Inr (), w') \<and>
          db w = committed m \<and> db w' = commit_tx x (committed m)))"
proof -
  note ok = machine_reachable_ok [OF assms]
  show ?thesis
    using machine_okD(1) [OF ok] machine_step_atomic [OF _ ok]
      commit_call [OF machine_okD(2) [OF ok] _ reachable_eventlog_ok [OF machine_okD(1) [OF ok]]] by blast
qed

theorem interleaved_commits_atomic_witness:
  "\<exists>(m :: machine) x sortu sortd w w'. active m 0 = Some x \<and> t_call x = sample_call \<and>
     call_body sortu sortd sample_call w = (Inr (), w') \<and> db w = committed m \<and> db w' = commit_tx x (committed m)"
proof -
  let ?su = "sample_sort pu_Key" and ?sd = "sample_sort pd_Key"
  obtain m z where m: "m = put_tx 0 z (idle_machine 0)" "(machine_step ?su ?sd)\<^sup>*\<^sup>* (idle_machine 0) m" "logged_all z"
    "t_call z = sample_call" by (rule sample_logged)
  have z: "active m 0 = Some z" by (simp add: m(1))
  note claim = interleaved_commits_atomic [OF machine_reachable_steps [OF idle_reachable m(2)]]
  have "\<exists>sd c w w'. carried_out ?sd (t_call z) sd c \<and> call_body ?su sd c w = (Inr (), w') \<and>
      db w = committed m \<and> db w' = commit_tx z (committed m)"
    using conjunct2 [OF conjunct2 [OF claim]] z m(3,4) by (metis settings_call.distinct(1))
  then show ?thesis using z m(4) by (auto simp: carried_out_def)
qed

section \<open>Tailing the eventlog\<close>

text \<open>C10: a client that tails the eventlog while settings transactions interleave, each reserving its ids some
  time before it commits, misses no entry of its owners and sees each once in ascending order; and the
  creation times of the entries never go back, whatever the order in which the transactions began.\<close>

theorem tail_interleaved:
  assumes "machine_reachable sortu sortd m" "run_of (machine_step sortu sortd) m ms" "ms \<noteq> []" "0 < n"
    and "after \<le> event_counter (committed m)"
    and "tail_polls (\<lambda>m. log_fetch owners n (committed m)) ent_ID after ms = (es, c)"
  shows "sorted_wrt (<) (map ent_ID es) \<and>
    (\<forall>x \<in> set (eventlog (committed (last ms))). ev_owner x \<in> set owners \<and> after < ev_id x \<and> ev_id x \<le> c \<longrightarrow>
       ev_id x \<in> ent_ID ` set es) \<and>
    sorted (map ev_created (eventlog (committed (last ms))))"
proof -
  have "machine_reachable sortu sortd (last ms)"
    using run_of_last [OF assms(2,3)] machine_reachable_steps [OF assms(1)] by blast
  then have "sorted (map ev_created (eventlog (committed (last ms))))"
    using machine_reachable_times by (simp add: times_ok_def)
  then show ?thesis
    using interleaved_tail.tail_view [OF assms(2,3) machine_reachable_ok [OF assms(1)] assms(4,5) log_fetch_ids [OF assms(4)] assms(6)]
    by (simp add: eventlog_rows_def)
qed

theorem tail_interleaved_witness:
  "\<exists>(m :: machine) es c. tail_polls (\<lambda>m. log_fetch [''u''] 5 (committed m)) ent_ID 0 [m] = (es, c) \<and> c = 1 \<and> 1 \<in> ent_ID ` set es \<and>
     sorted (map ev_created (eventlog (committed m)))"
proof -
  obtain m where m: "machine_reachable (sample_sort pu_Key) (sample_sort pd_Key) m"
    "(machine_step (sample_sort pu_Key) (sample_sort pd_Key))\<^sup>*\<^sup>* (idle_machine 0) m"
    "abs_settings (committed m) = abs_settings (db written)" by (rule sample_run)
  have "map abs_event (eventlog (committed m)) = [DocumentStored (''u'', ''app'', ''ty'', ''k'') 1 ''u'']"
    using m(3) history_written by (simp add: abs_settings_def abs_tables_def)
  then obtain e where e: "eventlog (committed m) = [e]" "abs_event e = DocumentStored (''u'', ''app'', ''ty'', ''k'') 1 ''u''" by auto
  have owner: "ev_owner e = ''u''" using e(2) by (auto simp: abs_event_def Let_def split: resource_kind.splits event_type.splits)
  have "map ev_id (eventlog (committed m)) = [1..int (length (eventlog (committed m)))]"
    using eventlog_gapless_ids [OF machine_okD(1) [OF machine_reachable_ok [OF m(1)]]] by simp
  then have id: "ev_id e = 1" by (simp add: e(1))
  have page: "page_after ev_id (eventlog_rows [''u''] (committed m)) 0 5 = [e]"
    by (simp add: page_after_def page_asc_def eventlog_rows_def e(1) owner id)
  have t: "tail_polls (\<lambda>m. log_fetch [''u''] 5 (committed m)) ent_ID 0 [m] = ([entry_of_row e], 1)"
    by (simp add: log_fetch_page page) (simp add: entry_of_row_def id)
  have run: "run_of (machine_step (sample_sort pu_Key) (sample_sort pd_Key)) (idle_machine 0) [m]" using m(2) by simp
  have "0 \<le> event_counter (committed (idle_machine 0))"
    by (simp add: idle_machine_def event_counter_def empty_db_def sequenceEventLog_def)
  from tail_interleaved [OF idle_reachable run not_Cons_self2 zero_less_numeral this t, unfolded last.simps]
  have "ev_id e \<in> ent_ID ` set [entry_of_row e] \<and> sorted (map ev_created (eventlog (committed m)))"
    using e(1) owner id by simp
  then show ?thesis unfolding id using t by blast
qed

section \<open>Writers do not deadlock\<close>

text \<open>C9: while settings transactions are active, one of them can take its next step or commit, each step
  leaving less to do, unless the database refuses its statement (a version or an id out of range, a row
  without its user): the sorting of a batch by application and key, and the counter locked last, exclude
  that transactions wait for each other in a circle.\<close>

theorem writers_never_deadlock:
  assumes "sort_contract sortu compare_updates" "sort_contract sortd compare_deletes"
    and "machine_reachable sortu sortd m" "active m t0 = Some x0"
  shows "\<exists>t x. active m t = Some x \<and> (refused m x \<or> advances sortu sortd m t x)"
proof -
  obtain t x where "active m t = Some x" "\<not> waits m t x" using not_all_wait [OF assms] by blast
  then show ?thesis using advances_unless [OF machine_reachable_ok [OF assms(3)]] by blast
qed

definition sample_machine :: machine where
  "sample_machine = put_tx 0 (start_tx (sample_sort (\<lambda>p. (pu_Application p, pu_Key p)))
     (sample_sort (\<lambda>p. (pd_Application p, pd_Key p))) sample_call 0 0) (idle_machine 0)"

theorem writers_never_deadlock_witness:
  "\<exists>x. active sample_machine 0 = Some x \<and> advances (sample_sort (\<lambda>p. (pu_Application p, pu_Key p)))
     (sample_sort (\<lambda>p. (pd_Application p, pd_Key p))) sample_machine 0 x"
proof -
  let ?su = "sample_sort (\<lambda>p :: property_update. (pu_Application p, pu_Key p))"
  let ?sd = "sample_sort (\<lambda>p :: property_delete. (pd_Application p, pd_Key p))"
  have "machine_step ?su ?sd (idle_machine 0) sample_machine"
    using machine_step.began [of "idle_machine 0" 0 ?su ?sd sample_call 0] by (simp add: sample_machine_def idle_machine_def)
  then have reach: "machine_reachable ?su ?sd sample_machine" by (rule machine_reachable_step [OF idle_reachable])
  obtain x0 where "active sample_machine 0 = Some x0" by (simp add: sample_machine_def)
  from writers_never_deadlock [OF sample_sort_updates sample_sort_deletes reach this]
  obtain t x where t: "active sample_machine t = Some x" "refused sample_machine x \<or> advances ?su ?sd sample_machine t x" by blast
  then have x: "t = 0" "t_todo x = call_stmts ?su ?sd 0 sample_call" "t_now x = 0"
    by (auto simp: sample_machine_def idle_machine_def start_tx_def split: if_splits)
  then have "\<not> refused sample_machine x" by (simp add: refused_def)
  then show ?thesis using t x(1) by auto
qed

section \<open>A batch of deletions is not atomic\<close>

text \<open>
  Why the effect of a batch of deletions is that of the rows it found: a deletion that finds no row
  takes no lock. Between two deletions of one batch a concurrent batch may commit both properties;
  then the second is removed and the first stays, which no order of the two calls gives.
\<close>

abbreviation sample_drops :: "property_delete list" where
  "sample_drops \<equiv> [\<lparr>pd_Application = ''app'', pd_Key = ''a''\<rparr>, \<lparr>pd_Application = ''app'', pd_Key = ''b''\<rparr>]"

lemma sample_set_body:
  "call_body (sample_sort (\<lambda>p. (pu_Application p, pu_Key p))) sortd (CallSet ''u'' sample_properties) (snapshot empty_db) = (Inr (), with_properties)"
  using sample_set by (simp add: SetProperties_def run_tx_def split: prod.splits sum.splits)

lemma batch_drop_not_serial:
  fixes sortd :: "property_delete sorter"
  defines "sortu \<equiv> sample_sort (\<lambda>p. (pu_Application p, pu_Key p))"
  assumes sortd: "sortd compare_deletes sample_drops = sample_drops"
  shows "\<exists>m x. machine_reachable sortu sortd m \<and> active m 0 = Some x \<and> t_call x = CallDrop ''u'' sample_drops \<and> logged_all x \<and>
    (\<forall>w w'. call_body sortu sortd (t_call x) w = (Inr (), w') \<and> db w = committed m \<longrightarrow> db w' \<noteq> commit_tx x (committed m))"
proof -
  let ?set = "CallSet ''u'' sample_properties" and ?drop = "CallDrop ''u'' sample_drops"
  let ?m0 = "idle_machine 0" and ?w = "step_to empty_db (snapshot empty_db)"
  let ?a = "DropProp ''u'' \<lparr>pd_Application = ''app'', pd_Key = ''a''\<rparr>" and ?b = "DropProp ''u'' \<lparr>pd_Application = ''app'', pd_Key = ''b''\<rparr>"
  have "stmts_body (call_stmts sortu sortd 0 ?set) ?w = (Inr (), with_properties)"
    using sample_set_body [of sortd, unfolded call_body_statements(3)] by (simp add: bindM_Inr_iff sortu_def)
  then obtain evs v1 where stmts: "for_each stmt_query (call_stmts sortu sortd 0 ?set) ?w = (Inr evs, v1)"
    and log: "logAndNotifyAll (concat evs) v1 = (Inr (), with_properties)"
    by (auto simp: stmts_body_def bindM_Inr_iff)
  let ?x1 = "start_tx sortu sortd ?set 0 0"
  let ?m1 = "put_tx 1 ?x1 ?m0"
  have s1: "machine_step sortu sortd ?m0 ?m1"
    using machine_step.began [of ?m0 1 sortu sortd ?set 0] by (simp add: idle_machine_def)
  have view1: "db ?w = view ?m1 ?x1" by (simp add: view_def start_tx_def idle_machine_def)
  have "\<exists>y. (machine_step sortu sortd)\<^sup>*\<^sup>* ?m1 (put_tx 1 y ?m1) \<and> t_todo y = [] \<and> t_log y = None \<and> t_call y = t_call ?x1 \<and>
      t_now y = t_now ?x1 \<and> t_events y = t_events ?x1 @ concat evs \<and> view ?m1 y = db v1 \<and> same_env ?w v1"
    by (rule run_statements [OF _ _ _ _ stmts view1]) (simp_all add: start_tx_def others_quiet_def idle_machine_def)
  then obtain y where y: "(machine_step sortu sortd)\<^sup>*\<^sup>* ?m1 (put_tx 1 y ?m0)" "t_todo y = []" "t_log y = None"
    "t_events y = concat evs" "db v1 = view ?m0 y" by (auto simp: start_tx_def)
  let ?m2 = "put_tx 1 y ?m0" and ?x0 = "start_tx sortu sortd ?drop 0 0"
  let ?m3 = "put_tx 0 ?x0 ?m2"
  have s3: "machine_step sortu sortd ?m2 ?m3"
    using machine_step.began [of ?m2 0 sortu sortd ?drop 0] by (simp add: idle_machine_def)
  let ?left = "?x0\<lparr>t_todo := [?b]\<rparr>"
  let ?m4 = "put_tx 0 ?left ?m2"
  have view3: "view ?m3 ?x0 = empty_db" by (simp add: view_def start_tx_def idle_machine_def)
  have missed: "missed ?a (view ?m3 ?x0)" unfolding view3 by (simp add: empty_db_def row_at_def)
  have "\<not> waiting_row ?m3 0 ?x0 ?a" using missed by (simp add: waiting_row_def)
  then have "machine_step sortu sortd ?m3 (put_tx 0 (after_stmt ?a [?b] (view ?m3 ?x0) ?x0) ?m3)"
    by (intro run_statement) (simp_all add: start_tx_def sortd)
  moreover have "after_stmt ?a [?b] (view ?m3 ?x0) ?x0 = ?left"
    using missed by (simp add: after_stmt_def start_tx_def)
  ultimately have s4: "machine_step sortu sortd ?m3 ?m4" by simp
  have quiet4: "others_quiet ?m4 1" by (simp add: others_quiet_def start_tx_def idle_machine_def held_def)
  have "\<exists>z. (machine_step sortu sortd)\<^sup>*\<^sup>* ?m4 (put_tx 1 z ?m4) \<and> logged_all z \<and> t_call z = t_call y \<and>
      abs_settings (commit_tx z (committed ?m4)) = abs_settings (db with_properties)"
    by (rule run_to_logged [where v = v1 and x = y]) (use quiet4 y log in \<open>simp_all add: view_def\<close>)
  then obtain z where z: "(machine_step sortu sortd)\<^sup>*\<^sup>* ?m4 (put_tx 1 z ?m4)" "logged_all z"
    "abs_settings (commit_tx z (committed ?m4)) = abs_settings (db with_properties)" by blast
  define d where "d = commit_tx z (committed ?m4)"
  let ?m5 = "(end_tx 1 ?m4)\<lparr>committed := d\<rparr>"
  have s5: "machine_step sortu sortd (put_tx 1 z ?m4) ?m5"
    using machine_step.finished [of "put_tx 1 z ?m4" 1 z sortu sortd] z(2) by (simp add: d_def)
  have r5: "machine_reachable sortu sortd ?m5"
    using machine_reachable_steps [OF machine_reachable_step [OF idle_reachable s1] y(1)] s3 s4 z(1) s5
    by (meson machine_reachable_step machine_reachable_steps)
  have ok5: "machine_ok sortu sortd ?m5" by (rule machine_reachable_ok [OF r5])
  have "abs_settings d = spec_call sortu sortd ?set (abs_settings empty_db)"
    using z(3) abs_call_body [OF sample_set_body] by (simp add: d_def sortu_def)
  then have spec: "spec_props (abs_settings d) (''u'', ''app'', ''a'') \<noteq> None" "spec_props (abs_settings d) (''u'', ''app'', ''b'') \<noteq> None"
    "length (spec_history (abs_settings d)) = 2"
    by (simp_all add: sortu_def sample_sorted spec_set_property_def) (simp add: abs_settings_def abs_tables_def empty_db_def)
  have view5: "view ?m5 ?left = d" by (simp add: view_def start_tx_def)
  have row: "row_at prop_key (''u'', ''app'', ''b'') (properties d) \<noteq> None"
    using spec(2) by (simp add: abs_settings_def abs_tables_def)
  define y2 where "y2 = after_stmt ?b [] (view ?m5 ?left) ?left"
  let ?m6 = "put_tx 0 y2 ?m5"
  have quiet5: "others_quiet ?m5 0" by (simp add: others_quiet_def idle_machine_def)
  then have "\<not> waiting_row ?m5 0 ?left ?b" by (auto simp: waiting_row_def others_quiet_def)
  then have s6: "machine_step sortu sortd ?m5 ?m6"
    unfolding y2_def by (intro run_statement) (simp_all add: start_tx_def)
  have y2: "t_todo y2 = []" "t_log y2 = None" "length (t_events y2) = 1" "t_call y2 = ?drop"
    "view ?m6 y2 = d\<lparr>properties := drop_row prop_key (''u'', ''app'', ''b'') (properties d)\<rparr>"
    using row by (simp_all add: y2_def start_tx_def view5) (auto simp: view_def start_tx_def)
  have r6: "machine_reachable sortu sortd ?m6" by (rule machine_reachable_step [OF r5 s6])
  have "event_counter d = 2"
    using eventlog_gapless_ids [OF machine_okD(1) [OF ok5]] spec(3) by (simp add: abs_settings_def abs_tables_def)
  then have "in_bigint (event_counter (committed ?m6) + int (length (t_events y2)))" by (simp add: y2(3) in_bigint_def min_bigint_def max_bigint_def)
  then obtain v2 v3 where log2: "logAndNotifyAll (t_events y2) v2 = (Inr (), v3)" "db v2 = view ?m6 y2"
    by (rule log_total [OF machine_reachable_ok [OF r6]])
  have quiet6: "others_quiet ?m6 0" using quiet5 by simp
  obtain x where x: "(machine_step sortu sortd)\<^sup>*\<^sup>* ?m6 (put_tx 0 x ?m5)" "logged_all x" "t_call x = ?drop"
    "abs_settings (commit_tx x d) = abs_settings (db v3)"
    using run_to_logged [OF quiet6 _ y2(2,1) log2] y2(4) by auto
  let ?m = "put_tx 0 x ?m5"
  have "spec_props (abs_settings (db v3)) (''u'', ''app'', ''a'') \<noteq> None"
    using spec(1) logAndNotifyAll_effect(1) [OF log2(1)]
    by (simp only: log2(2) y2(5) abs_settings_logged) (auto simp: abs_settings_def abs_tables_def row_at_drop_row)
  then have stays: "spec_props (abs_settings (commit_tx x d)) (''u'', ''app'', ''a'') \<noteq> None" by (simp add: x(4))
  have gone: "spec_props (abs_settings (db w')) (''u'', ''app'', ''a'') = None" if "call_body sortu sortd ?drop w = (Inr (), w')" for w w'
    using abs_call_body [OF that] by (simp add: sortd spec_drop_property_def)
  have reach: "machine_reachable sortu sortd ?m" by (rule machine_reachable_steps [OF r6 x(1)])
  have differ: "db w' \<noteq> commit_tx x (committed ?m)" if "call_body sortu sortd (t_call x) w = (Inr (), w')" for w w'
    using gone [of w w'] that stays x(3) by auto
  have "active ?m 0 = Some x" by simp
  with reach x(2,3) differ show ?thesis by blast
qed

end
