(* ===== verification/Message_Statements.thy ===== *)
theory Message_Statements
  imports Notifications
begin

text \<open>
  The message transactions of \<open>internal/messages_store.go\<close> taken apart into their statements: a push of
  a system message, a push to the inbox, a change of a read state, a deletion from the inbox. \<open>advance\<close>
  is the next statement of a call, with what it writes; \<open>drive\<close> runs a number of them, and running
  all of them is the transaction body of the code (\<open>message_body_statements\<close>).
\<close>

section \<open>Statements\<close>

datatype message_call =
    PushSystem message
  | PushInbox inbox_message
  | MarkRead inbox_reader int bool int
  | HideMessage inbox_reader int int

datatype progress =
    Begun
  | UserReady
  | Numbered int
  | Checked int
  | Stored int
  | Found string string
  | Marked string string
  | Finished int

datatype message_write =
    MUser string int user_kind
  | MLock string int
  | MRow message_row
  | MCounter int
  | MInbox inbox_row
  | MState "int \<times> string" inbox_state_row
  | MNote "notify_channel \<times> event"

fun apply_message :: "message_write \<Rightarrow> db \<Rightarrow> db" where
  "apply_message (MUser sub created kind) d = d\<lparr>users := with_user sub created kind (users d)\<rparr>"
| "apply_message (MLock r i) d = d\<lparr>write_locks := (write_locks d)((r, message_type_string MessageTypeSystem) \<mapsto> i)\<rparr>"
| "apply_message (MRow row) d = d\<lparr>messages := messages d @ [row]\<rparr>"
| "apply_message (MCounter i) d = d\<lparr>counters := (counters d)(sequenceInbox \<mapsto> i)\<rparr>"
| "apply_message (MInbox row) d = d\<lparr>inbox := inbox d @ [row]\<rparr>"
| "apply_message (MState k st) d = d\<lparr>inbox_states := (inbox_states d)(k \<mapsto> st)\<rparr>"
| "apply_message (MNote x) d = d\<lparr>outbox := outbox d @ [x]\<rparr>"

abbreviation apply_messages :: "message_write list \<Rightarrow> db \<Rightarrow> db" where
  "apply_messages ws d \<equiv> fold apply_message ws d"

text \<open>The statement that writes a state row, and the row it leaves.\<close>

definition write_state ::
    "unit query \<Rightarrow> int \<Rightarrow> string \<Rightarrow> progress \<Rightarrow> (progress \<times> message_write list) query" where
  "write_state stmt i subject next =
     catchM stmt (\<lambda>r.
       case r of
         Inl e \<Rightarrow> if e = FkViolation inboxMessageStateFK then failM ErrInboxMessageNotFound else failM e
       | Inr _ \<Rightarrow> (\<lambda>w. returnM (next, [MState (i, subject) (the (inbox_states (db w) (i, subject)))]) w))"

definition state_note :: "int \<Rightarrow> string \<Rightarrow> string \<Rightarrow> string \<Rightarrow> (progress \<times> message_write list) query" where
  "state_note i recipient subject createdBy =
     (let e = \<lparr>ise_ID = i, ise_Recipient = recipient, ise_Subject = subject, ise_CreatedBy = createdBy\<rparr>
      in bindM (notifyInboxStateUpdated e) (\<lambda>_. returnM (Finished i, [MNote (NotifyChannelInboxStateUpdate, InboxStateEvent e)])))"

fun advance :: "message_call \<Rightarrow> progress \<Rightarrow> (progress \<times> message_write list) query" where
  "advance (PushSystem m) Begun = (\<lambda>w.
     bindM (q_UpsertUser (msg_Recipient m) (msg_Created m) UserKindUser) (\<lambda>_.
     returnM (UserReady,
       if users (db w) (msg_Recipient m) = None then [MUser (msg_Recipient m) (msg_Created m) UserKindUser] else [])) w)"
| "advance (PushSystem m) UserReady =
     bindM (nextMessageID (msg_Recipient m) MessageTypeSystem) (\<lambda>nextID.
     returnM (Numbered nextID, [MLock (msg_Recipient m) nextID]))"
| "advance (PushSystem m) (Numbered nextID) =
     bindM (q_InsertMessage \<lparr>m_recipient = msg_Recipient m, m_id = nextID,
        m_type = text_or_null (msg_Type m), m_created = msg_Created m,
        m_created_by = msg_CreatedBy m, m_doc_uuid = msg_DocUUID m,
        m_doc_type = text_or_null (msg_DocType m), m_payload = msg_Payload m\<rparr>) (\<lambda>_.
     returnM (Stored nextID, [MRow (system_row m nextID)]))"
| "advance (PushSystem m) (Stored nextID) =
     bindM (notifyMessageUpdated \<lparr>me_ID = nextID, me_Recipient = msg_Recipient m\<rparr>) (\<lambda>_.
     returnM (Finished nextID, [MNote (NotifyChannelMessageUpdate, MessageEvent \<lparr>me_ID = nextID, me_Recipient = msg_Recipient m\<rparr>)]))"
| "advance (PushInbox m) Begun =
     bindM (q_ReserveSequenceValues 1 sequenceInbox) (\<lambda>nxt. returnM (Numbered nxt, [MCounter nxt]))"
| "advance (PushInbox m) (Numbered nxt) =
     bindM (existingInboxMessage (ib_Payload m) (ib_Recipient m) (ib_UUID m)) (\<lambda>found.
     case found of Some existing \<Rightarrow> failM (ErrInboxMessageExists existing) | None \<Rightarrow> returnM (Checked nxt, []))"
| "advance (PushInbox m) (Checked nxt) =
     bindM (q_InsertInboxMessage \<lparr>im_id = nxt, im_uuid = ib_UUID m, im_recipient = ib_Recipient m,
        im_created = ib_Created m, im_created_by = ib_CreatedBy m, im_payload = ib_Payload m\<rparr>) (\<lambda>_.
     returnM (Stored nxt, [MInbox (inbox_row_of m nxt)]))"
| "advance (PushInbox m) (Stored nxt) =
     bindM (notifyInboxMessageUpdated \<lparr>me_ID = nxt, me_Recipient = ib_Recipient m\<rparr>) (\<lambda>_.
     returnM (Finished nxt, [MNote (NotifyChannelInboxMessageUpdate, MessageEvent \<lparr>me_ID = nxt, me_Recipient = ib_Recipient m\<rparr>)]))"
| "advance (MarkRead reader i isRead updated) Begun =
     bindM (readableInboxMessage reader i) (\<lambda>(_, recipient, createdBy). returnM (Found recipient createdBy, []))"
| "advance (MarkRead reader i isRead updated) (Found recipient createdBy) =
     write_state (q_SetInboxMessageRead i (ir_Subject reader) isRead updated) i (ir_Subject reader) (Marked recipient createdBy)"
| "advance (MarkRead reader i isRead updated) (Marked recipient createdBy) = state_note i recipient (ir_Subject reader) createdBy"
| "advance (HideMessage reader i updated) Begun =
     bindM (readableInboxMessage reader i) (\<lambda>(_, recipient, createdBy). returnM (Found recipient createdBy, []))"
| "advance (HideMessage reader i updated) (Found recipient createdBy) =
     write_state (q_HideInboxMessage i (ir_Subject reader) updated) i (ir_Subject reader) (Marked recipient createdBy)"
| "advance (HideMessage reader i updated) (Marked recipient createdBy) = state_note i recipient (ir_Subject reader) createdBy"
| "advance c p = failM ErrNoRows"

fun drive :: "nat \<Rightarrow> message_call \<Rightarrow> progress \<Rightarrow> progress query" where
  "drive 0 c p = returnM p"
| "drive (Suc k) c p = bindM (advance c p) (\<lambda>(p1, ws). drive k c p1)"

fun message_body :: "message_call \<Rightarrow> int query" where
  "message_body (PushSystem m) = bindM (InsertMessage_tx m) (\<lambda>_. returnM 0)"
| "message_body (PushInbox m) = InsertInboxMessage_tx m"
| "message_body (MarkRead reader i isRead updated) = bindM (SetInboxMessageRead_tx reader i isRead updated) (\<lambda>_. returnM 0)"
| "message_body (HideMessage reader i updated) = bindM (HideInboxMessage_tx reader i updated) (\<lambda>_. returnM 0)"

fun statements :: "message_call \<Rightarrow> nat" where
  "statements (PushSystem m) = 4"
| "statements (PushInbox m) = 4"
| "statements (MarkRead reader i isRead updated) = 3"
| "statements (HideMessage reader i updated) = 3"

definition finished_id :: "message_call \<Rightarrow> progress \<Rightarrow> int" where
  "finished_id c p = (case (c, p) of (PushInbox m, Finished i) \<Rightarrow> i | _ \<Rightarrow> 0)"

lemma bindM_catchM: "bindM (catchM f g) h = catchM f (\<lambda>r. bindM (g r) h)"
  by (auto simp: bindM_def catchM_def fun_eq_iff split: prod.splits)

lemma bindM_failM [simp]: "bindM (failM e) g = failM e"
  by (simp add: bindM_def fun_eq_iff)

text \<open>The code's transaction bodies are their statements in turn.\<close>

lemma message_body_statements:
  "message_body c = bindM (drive (statements c) c Begun) (\<lambda>p. returnM (finished_id c p))"
proof (rule ext)
  fix w
  show "message_body c w = bindM (drive (statements c) c Begun) (\<lambda>p. returnM (finished_id c p)) w"
    by (cases c)
      (auto simp: numeral_eq_Suc InsertMessage_tx_def InsertInboxMessage_tx_def SetInboxMessageRead_tx_def HideInboxMessage_tx_def
        finished_id_def write_state_def state_note_def bindM_def catchM_def Let_def split: prod.splits sum.splits option.splits)
qed

end
