(* ===== verification/Message_Interleaving.thy ===== *)
theory Message_Interleaving
  imports Message_Statements
begin

text \<open>
  Message transactions whose statements interleave, under read committed: a statement reads what has been
  committed and what its own transaction has written; a written row is locked until the transaction ends.
  A push of a system message locks the number of its recipient, a push to the inbox the counter of the
  inbox, a change of a read state the state row and, through the foreign key, the message. Everything
  else (settings, configuration, the sweeps) commits in between, as long as it touches no locked row. So every
  commit is a step of the store, with the effect of its call run alone at that moment.
\<close>

section \<open>Row locks\<close>

datatype message_lock =
    UserL string
  | NumberL string
  | CounterL
  | StateL "int \<times> string"

fun locked_by :: "message_write \<Rightarrow> message_lock set" where
  "locked_by (MUser sub created kind) = {UserL sub}"
| "locked_by (MLock r i) = {NumberL r}"
| "locked_by (MCounter i) = {CounterL}"
| "locked_by (MState k st) = {StateL k}"
| "locked_by (MRow row) = {}"
| "locked_by (MInbox row) = {}"
| "locked_by (MNote x) = {}"

definition locked :: "message_write list \<Rightarrow> message_lock set" where
  "locked ws = (\<Union>w \<in> set ws. locked_by w)"

lemma locked_simps [simp]:
  "locked [] = {}" "locked (w # ws) = locked_by w \<union> locked ws" "locked (ws @ vs) = locked ws \<union> locked vs"
  by (auto simp: locked_def)

text \<open>The row the next statement of a call locks.\<close>

fun wants :: "message_call \<Rightarrow> progress \<Rightarrow> message_lock set" where
  "wants (PushSystem m) Begun = {UserL (msg_Recipient m)}"
| "wants (PushSystem m) UserReady = {NumberL (msg_Recipient m)}"
| "wants (PushInbox m) Begun = {CounterL}"
| "wants (MarkRead reader i isRead updated) (Found r cb) = {StateL (i, ir_Subject reader)}"
| "wants (HideMessage reader i updated) (Found r cb) = {StateL (i, ir_Subject reader)}"
| "wants c p = {}"

text \<open>
  A change that leaves the locked rows alone. The foreign key from a state row keeps its message.
\<close>

definition untouched :: "message_lock set \<Rightarrow> db \<Rightarrow> db \<Rightarrow> bool" where
  "untouched L d e \<longleftrightarrow>
     (\<forall>s. UserL s \<in> L \<longrightarrow> users e s = users d s) \<and>
     (\<forall>r. NumberL r \<in> L \<longrightarrow> write_locks e (r, ''system'') = write_locks d (r, ''system'')) \<and>
     (CounterL \<in> L \<longrightarrow> counters e sequenceInbox = counters d sequenceInbox) \<and>
     (\<forall>i s. StateL (i, s) \<in> L \<longrightarrow> inbox_states e (i, s) = inbox_states d (i, s) \<and>
        (\<forall>m \<in> set (inbox d). im_id m = i \<longrightarrow> m \<in> set (inbox e)))"

lemma untouched_refl [simp]: "untouched L d d"
  by (simp add: untouched_def)

lemma untouched_trans: "untouched L d e \<Longrightarrow> untouched L e f \<Longrightarrow> untouched L d f"
  by (simp add: untouched_def)

lemma untouched_write: "locked_by w \<inter> L = {} \<Longrightarrow> untouched L d (apply_message w d)"
  by (cases w) (auto simp: untouched_def with_user_def split: option.splits)

lemma untouched_writes: "locked ws \<inter> L = {} \<Longrightarrow> untouched L d (apply_messages ws d)"
proof (induction ws arbitrary: d)
  case (Cons w ws)
  then have "untouched L d (apply_message w d)" "untouched L (apply_message w d) (apply_messages ws (apply_message w d))"
    using untouched_write [of w L d] by auto
  then show ?case by (auto intro: untouched_trans)
qed simp

section \<open>The machine\<close>

record message_tx =
  x_call :: message_call
  x_progress :: progress
  x_writes :: "message_write list"

record message_machine =
  mm_committed :: db
  mm_active :: "nat \<rightharpoonup> message_tx"

definition put_message :: "nat \<Rightarrow> message_tx \<Rightarrow> message_machine \<Rightarrow> message_machine" where
  "put_message t x m = m\<lparr>mm_active := (mm_active m)(t \<mapsto> x)\<rparr>"

definition end_message :: "nat \<Rightarrow> message_machine \<Rightarrow> message_machine" where
  "end_message t m = m\<lparr>mm_active := (mm_active m)(t := None)\<rparr>"

lemma message_tx_simps [simp]:
  "mm_active (put_message t x m) t' = (if t' = t then Some x else mm_active m t')" "mm_committed (put_message t x m) = mm_committed m"
  "mm_active (end_message t m) t' = (if t' = t then None else mm_active m t')" "mm_committed (end_message t m) = mm_committed m"
  by (simp_all add: put_message_def end_message_def)

definition message_view :: "message_machine \<Rightarrow> message_tx \<Rightarrow> db" where
  "message_view m x = apply_messages (x_writes x) (mm_committed m)"

definition message_waits :: "message_machine \<Rightarrow> nat \<Rightarrow> message_tx \<Rightarrow> bool" where
  "message_waits m t x \<longleftrightarrow>
     (\<exists>t' x'. t' \<noteq> t \<and> mm_active m t' = Some x' \<and> wants (x_call x) (x_progress x) \<inter> locked (x_writes x') \<noteq> {})"

inductive message_step :: "message_machine \<Rightarrow> message_machine \<Rightarrow> bool" where
  began: "mm_active m t = None \<Longrightarrow>
    message_step m (put_message t \<lparr>x_call = c, x_progress = Begun, x_writes = []\<rparr> m)"
| ran: "mm_active m t = Some x \<Longrightarrow> \<not> message_waits m t x \<Longrightarrow> db v = message_view m x \<Longrightarrow>
    advance (x_call x) (x_progress x) v = (Inr (p, ws), v') \<Longrightarrow>
    message_step m (put_message t (x\<lparr>x_progress := p, x_writes := x_writes x @ ws\<rparr>) m)"
| finished: "mm_active m t = Some x \<Longrightarrow> x_progress x = Finished i \<Longrightarrow>
    message_step m ((end_message t m)\<lparr>mm_committed := message_view m x\<rparr>)"
| aborted: "mm_active m t = Some x \<Longrightarrow> message_step m (end_message t m)"
| elsewhere: "store_step (mm_committed m) d \<Longrightarrow>
    (\<And>t x. mm_active m t = Some x \<Longrightarrow> untouched (locked (x_writes x)) (mm_committed m) d) \<Longrightarrow>
    message_step m (m\<lparr>mm_committed := d\<rparr>)"

section \<open>What holds of a transaction on its way\<close>

definition user_write :: "message \<Rightarrow> db \<Rightarrow> message_write list" where
  "user_write m d = (if users d (msg_Recipient m) = None then [MUser (msg_Recipient m) (msg_Created m) UserKindUser] else [])"

definition system_key_free :: "message \<Rightarrow> int \<Rightarrow> db \<Rightarrow> bool" where
  "system_key_free m i d \<longleftrightarrow> (msg_Recipient m, i) \<notin> (\<lambda>m. (m_recipient m, m_id m)) ` set (messages d)"

fun system_phase :: "message \<Rightarrow> progress \<Rightarrow> message_write list \<Rightarrow> db \<Rightarrow> bool" where
  "system_phase m Begun ws d \<longleftrightarrow> ws = []"
| "system_phase m UserReady ws d \<longleftrightarrow> ws = user_write m d"
| "system_phase m (Numbered i) ws d \<longleftrightarrow> ws = user_write m d @ [MLock (msg_Recipient m) i] \<and>
     i = next_system_id (msg_Recipient m) d \<and> in_bigint i"
| "system_phase m (Stored i) ws d \<longleftrightarrow> ws = user_write m d @ [MLock (msg_Recipient m) i, MRow (system_row m i)] \<and>
     i = next_system_id (msg_Recipient m) d \<and> in_bigint i \<and> system_key_free m i d"
| "system_phase m (Finished i) ws d \<longleftrightarrow> ws = user_write m d @ [MLock (msg_Recipient m) i, MRow (system_row m i),
       MNote (NotifyChannelMessageUpdate, MessageEvent \<lparr>me_ID = i, me_Recipient = msg_Recipient m\<rparr>)] \<and>
     i = next_system_id (msg_Recipient m) d \<and> in_bigint i \<and> system_key_free m i d"
| "system_phase m p ws d \<longleftrightarrow> False"

definition next_inbox :: "int \<Rightarrow> db \<Rightarrow> bool" where
  "next_inbox i d \<longleftrightarrow> counters d sequenceInbox = Some (i - 1) \<and> in_bigint i"

definition inbox_key_free :: "inbox_message \<Rightarrow> db \<Rightarrow> bool" where
  "inbox_key_free m d \<longleftrightarrow> (ib_Recipient m, ib_UUID m) \<notin> im_key ` set (inbox d)"

fun inbox_phase :: "inbox_message \<Rightarrow> progress \<Rightarrow> message_write list \<Rightarrow> db \<Rightarrow> bool" where
  "inbox_phase m Begun ws d \<longleftrightarrow> ws = []"
| "inbox_phase m (Numbered i) ws d \<longleftrightarrow> ws = [MCounter i] \<and> next_inbox i d"
| "inbox_phase m (Checked i) ws d \<longleftrightarrow> ws = [MCounter i] \<and> next_inbox i d \<and> inbox_key_free m d"
| "inbox_phase m (Stored i) ws d \<longleftrightarrow> ws = [MCounter i, MInbox (inbox_row_of m i)] \<and> next_inbox i d \<and> inbox_key_free m d"
| "inbox_phase m (Finished i) ws d \<longleftrightarrow> ws = [MCounter i, MInbox (inbox_row_of m i),
       MNote (NotifyChannelInboxMessageUpdate, MessageEvent \<lparr>me_ID = i, me_Recipient = ib_Recipient m\<rparr>)] \<and>
     next_inbox i d \<and> inbox_key_free m d"
| "inbox_phase m p ws d \<longleftrightarrow> False"

text \<open>A change of a state, by the row it makes of the one before.\<close>

definition read_row :: "bool \<Rightarrow> int \<Rightarrow> inbox_state_row option \<Rightarrow> inbox_state_row" where
  "read_row b t st = (case st of
     None \<Rightarrow> \<lparr>ims_is_read = b, ims_hidden = False, ims_updated = t\<rparr> | Some s \<Rightarrow> s\<lparr>ims_is_read := b, ims_updated := t\<rparr>)"

definition hidden_row :: "int \<Rightarrow> inbox_state_row option \<Rightarrow> inbox_state_row" where
  "hidden_row t st = (case st of
     None \<Rightarrow> \<lparr>ims_is_read = False, ims_hidden = True, ims_updated = t\<rparr> | Some s \<Rightarrow> s\<lparr>ims_hidden := True, ims_updated := t\<rparr>)"

definition found_as :: "inbox_reader \<Rightarrow> int \<Rightarrow> string \<Rightarrow> string \<Rightarrow> db \<Rightarrow> bool" where
  "found_as reader i r cb d \<longleftrightarrow> (\<exists>m. addressed reader i d = Some m \<and> im_recipient m = r \<and> im_created_by m = cb)"

definition gone :: "int \<Rightarrow> db \<Rightarrow> bool" where
  "gone i d \<longleftrightarrow> i \<notin> im_id ` set (inbox d) \<and> i \<le> inbox_top d"

fun state_phase ::
    "inbox_reader \<Rightarrow> int \<Rightarrow> (inbox_state_row option \<Rightarrow> inbox_state_row) \<Rightarrow> progress \<Rightarrow> message_write list \<Rightarrow> db \<Rightarrow> bool" where
  "state_phase reader i f Begun ws d \<longleftrightarrow> ws = []"
| "state_phase reader i f (Found r cb) ws d \<longleftrightarrow> ws = [] \<and> (found_as reader i r cb d \<or> gone i d)"
| "state_phase reader i f (Marked r cb) ws d \<longleftrightarrow>
     ws = [MState (i, ir_Subject reader) (f (inbox_states d (i, ir_Subject reader)))] \<and> found_as reader i r cb d"
| "state_phase reader i f (Finished j) ws d \<longleftrightarrow> j = i \<and> (\<exists>r cb.
     ws = [MState (i, ir_Subject reader) (f (inbox_states d (i, ir_Subject reader))),
       MNote (NotifyChannelInboxStateUpdate, InboxStateEvent \<lparr>ise_ID = i, ise_Recipient = r, ise_Subject = ir_Subject reader, ise_CreatedBy = cb\<rparr>)] \<and>
     found_as reader i r cb d)"
| "state_phase reader i f p ws d \<longleftrightarrow> False"

fun phase_ok :: "message_call \<Rightarrow> progress \<Rightarrow> message_write list \<Rightarrow> db \<Rightarrow> bool" where
  "phase_ok (PushSystem m) = system_phase m"
| "phase_ok (PushInbox m) = inbox_phase m"
| "phase_ok (MarkRead reader i b t) = state_phase reader i (read_row b t)"
| "phase_ok (HideMessage reader i t) = state_phase reader i (hidden_row t)"

section \<open>A statement leads to the next phase\<close>

lemma users_user_write: "users (apply_messages (user_write m d) d) (msg_Recipient m) \<noteq> None"
  by (simp add: user_write_def with_user_def)

lemma user_write_frame [simp]:
  "write_locks (apply_messages (user_write m d) d) = write_locks d" "messages (apply_messages (user_write m d) d) = messages d"
  by (simp_all add: user_write_def)

lemma system_advance:
  assumes "system_phase m p ws d" "db v = apply_messages ws d" "advance (PushSystem m) p v = (Inr (p', ws'), v')"
  shows "system_phase m p' (ws @ ws') d"
  using assms
proof (cases p)
  case UserReady
  then show ?thesis using assms
    by (auto simp: bindM_Inr_iff nextMessageID_def query_simps next_system_id_def split: option.splits)
next
  case (Numbered i)
  then show ?thesis using assms by (auto simp: bindM_Inr_iff query_simps system_key_free_def)
qed (auto simp: bindM_Inr_iff query_simps user_write_def)

lemma inbox_advance:
  assumes "inbox_phase m p ws d" "db v = apply_messages ws d" "advance (PushInbox m) p v = (Inr (p', ws'), v')"
  shows "inbox_phase m p' (ws @ ws') d"
  using assms
  by (cases p) (auto simp: bindM_Inr_iff query_simps next_inbox_def inbox_key_free_def row_at_None image_iff split: option.splits)

lemma addressed_known: "addressed reader i d = Some m \<Longrightarrow> i \<in> im_id ` set (inbox d)"
  using addressed_SomeD by fastforce

lemma write_state_Inr:
  "write_state stmt i s p w = (Inr (p', ws), w') \<longleftrightarrow> stmt w = (Inr (), w') \<and> p' = p \<and>
     ws = [MState (i, s) (the (inbox_states (db w') (i, s)))]"
  by (auto simp: write_state_def catchM_def split: prod.splits sum.splits if_splits)

lemma q_SetInboxMessageRead_iff:
  "q_SetInboxMessageRead i s b t w = (Inr a, w') \<longleftrightarrow> \<not> fault w (pos w) \<and> i \<in> im_id ` set (inbox (db w)) \<and>
     w' = step_to ((db w)\<lparr>inbox_states := (inbox_states (db w))((i, s) \<mapsto> read_row b t (inbox_states (db w) (i, s)))\<rparr>) w"
  by (auto simp: q_SetInboxMessageRead_def run_stmt_Inr_iff read_row_def split: if_splits)

lemma q_HideInboxMessage_iff:
  "q_HideInboxMessage i s t w = (Inr a, w') \<longleftrightarrow> \<not> fault w (pos w) \<and> i \<in> im_id ` set (inbox (db w)) \<and>
     w' = step_to ((db w)\<lparr>inbox_states := (inbox_states (db w))((i, s) \<mapsto> hidden_row t (inbox_states (db w) (i, s)))\<rparr>) w"
  by (auto simp: q_HideInboxMessage_def run_stmt_Inr_iff hidden_row_def split: if_splits)

lemmas state_statements = write_state_Inr q_SetInboxMessageRead_iff q_HideInboxMessage_iff state_note_def notifyInboxStateUpdated_def
  bindM_Inr_iff query_simps readableInboxMessage_Inr found_as_def gone_def Let_def

lemma state_advance:
  assumes "state_phase reader i f p ws d" "db v = apply_messages ws d" "advance c p v = (Inr (p', ws'), v')"
    and "(\<exists>b t. c = MarkRead reader i b t \<and> f = read_row b t) \<or> (\<exists>t. c = HideMessage reader i t \<and> f = hidden_row t)"
  shows "state_phase reader i f p' (ws @ ws') d"
  using assms(4)
proof (elim disjE exE conjE)
  fix b t assume c: "c = MarkRead reader i b t" "f = read_row b t"
  show ?thesis using assms(1-3) unfolding c by (cases p) (auto simp: state_statements)
next
  fix t assume c: "c = HideMessage reader i t" "f = hidden_row t"
  show ?thesis using assms(1-3) unfolding c by (cases p) (auto simp: state_statements)
qed

lemma phase_advance:
  assumes "phase_ok c p ws d" "db v = apply_messages ws d" "advance c p v = (Inr (p', ws'), v')"
  shows "phase_ok c p' (ws @ ws') d"
proof (cases c)
  case (PushSystem m)
  then show ?thesis using assms system_advance by simp
next
  case (PushInbox m)
  then show ?thesis using assms inbox_advance by simp
next
  case (MarkRead reader i b t)
  then show ?thesis using assms state_advance [of reader i "read_row b t" p ws d v c p' ws' v'] by simp
next
  case (HideMessage reader i t)
  then show ?thesis using assms state_advance [of reader i "hidden_row t" p ws d v c p' ws' v'] by simp
qed

lemma advance_locks:
  assumes "advance c p v = (Inr (p', ws'), v')"
  shows "locked ws' \<subseteq> wants c p"
  using assms
  by (cases "(c, p)" rule: advance.cases)
    (auto simp: state_statements split: if_splits option.splits prod.splits)

section \<open>A finished transaction is its call run alone\<close>

lemma state_tx_total:
  assumes "\<And>n. \<not> fault w n" "addressed reader i (db w) = Some m"
  shows "\<exists>w'. SetInboxMessageRead_tx reader i b t w = (Inr (), w') \<and> db w' = set_read_effect reader m b t (db w)"
    "\<exists>w'. HideInboxMessage_tx reader i t w = (Inr (), w') \<and> db w' = hide_effect reader m t (db w)"
proof -
  have i: "im_id m = i" "i \<in> im_id ` set (inbox (db w))" using addressed_SomeD [OF assms(2)] addressed_known [OF assms(2)] by auto
  show "\<exists>w'. SetInboxMessageRead_tx reader i b t w = (Inr (), w') \<and> db w' = set_read_effect reader m b t (db w)"
    "\<exists>w'. HideInboxMessage_tx reader i t w = (Inr (), w') \<and> db w' = hide_effect reader m t (db w)"
    using assms i by (auto simp: SetInboxMessageRead_tx_def HideInboxMessage_tx_def bindM_def catchM_def readableInboxMessage_def
        q_GetInboxMessageForReader_def run_stmt_def addressed_def q_SetInboxMessageRead_def q_HideInboxMessage_def
        notifyInboxStateUpdated_def pgNotify_def q_Notify_def set_read_effect_def hide_effect_def)
qed

lemma message_body_step: "message_body c w = (Inr i, w') \<Longrightarrow> store_step (db w) (db w')"
  by (cases c) (auto simp: bindM_Inr_iff intro: store_step.intros)

lemma commit_alone:
  assumes ph: "phase_ok c (Finished i) ws d" and "inbox_ok d"
  shows "\<exists>w w'. message_body c w = (Inr (finished_id c (Finished i)), w') \<and> db w = d \<and> db w' = apply_messages ws d"
proof (cases c)
  case (PushSystem m)
  have "\<exists>w'. InsertMessage_tx m (snapshot d) = (Inr (), w')"
    by (rule InsertMessage_tx_total) (use ph PushSystem in \<open>auto simp: system_key_free_def\<close>)
  then obtain w' where w': "InsertMessage_tx m (snapshot d) = (Inr (), w')" by blast
  have "db w' = apply_messages ws d"
    using InsertMessage_tx_effect(1) [OF w'] ph PushSystem
    by (auto simp: insert_message_effect_def Let_def user_write_def with_user_def split: option.splits)
  then show ?thesis using w' PushSystem
    by (intro exI [of _ "snapshot d"] exI [of _ w']) (simp add: bindM_def finished_id_def)
next
  case (PushInbox m)
  have "i - 1 + 1 \<notin> im_id ` set (inbox d)" using assms PushInbox by (fastforce simp: inbox_ok_def next_inbox_def)
  then obtain w' where w': "InsertInboxMessage_tx m (snapshot d) = (Inr i, w')" "db w' = insert_inbox_effect m i d"
    using InsertInboxMessage_tx_total [of "snapshot d" "i - 1" m] ph PushInbox by (auto simp: next_inbox_def inbox_key_free_def)
  then show ?thesis using ph PushInbox
    by (intro exI [of _ "snapshot d"] exI [of _ w']) (simp add: finished_id_def insert_inbox_effect_def)
next
  case (MarkRead reader j b t)
  then obtain m where m: "addressed reader j d = Some m" and ws: "apply_messages ws d = set_read_effect reader m b t d"
    using ph addressed_SomeD by (fastforce simp: found_as_def set_read_effect_def read_row_def)
  moreover obtain w' where "SetInboxMessageRead_tx reader j b t (snapshot d) = (Inr (), w')" "db w' = set_read_effect reader m b t d"
    using state_tx_total(1) [of "snapshot d" reader j m b t] m by auto
  ultimately show ?thesis using MarkRead
    by (intro exI [of _ "snapshot d"] exI [of _ w']) (simp add: bindM_def finished_id_def)
next
  case (HideMessage reader j t)
  then obtain m where m: "addressed reader j d = Some m" and ws: "apply_messages ws d = hide_effect reader m t d"
    using ph addressed_SomeD by (fastforce simp: found_as_def hide_effect_def hidden_row_def)
  moreover obtain w' where "HideInboxMessage_tx reader j t (snapshot d) = (Inr (), w')" "db w' = hide_effect reader m t d"
    using state_tx_total(2) [of "snapshot d" reader j m t] m by auto
  ultimately show ?thesis using HideMessage
    by (intro exI [of _ "snapshot d"] exI [of _ w']) (simp add: bindM_def finished_id_def)
qed

section \<open>What others do leaves a transaction where it is\<close>

lemma users_grow:
  assumes "store_step d d'" "users d s = Some u"
  shows "users d' s = Some u"
  using store_step_effect [OF assms(1)]
proof (cases rule: store_effect.cases)
  case configured
  then show ?thesis using assms(2) by (simp add: config_step_def config_frame_def)
qed (use assms(2) in \<open>simp_all add: effect_defs settings_effects with_user_mono put_document_def\<close>)

lemma no_new_system_rows:
  assumes "store_step d d'" "system_ok d'" "write_locks d' (r, ''system'') = write_locks d (r, ''system'')" "m \<in> set (system_rows r d')"
  shows "m \<in> set (system_rows r d)"
  using system_step [OF store_step_effect [OF assms(1)] assms(4)] system_below_top [OF assms(2,4)] assms(3)
  by (auto simp: system_top_def)

lemma no_new_inbox_rows:
  assumes "store_step d d'" "inbox_ok d'" "counters d' sequenceInbox = counters d sequenceInbox" "m \<in> set (inbox d')"
  shows "m \<in> set (inbox d)"
  using inbox_step [OF store_step_effect [OF assms(1)] assms(4)] inbox_below_top [OF assms(2,4)] assms(3)
  by (auto simp: inbox_top_def)

lemma user_write_kept:
  assumes "store_step d d'" "untouched (locked (user_write m d)) d d'"
  shows "user_write m d' = user_write m d"
  using users_grow [OF assms(1), of "msg_Recipient m"] assms(2)
  by (cases "users d (msg_Recipient m)") (auto simp: user_write_def untouched_def)

lemma untouched_mono: "untouched L d e \<Longrightarrow> K \<subseteq> L \<Longrightarrow> untouched K d e"
  unfolding untouched_def by blast

lemma number_kept:
  assumes "untouched L d d'" "NumberL (msg_Recipient m) \<in> L"
  shows "write_locks d' (msg_Recipient m, ''system'') = write_locks d (msg_Recipient m, ''system'')"
    "next_system_id (msg_Recipient m) d' = next_system_id (msg_Recipient m) d"
  using assms by (simp_all add: untouched_def next_system_id_def)

lemma system_key_kept:
  assumes "store_step d d'" "system_ok d'" "untouched L d d'" "NumberL (msg_Recipient m) \<in> L" "system_key_free m i d"
  shows "system_key_free m i d'"
proof -
  have "x \<in> set (messages d)" if "x \<in> set (messages d')" "m_recipient x = msg_Recipient m" for x
    using no_new_system_rows [OF assms(1,2) number_kept(1) [OF assms(3,4)], of x] that by (auto simp: system_rows_def)
  then show ?thesis using assms(5) by (auto simp: system_key_free_def)
qed

lemma system_phase_step:
  assumes "store_step d d'" "system_ok d'" "untouched (locked ws) d d'" "system_phase m p ws d"
  shows "system_phase m p ws d'"
proof -
  have w: "user_write m d' = user_write m d" if "ws = user_write m d @ vs" for vs
    using that assms(3) by (intro user_write_kept [OF assms(1)]) (auto elim: untouched_mono)
  have w0: "user_write m d' = user_write m d" if "ws = user_write m d" using w [of "[]"] that by simp
  have n: "next_system_id (msg_Recipient m) d' = next_system_id (msg_Recipient m) d" if "NumberL (msg_Recipient m) \<in> locked ws"
    using number_kept(2) [OF assms(3) that] .
  have k: "system_key_free m i d'" if "NumberL (msg_Recipient m) \<in> locked ws" "system_key_free m i d" for i
    using system_key_kept [OF assms(1-3) that] .
  show ?thesis using assms(4) w w0 n k by (cases p) auto
qed

lemma inbox_phase_step:
  assumes "store_step d d'" "inbox_ok d'" "untouched (locked ws) d d'" "inbox_phase m p ws d"
  shows "inbox_phase m p ws d'"
proof -
  have c: "counters d' sequenceInbox = counters d sequenceInbox" if "CounterL \<in> locked ws"
    using assms(3) that by (simp add: untouched_def)
  have "inbox_key_free m d'" if "CounterL \<in> locked ws" "inbox_key_free m d"
    using no_new_inbox_rows [OF assms(1,2) c [OF that(1)]] that(2) by (auto simp: inbox_key_free_def)
  then show ?thesis using assms(4) c by (cases p) (auto simp: next_inbox_def)
qed

lemma addressed_iff:
  assumes "inbox_ok d"
  shows "addressed reader i d = Some m \<longleftrightarrow> m \<in> set (inbox d) \<and> im_id m = i \<and> im_recipient m \<in> set (ir_Owners reader)"
proof
  assume m: "m \<in> set (inbox d) \<and> im_id m = i \<and> im_recipient m \<in> set (ir_Owners reader)"
  then obtain x where x: "addressed reader i d = Some x" using addressed_None_iff [of reader i d] by (cases "addressed reader i d") auto
  have "x = m" using addressed_SomeD [OF x] m assms by (auto simp: inbox_ok_def distinct_map dest: inj_onD)
  with x show "addressed reader i d = Some m" by simp
qed (rule addressed_SomeD)

lemma found_kept:
  assumes "store_step d d'" "inbox_ok d" "inbox_ok d'" "found_as reader i r cb d"
  shows "found_as reader i r cb d' \<or> gone i d'"
proof -
  obtain m where m: "m \<in> set (inbox d)" "im_id m = i" "im_recipient m \<in> set (ir_Owners reader)" "im_recipient m = r" "im_created_by m = cb"
    using assms(4) by (auto simp: found_as_def addressed_iff [OF assms(2)])
  have top: "inbox_top d \<le> inbox_top d'" "i \<le> inbox_top d"
    using inbox_top_step [OF store_step_effect [OF assms(1)]] inbox_below_top [OF assms(2) m(1)] m(2) by simp_all
  show ?thesis
  proof (cases "i \<in> im_id ` set (inbox d')")
    case True
    then obtain x where x: "x \<in> set (inbox d')" "im_id x = i" by auto
    have "x \<in> set (inbox d)" using inbox_step [OF store_step_effect [OF assms(1)] x(1)] x(2) top(2) by auto
    then have "x = m" using assms(2) m(1,2) x(2) by (auto simp: inbox_ok_def distinct_map dest: inj_onD)
    then show ?thesis using x m by (auto simp: found_as_def addressed_iff [OF assms(3)])
  next
    case False
    then show ?thesis using top by (simp add: gone_def)
  qed
qed

lemma gone_kept:
  assumes "store_step d d'" "gone i d"
  shows "gone i d'"
  using inbox_top_step [OF store_step_effect [OF assms(1)]] inbox_step [OF store_step_effect [OF assms(1)]] assms(2)
  by (fastforce simp: gone_def)

lemma state_kept:
  assumes "inbox_ok d" "inbox_ok d'" "untouched L d d'" "StateL (i, ir_Subject reader) \<in> L" "found_as reader i r cb d"
  shows "found_as reader i r cb d'" "inbox_states d' (i, ir_Subject reader) = inbox_states d (i, ir_Subject reader)"
proof -
  show "inbox_states d' (i, ir_Subject reader) = inbox_states d (i, ir_Subject reader)" using assms(3,4) by (simp add: untouched_def)
  obtain m where "m \<in> set (inbox d)" "im_id m = i" "im_recipient m \<in> set (ir_Owners reader)" "im_recipient m = r" "im_created_by m = cb"
    using assms(5) by (auto simp: found_as_def addressed_iff [OF assms(1)])
  moreover from this(1,2) have "m \<in> set (inbox d')" using assms(3,4) unfolding untouched_def by blast
  ultimately show "found_as reader i r cb d'" by (auto simp: found_as_def addressed_iff [OF assms(2)])
qed

lemma state_phase_step:
  assumes "store_step d d'" "inbox_ok d" "inbox_ok d'" "untouched (locked ws) d d'" "state_phase reader i f p ws d"
  shows "state_phase reader i f p ws d'"
proof (cases p)
  case (Found r cb)
  then show ?thesis using assms(5) found_kept [OF assms(1-3)] gone_kept [OF assms(1)] by auto
next
  case (Marked r cb)
  then show ?thesis using assms(5) state_kept [OF assms(2-4)] by auto
next
  case (Finished j)
  then show ?thesis using assms(5) state_kept [OF assms(2-4)] by auto
qed (use assms(5) in auto)

lemma phase_step:
  assumes "reachable d" "store_step d d'" "untouched (locked ws) d d'" "phase_ok c p ws d"
  shows "phase_ok c p ws d'"
proof -
  have ok: "inbox_ok d" "inbox_ok d'" "system_ok d'"
    using reachable_ok [OF assms(1)] reachable_ok [OF reachable_step [OF assms(1,2)]] by (simp_all add: store_ok_def)
  show ?thesis using assms(4) system_phase_step [OF assms(2) ok(3) assms(3)] inbox_phase_step [OF assms(2) ok(2) assms(3)]
      state_phase_step [OF assms(2) ok(1,2) assms(3)] by (cases c) auto
qed

section \<open>The invariant\<close>

definition messages_ok :: "message_machine \<Rightarrow> bool" where
  "messages_ok m \<longleftrightarrow>
     reachable (mm_committed m) \<and>
     (\<forall>t x. mm_active m t = Some x \<longrightarrow> phase_ok (x_call x) (x_progress x) (x_writes x) (mm_committed m)) \<and>
     (\<forall>t t' x x'. t \<noteq> t' \<longrightarrow> mm_active m t = Some x \<longrightarrow> mm_active m t' = Some x' \<longrightarrow> locked (x_writes x) \<inter> locked (x_writes x') = {})"

lemma messages_okD:
  assumes "messages_ok m"
  shows "reachable (mm_committed m)" "inbox_ok (mm_committed m)" "system_ok (mm_committed m)"
    "mm_active m t = Some x \<Longrightarrow> phase_ok (x_call x) (x_progress x) (x_writes x) (mm_committed m)"
    "t \<noteq> t' \<Longrightarrow> mm_active m t = Some x \<Longrightarrow> mm_active m t' = Some x' \<Longrightarrow> locked (x_writes x) \<inter> locked (x_writes x') = {}"
proof -
  show r: "reachable (mm_committed m)" using assms by (simp add: messages_ok_def)
  show "inbox_ok (mm_committed m)" "system_ok (mm_committed m)" using reachable_ok [OF r] by (simp_all add: store_ok_def)
  show "mm_active m t = Some x \<Longrightarrow> phase_ok (x_call x) (x_progress x) (x_writes x) (mm_committed m)"
    "t \<noteq> t' \<Longrightarrow> mm_active m t = Some x \<Longrightarrow> mm_active m t' = Some x' \<Longrightarrow> locked (x_writes x) \<inter> locked (x_writes x') = {}"
    using assms unfolding messages_ok_def by blast+
qed

lemma messages_ok_put:
  assumes "messages_ok m" "phase_ok (x_call y) (x_progress y) (x_writes y) (mm_committed m)"
    and "\<And>t' x'. t' \<noteq> t \<Longrightarrow> mm_active m t' = Some x' \<Longrightarrow> locked (x_writes y) \<inter> locked (x_writes x') = {}"
  shows "messages_ok (put_message t y m)"
proof -
  have "locked (x_writes a) \<inter> locked (x_writes b) = {}"
    if "i \<noteq> j" "mm_active (put_message t y m) i = Some a" "mm_active (put_message t y m) j = Some b" for i j a b
    using that messages_okD(5) [OF assms(1) that(1), of a b] assms(3) [of j b] assms(3) [of i a] by (auto split: if_splits)
  then show ?thesis using assms(1,2) unfolding messages_ok_def by auto
qed

lemma messages_ok_end: "messages_ok m \<Longrightarrow> messages_ok (end_message t m)"
  unfolding messages_ok_def by auto

lemma messages_ok_committed:
  assumes "messages_ok m" "store_step (mm_committed m) d"
    and "\<And>t x. mm_active m t = Some x \<Longrightarrow> untouched (locked (x_writes x)) (mm_committed m) d"
  shows "messages_ok (m\<lparr>mm_committed := d\<rparr>)"
  using assms(1) phase_step [OF messages_okD(1) [OF assms(1)] assms(2,3) messages_okD(4) [OF assms(1)]]
    reachable_step [OF messages_okD(1) [OF assms(1)] assms(2)]
  unfolding messages_ok_def by auto

lemma message_commit:
  assumes "messages_ok m" "mm_active m t = Some x" "x_progress x = Finished i"
  shows "\<exists>w w'. message_body (x_call x) w = (Inr (finished_id (x_call x) (Finished i)), w') \<and>
    db w = mm_committed m \<and> db w' = message_view m x"
  unfolding message_view_def
  by (rule commit_alone [OF _ messages_okD(2) [OF assms(1)]]) (use messages_okD(4) [OF assms(1,2)] assms(3) in simp)

lemma message_commit_step:
  "messages_ok m \<Longrightarrow> mm_active m t = Some x \<Longrightarrow> x_progress x = Finished i \<Longrightarrow> store_step (mm_committed m) (message_view m x)"
  using message_commit message_body_step by metis

lemma messages_ok_step:
  assumes "message_step m m'" "messages_ok m"
  shows "messages_ok m'"
  using assms(1)
proof (cases rule: message_step.cases)
  case (began t c)
  show ?thesis unfolding began(1) by (rule messages_ok_put [OF assms(2)]) (cases c; simp)+
next
  case (ran t x v p ws v')
  have "phase_ok (x_call x) p (x_writes x @ ws) (mm_committed m)"
    by (rule phase_advance [OF messages_okD(4) [OF assms(2) ran(2)] _ ran(5)]) (simp add: ran(4) message_view_def)
  moreover have "locked (x_writes x @ ws) \<inter> locked (x_writes x') = {}" if "t' \<noteq> t" "mm_active m t' = Some x'" for t' x'
  proof -
    have "wants (x_call x) (x_progress x) \<inter> locked (x_writes x') = {}" using ran(3) that unfolding message_waits_def by blast
    then show ?thesis using messages_okD(5) [OF assms(2) that(1) that(2) ran(2)] advance_locks [OF ran(5)] by auto
  qed
  ultimately show ?thesis unfolding ran(1) by (intro messages_ok_put [OF assms(2)]) simp_all
next
  case (finished t x i)
  have "untouched (locked (x_writes x')) (mm_committed m) (message_view m x)" if "mm_active (end_message t m) t' = Some x'" for t' x'
  proof -
    have "t \<noteq> t'" "mm_active m t' = Some x'" using that by (auto split: if_splits)
    then show ?thesis unfolding message_view_def using messages_okD(5) [OF assms(2) _ finished(2)] by (intro untouched_writes) blast
  qed
  then show ?thesis
    unfolding finished(1) using message_commit_step [OF assms(2) finished(2,3)] messages_ok_end [OF assms(2)]
    by (intro messages_ok_committed) simp_all
next
  case (aborted t x)
  then show ?thesis using messages_ok_end [OF assms(2)] by simp
next
  case (elsewhere d)
  then show ?thesis using messages_ok_committed [OF assms(2)] by simp
qed

lemma message_step_atomic:
  assumes "message_step m m'" "messages_ok m"
  shows "mm_committed m' = mm_committed m \<or> store_step (mm_committed m) (mm_committed m')"
  using assms(1)
proof (cases rule: message_step.cases)
  case (finished t x i)
  then show ?thesis using message_commit_step [OF assms(2) finished(2,3)] by simp
qed simp_all

definition idle_messages :: message_machine where
  "idle_messages = \<lparr>mm_committed = empty_db, mm_active = Map.empty\<rparr>"

definition messages_reachable :: "message_machine \<Rightarrow> bool" where
  "messages_reachable m \<longleftrightarrow> message_step\<^sup>*\<^sup>* idle_messages m"

lemma messages_reachable_ok: "messages_reachable m \<Longrightarrow> messages_ok m"
  unfolding messages_reachable_def
proof (induction rule: rtranclp_induct)
  case base
  then show ?case by (simp add: messages_ok_def idle_messages_def reachable_empty)
qed (rule messages_ok_step)

interpretation interleaved_inbox: commit_ordered_stream
  "\<lambda>m. page_after im_id (inbox_rows reader (mm_committed m))" im_id "\<lambda>m. inbox_rows reader (mm_committed m)"
  messages_ok message_step "\<lambda>m. inbox_top (mm_committed m)" for reader
  by (rule inbox_tail.lifted) (use messages_okD(2) messages_ok_step message_step_atomic in \<open>blast+\<close>)

interpretation interleaved_system: commit_ordered_stream
  "\<lambda>m. page_after m_id (system_rows r (mm_committed m))" m_id "\<lambda>m. system_rows r (mm_committed m)"
  messages_ok message_step "\<lambda>m. system_top r (mm_committed m)" for r
  by (rule system_tail.lifted) (use messages_okD(3) messages_ok_step message_step_atomic in \<open>blast+\<close>)

section \<open>Progress\<close>

text \<open>Only a push of a system message holds a lock when it waits, and what it then waits for is held by one that does not.\<close>

lemma holds_waits:
  assumes "phase_ok c p ws d" "locked ws \<noteq> {}" "wants c p \<noteq> {}"
  shows "\<exists>m. c = PushSystem m \<and> p = UserReady"
  using assms by (cases "(c, p)" rule: wants.cases) auto

lemma holds_number:
  assumes "phase_ok c p ws d" "NumberL r \<in> locked ws"
  shows "wants c p = {}"
  using assms by (cases "(c, p)" rule: wants.cases) (auto simp: user_write_def split: if_splits)

lemma some_not_waiting:
  assumes "messages_ok m" "mm_active m t = Some x"
  shows "\<exists>t x. mm_active m t = Some x \<and> \<not> message_waits m t x"
proof (rule ccontr)
  assume none: "\<nexists>t x. mm_active m t = Some x \<and> \<not> message_waits m t x"
  obtain t1 x1 where 1: "mm_active m t1 = Some x1" "locked (x_writes x1) \<noteq> {}"
    using none assms(2) unfolding message_waits_def by blast
  obtain t2 x2 where 2: "mm_active m t2 = Some x2" "wants (x_call x1) (x_progress x1) \<inter> locked (x_writes x2) \<noteq> {}"
    using none 1(1) unfolding message_waits_def by blast
  obtain s where s: "x_call x1 = PushSystem s" "x_progress x1 = UserReady"
    using holds_waits [OF messages_okD(4) [OF assms(1) 1(1)] 1(2)] 2(2) by blast
  then have "NumberL (msg_Recipient s) \<in> locked (x_writes x2)" using 2(2) by simp
  then have "wants (x_call x2) (x_progress x2) = {}" by (rule holds_number [OF messages_okD(4) [OF assms(1) 2(1)]])
  then have "\<not> message_waits m t2 x2" by (simp add: message_waits_def)
  with none 2(1) show False by blast
qed

text \<open>How far a transaction still has to go.\<close>

fun steps_left :: "progress \<Rightarrow> nat" where
  "steps_left Begun = 5"
| "steps_left UserReady = 4"
| "steps_left (Numbered i) = 3"
| "steps_left (Checked i) = 2"
| "steps_left (Stored i) = 1"
| "steps_left (Found r cb) = 2"
| "steps_left (Marked r cb) = 1"
| "steps_left (Finished i) = 0"

lemma advance_less: "advance c p v = (Inr (p', ws), v') \<Longrightarrow> steps_left p' < steps_left p"
  by (cases "(c, p)" rule: advance.cases) (auto simp: state_statements split: if_splits option.splits prod.splits)

definition message_advances :: "message_machine \<Rightarrow> nat \<Rightarrow> message_tx \<Rightarrow> bool" where
  "message_advances m t x \<longleftrightarrow>
     (\<exists>y. message_step m (put_message t y m) \<and> steps_left (x_progress y) < steps_left (x_progress x)) \<or>
     message_step m ((end_message t m)\<lparr>mm_committed := message_view m x\<rparr>)"

lemma message_advances:
  assumes "mm_active m t = Some x" "\<not> message_waits m t x"
  shows "message_advances m t x \<or> (\<exists>e. fst (advance (x_call x) (x_progress x) (snapshot (message_view m x))) = Inl e)"
proof (cases "\<exists>i. x_progress x = Finished i")
  case True
  then show ?thesis using message_step.finished [OF assms(1)] by (auto simp: message_advances_def)
next
  case False
  let ?r = "advance (x_call x) (x_progress x) (snapshot (message_view m x))"
  show ?thesis
  proof (cases "fst ?r")
    case (Inr a)
    then obtain p ws v' where r: "?r = (Inr (p, ws), v')" by (cases ?r; cases a) auto
    have "message_step m (put_message t (x\<lparr>x_progress := p, x_writes := x_writes x @ ws\<rparr>) m)"
      by (rule message_step.ran [OF assms _ r]) simp
    moreover have "steps_left (x_progress (x\<lparr>x_progress := p, x_writes := x_writes x @ ws\<rparr>)) < steps_left (x_progress x)"
      using advance_less [OF r] by simp
    ultimately show ?thesis unfolding message_advances_def by blast
  qed auto
qed

end
