(* ===== verification/Message_Interleaving_Props.thy ===== *)
theory Message_Interleaving_Props
  imports Message_Interleaving Polling
begin

text \<open>
  The properties of message transactions that interleave: commits are atomic, a reader that tails the inbox
  misses nothing, and no two of them block each other for good.
\<close>

section \<open>A run for the witnesses\<close>

lemma put_put_message [simp]: "put_message t y (put_message t x m) = put_message t y m"
  by (simp add: put_message_def)

definition sample_push_tx :: "progress \<Rightarrow> message_write list \<Rightarrow> message_tx" where
  "sample_push_tx p ws = \<lparr>x_call = PushInbox sample_message, x_progress = p, x_writes = ws\<rparr>"

abbreviation push_machine :: "progress \<Rightarrow> message_write list \<Rightarrow> message_machine" where
  "push_machine p ws \<equiv> put_message 0 (sample_push_tx p ws) idle_messages"

lemma push_advances:
  assumes "advance (PushInbox sample_message) p (snapshot (apply_messages ws empty_db)) = (Inr (p', vs), v')" "us = ws @ vs"
  shows "message_step (push_machine p ws) (push_machine p' us)"
proof -
  have "message_step (push_machine p ws) (put_message 0 ((sample_push_tx p ws)\<lparr>x_progress := p', x_writes := ws @ vs\<rparr>) (push_machine p ws))"
    using message_step.ran [of "push_machine p ws" 0 "sample_push_tx p ws" "snapshot (apply_messages ws empty_db)" p' vs v'] assms
    by (auto simp: message_view_def sample_push_tx_def message_waits_def idle_messages_def)
  then show ?thesis by (simp add: sample_push_tx_def assms(2))
qed

definition sample_note :: message_write where
  "sample_note = MNote (NotifyChannelInboxMessageUpdate, MessageEvent \<lparr>me_ID = 1, me_Recipient = ib_Recipient sample_message\<rparr>)"

lemma push_run: "message_step\<^sup>*\<^sup>* idle_messages (push_machine (Finished 1) [MCounter 1, MInbox (inbox_row_of sample_message 1), sample_note])"
proof -
  have big: "in_bigint 1" by (simp add: in_bigint_def min_bigint_def max_bigint_def)
  have "message_step idle_messages (push_machine Begun [])"
    using message_step.began [of idle_messages 0 "PushInbox sample_message"] by (simp add: sample_push_tx_def idle_messages_def)
  moreover have "message_step (push_machine Begun []) (push_machine (Numbered 1) [MCounter 1])"
    by (rule push_advances) (simp_all add: bindM_def q_ReserveSequenceValues_def run_stmt_def empty_db_def sequenceInbox_def big)
  moreover have "message_step (push_machine (Numbered 1) [MCounter 1]) (push_machine (Checked 1) [MCounter 1])"
    by (rule push_advances) (simp_all add: bindM_def existingInboxMessage_def catchM_def q_GetInboxMessageByUUID_def run_stmt_def
        empty_db_def row_at_def)
  moreover have "message_step (push_machine (Checked 1) [MCounter 1]) (push_machine (Stored 1) [MCounter 1, MInbox (inbox_row_of sample_message 1)])"
    by (rule push_advances) (simp_all add: bindM_def q_InsertInboxMessage_def run_stmt_def empty_db_def)
  moreover have "message_step (push_machine (Stored 1) [MCounter 1, MInbox (inbox_row_of sample_message 1)])
      (push_machine (Finished 1) [MCounter 1, MInbox (inbox_row_of sample_message 1), sample_note])"
    by (rule push_advances) (simp_all add: bindM_def notifyInboxMessageUpdated_def pgNotify_def q_Notify_def run_stmt_def sample_note_def)
  ultimately show ?thesis by (meson rtranclp.rtrancl_into_rtrancl rtranclp.rtrancl_refl)
qed

section \<open>Commits are atomic\<close>

text \<open>C11: however the statements of message transactions interleave with each other, with the sweeps and with the rest of
  the service, what has been committed is a reachable database, every step leaves it alone or is one step
  of the store, and a transaction that finishes has the effect of its call run alone at that moment, a push
  with the id it has reserved.\<close>

theorem message_commits_atomic:
  assumes "message_step\<^sup>*\<^sup>* idle_messages m"
  shows "reachable (mm_committed m) \<and>
    (\<forall>m'. message_step m m' \<longrightarrow> mm_committed m' = mm_committed m \<or> store_step (mm_committed m) (mm_committed m')) \<and>
    (\<forall>t x i. mm_active m t = Some x \<longrightarrow> x_progress x = Finished i \<longrightarrow>
       (\<exists>w w'. message_body (x_call x) w = (Inr (finished_id (x_call x) (Finished i)), w') \<and>
          db w = mm_committed m \<and> db w' = apply_messages (x_writes x) (mm_committed m)))"
proof -
  have ok: "messages_ok m" using assms messages_reachable_ok by (simp add: messages_reachable_def)
  show ?thesis
    using messages_okD(1) [OF ok] message_step_atomic [OF _ ok] message_commit [OF ok] unfolding message_view_def by blast
qed

theorem message_commits_atomic_witness:
  "\<exists>w w'. message_body (PushInbox sample_message) w = (Inr 1, w') \<and> db w = empty_db \<and>
     db w' = apply_messages [MCounter 1, MInbox (inbox_row_of sample_message 1), sample_note] empty_db"
proof -
  let ?ws = "[MCounter 1, MInbox (inbox_row_of sample_message 1), sample_note]"
  have "\<exists>w w'. message_body (x_call (sample_push_tx (Finished 1) ?ws)) w =
      (Inr (finished_id (x_call (sample_push_tx (Finished 1) ?ws)) (Finished 1)), w') \<and>
      db w = mm_committed (push_machine (Finished 1) ?ws) \<and>
      db w' = apply_messages (x_writes (sample_push_tx (Finished 1) ?ws)) (mm_committed (push_machine (Finished 1) ?ws))"
    by (rule conjunct2 [OF conjunct2 [OF message_commits_atomic [OF push_run]], rule_format, of 0]) (simp_all add: sample_push_tx_def)
  then show ?thesis by (simp add: sample_push_tx_def finished_id_def idle_messages_def)
qed

section \<open>Tailing the inbox\<close>

text \<open>C5: a reader that tails the inbox while message transactions interleave, each push reserving its id some
  statements before it commits, misses nothing and sees nothing twice: every message readable at the end with
  an id past the start and up to the final cursor was delivered, in strictly ascending order.\<close>

theorem tail_inbox_interleaved:
  assumes "message_step\<^sup>*\<^sup>* idle_messages m" "run_of message_step m ms" "ms \<noteq> []" "0 < n" "after \<le> inbox_top (mm_committed m)"
    and "tail_polls (\<lambda>m. inbox_fetch reader n (mm_committed m)) ib_ID after ms = (ds, c)"
  shows "sorted_wrt (<) (map ib_ID ds) \<and>
    (\<forall>x \<in> set (inbox_view reader (mm_committed (last ms))). after < ib_ID x \<and> ib_ID x \<le> c \<longrightarrow> ib_ID x \<in> ib_ID ` set ds)"
proof -
  have ok: "messages_ok m" using assms(1) messages_reachable_ok by (simp add: messages_reachable_def)
  note tail = interleaved_inbox.tail_view [OF assms(2,3) ok assms(4,5) inbox_fetch_ids [OF assms(4)] assms(6)]
  have "ib_ID x \<in> ib_ID ` set ds"
    if x: "x \<in> set (inbox_view reader (mm_committed (last ms)))" "after < ib_ID x" "ib_ID x \<le> c" for x
  proof -
    obtain y where "y \<in> set (inbox_rows reader (mm_committed (last ms)))" "im_id y = ib_ID x"
      using x(1) view_ids [of reader "mm_committed (last ms)"] by (metis image_iff)
    then show ?thesis using conjunct2 [OF tail] x by metis
  qed
  then show ?thesis using conjunct1 [OF tail] by blast
qed

lemma push_committed:
  "message_step\<^sup>*\<^sup>* idle_messages (idle_messages\<lparr>mm_committed := db pushed\<rparr>)"
proof -
  let ?m = "push_machine (Finished 1) [MCounter 1, MInbox (inbox_row_of sample_message 1), sample_note]"
  have "message_step ?m ((end_message 0 ?m)\<lparr>mm_committed := message_view ?m (sample_push_tx (Finished 1)
      [MCounter 1, MInbox (inbox_row_of sample_message 1), sample_note])\<rparr>)"
    by (rule message_step.finished [where i = 1]) (simp_all add: sample_push_tx_def)
  moreover have "(end_message 0 ?m)\<lparr>mm_committed := message_view ?m (sample_push_tx (Finished 1)
      [MCounter 1, MInbox (inbox_row_of sample_message 1), sample_note])\<rparr> = idle_messages\<lparr>mm_committed := db pushed\<rparr>"
    by (simp add: end_message_def put_message_def idle_messages_def message_view_def sample_push_tx_def db_pushed insert_inbox_effect_def
        sample_note_def fun_eq_iff)
  ultimately show ?thesis using push_run by (metis rtranclp.rtrancl_into_rtrancl)
qed

theorem tail_inbox_interleaved_witness:
  "\<exists>(m :: message_machine) ds. mm_committed m = db pushed \<and>
     tail_polls (\<lambda>m. inbox_fetch (inboxReader sample_user) 5 (mm_committed m)) ib_ID 0 [m] = (ds, 1) \<and>
     (\<forall>x \<in> set (inbox_view (inboxReader sample_user) (db pushed)). 0 < ib_ID x \<and> ib_ID x \<le> 1 \<longrightarrow> ib_ID x \<in> ib_ID ` set ds)"
proof -
  let ?m = "idle_messages\<lparr>mm_committed := db pushed\<rparr>"
  have run: "run_of message_step idle_messages [?m]" using push_committed by simp
  have t: "tail_polls (\<lambda>m. inbox_fetch (inboxReader sample_user) 5 (mm_committed m)) ib_ID 0 [?m] = ([sample_message\<lparr>ib_ID := 1\<rparr>], 1)"
    by (simp add: sample_fetch)
  have "\<forall>x \<in> set (inbox_view (inboxReader sample_user) (mm_committed (last [?m]))). 0 < ib_ID x \<and> ib_ID x \<le> 1 \<longrightarrow>
      ib_ID x \<in> ib_ID ` set [sample_message\<lparr>ib_ID := 1\<rparr>]"
    using tail_inbox_interleaved [OF rtranclp.rtrancl_refl run _ _ _ t]
    by (simp add: inbox_top_def idle_messages_def empty_db_def sequenceInbox_def)
  then show ?thesis using t by (intro exI [of _ ?m] exI [of _ "[sample_message\<lparr>ib_ID := 1\<rparr>]"]) simp
qed

text \<open>
  The sweep may remove a message between the lookup and the write of its state: then the foreign key refuses the
  write, and the call answers that the message is not there, as for one it could never read.
\<close>

lemma swept_message_not_found:
  assumes "message_step\<^sup>*\<^sup>* idle_messages m" "mm_active m t = Some x" "x_progress x = Found r cb"
    and "x_call x = MarkRead reader i b tm \<or> x_call x = HideMessage reader i tm" "i \<notin> im_id ` set (inbox (mm_committed m))"
  shows "fst (advance (x_call x) (x_progress x) (snapshot (message_view m x))) = Inl ErrInboxMessageNotFound"
proof -
  have ok: "messages_ok m" using assms(1) messages_reachable_ok by (simp add: messages_reachable_def)
  have "x_writes x = []" using messages_okD(4) [OF ok assms(2)] assms(3,4) by auto
  then show ?thesis using assms(3-5)
    by (auto simp: message_view_def write_state_def catchM_def q_SetInboxMessageRead_def q_HideInboxMessage_def run_stmt_def)
qed

section \<open>Writers do not deadlock\<close>

text \<open>While message transactions are active, one of them can take its next statement or commit, each of which leaves
  less to do, unless the database refuses the statement, so that the code rolls back: pushes to the inbox take the
  counter first and changes of a read state lock one row, so only a push of a system message waits with a lock in hand, and
  not for a transaction that waits itself.\<close>

theorem message_writers_never_deadlock:
  assumes "message_step\<^sup>*\<^sup>* idle_messages m" "mm_active m t0 = Some x0"
  shows "\<exists>t x. mm_active m t = Some x \<and> (message_advances m t x \<or>
    (\<exists>e. fst (advance (x_call x) (x_progress x) (snapshot (message_view m x))) = Inl e))"
proof -
  have ok: "messages_ok m" using assms(1) messages_reachable_ok by (simp add: messages_reachable_def)
  obtain t x where t: "mm_active m t = Some x" "\<not> message_waits m t x" using some_not_waiting [OF ok assms(2)] by blast
  show ?thesis using message_advances [OF t] t(1) by blast
qed

theorem message_writers_never_deadlock_witness:
  "message_advances (push_machine Begun []) 0 (sample_push_tx Begun [])"
proof -
  have "message_step idle_messages (push_machine Begun [])"
    using message_step.began [of idle_messages 0 "PushInbox sample_message"] by (simp add: sample_push_tx_def idle_messages_def)
  then have reach: "message_step\<^sup>*\<^sup>* idle_messages (push_machine Begun [])" by (rule r_into_rtranclp)
  have "mm_active (push_machine Begun []) 0 = Some (sample_push_tx Begun [])" by simp
  from message_writers_never_deadlock [OF reach this]
  obtain t x where x: "mm_active (push_machine Begun []) t = Some x"
    "message_advances (push_machine Begun []) t x \<or>
     (\<exists>e. fst (advance (x_call x) (x_progress x) (snapshot (message_view (push_machine Begun []) x))) = Inl e)" by blast
  then have "t = 0" "x = sample_push_tx Begun []" by (auto simp: idle_messages_def split: if_splits)
  then show ?thesis using x(2)
    by (auto simp: sample_push_tx_def message_view_def idle_messages_def bindM_def q_ReserveSequenceValues_def run_stmt_def empty_db_def
        sequenceInbox_def in_bigint_def min_bigint_def max_bigint_def)
qed

end
