(* ===== verification/Config_Statements.thy ===== *)
theory Config_Statements
  imports Config_Facts
begin

text \<open>
  The configuration transactions of \<open>internal/config_store.go\<close> taken apart into their statements:
  \<open>registerConfigGeneration\<close>, \<open>activateGenerationTx\<close> and \<open>UpdateDeprecation\<close>. \<open>config_advance\<close> is the next
  statement of a call and what it adds to the changes the transaction has made; run one after the other they
  are the transaction bodies of the code (\<open>config_body_statements\<close>). The update that deactivates the
  active generation comes in two parts, as PostgreSQL runs it: it finds its rows, and changes those of them
  that are still active once it has their locks.
\<close>

section \<open>Progress\<close>

datatype config_call =
    RegisterGeneration string "config_schema list" bool string
  | ActivateGeneration int
  | SetDeprecation string bool

datatype config_progress =
    Ensuring "config_schema list"
  | Storing config_schema "json option" "config_schema list"
  | Hashing
  | Inserting
  | Linking generation_row nat "config_schema list"
  | Fetching
  | Deactivating int
  | Sweeping int "int set"
  | Activating int
  | Announcing int
  | Labelling
  | LabelNoting
  | Registered int

fun ensuring :: "config_schema list \<Rightarrow> config_progress" where
  "ensuring [] = Hashing"
| "ensuring (s # ss) = Ensuring (s # ss)"

definition deciding :: "bool \<Rightarrow> generation_row \<Rightarrow> config_progress" where
  "deciding activate row = (if activate \<and> \<not> cg_active row then Deactivating (cg_id row) else Registered (cg_id row))"

fun linking :: "bool \<Rightarrow> generation_row \<Rightarrow> nat \<Rightarrow> config_schema list \<Rightarrow> config_progress" where
  "linking activate row k [] = deciding activate row"
| "linking activate row k (s # ss) = Linking row k (s # ss)"

fun config_start :: "config_call \<Rightarrow> config_progress" where
  "config_start (RegisterGeneration description ss activate h) = ensuring ss"
| "config_start (ActivateGeneration i) = Fetching"
| "config_start (SetDeprecation label enforced) = Labelling"

section \<open>The changes of a transaction\<close>

record config_delta =
  dl_schemas :: "schema_row list"
  dl_gen :: "generation_row option"
  dl_refs :: "generation_schema_row list"
  dl_off :: "int set"
  dl_on :: "(int \<times> int) option"
  dl_dep :: "(string \<times> bool) option"
  dl_notes :: "(notify_channel \<times> event) list"

definition no_change :: config_delta where
  "no_change = \<lparr>dl_schemas = [], dl_gen = None, dl_refs = [], dl_off = {}, dl_on = None, dl_dep = None, dl_notes = []\<rparr>"

definition switched :: "config_delta \<Rightarrow> generation_row \<Rightarrow> generation_row" where
  "switched \<delta> g =
     (let g1 = (if cg_id g \<in> dl_off \<delta> then g\<lparr>cg_active := False\<rparr> else g)
      in case dl_on \<delta> of
           None \<Rightarrow> g1
         | Some (i, now) \<Rightarrow> if cg_id g = i then g1\<lparr>cg_active := True, cg_activated_at := Some now\<rparr> else g1)"

definition apply_delta :: "config_delta \<Rightarrow> db \<Rightarrow> db" where
  "apply_delta \<delta> d = d\<lparr>schemas := schemas d @ dl_schemas \<delta>,
     generations := map (switched \<delta>) (generations d @ (case dl_gen \<delta> of None \<Rightarrow> [] | Some g \<Rightarrow> [g])),
     generation_schemas := generation_schemas d @ dl_refs \<delta>,
     deprecations := (case dl_dep \<delta> of None \<Rightarrow> deprecations d
        | Some (label, enforced) \<Rightarrow> put_row dep_label \<lparr>dep_label = label, dep_enforced = enforced\<rparr> (deprecations d)),
     outbox := outbox d @ dl_notes \<delta>\<rparr>"

section \<open>Statements\<close>

type_synonym config_statement = "(config_progress \<times> (config_delta \<Rightarrow> config_delta)) query"

definition ensure_lookup :: "(rat \<Rightarrow> rat) \<Rightarrow> config_schema \<Rightarrow> config_schema list \<Rightarrow> config_statement" where
  "ensure_lookup f64 s rest =
     catchM (q_GetSchema (sc_Name s) (sc_Version s)) (\<lambda>r.
       case r of
         Inl e \<Rightarrow>
           if e = ErrNoRows then
             (case sc_Spec s of None \<Rightarrow> failM ErrSchemaSpecMissing | Some spec \<Rightarrow> returnM (Storing s spec rest, id))
           else failM e
       | Inr stored \<Rightarrow>
           if ds_usage stored \<noteq> sc_Usage s then failM ErrSchemaMismatch
           else (case sc_Spec s of
              None \<Rightarrow> returnM (ensuring rest, id)
            | Some spec \<Rightarrow>
                (case jsonEqual f64 spec (Some (ds_spec stored)) of
                   None \<Rightarrow> failM ErrBadJson
                 | Some match \<Rightarrow> if match then returnM (ensuring rest, id) else failM ErrSchemaMismatch)))"

definition new_schemas :: "config_schema \<Rightarrow> json option \<Rightarrow> db \<Rightarrow> schema_row list" where
  "new_schemas s spec d =
     (if row_at schema_key (sc_Name s, sc_Version s) (schemas d) \<noteq> None then []
      else case spec of None \<Rightarrow> []
        | Some j \<Rightarrow> [\<lparr>ds_name = sc_Name s, ds_version = sc_Version s, ds_spec = jsonb_norm j, ds_usage = sc_Usage s\<rparr>])"

definition ensure_store :: "config_schema \<Rightarrow> json option \<Rightarrow> config_schema list \<Rightarrow> config_statement" where
  "ensure_store s spec rest = (\<lambda>w.
     bindM (q_EnsureSchema (sc_Name s) (sc_Version s) spec (sc_Usage s)) (\<lambda>_.
     returnM (ensuring rest, \<lambda>\<delta>. \<delta>\<lparr>dl_schemas := dl_schemas \<delta> @ new_schemas s spec (db w)\<rparr>)) w)"

definition still_active :: "int set \<Rightarrow> db \<Rightarrow> int set" where
  "still_active S d = cg_id ` {g \<in> set (generations d). cg_active g \<and> cg_id g \<in> S}"

text \<open>The two parts of \<open>DeactivateActiveConfigGeneration\<close>.\<close>

definition deactivate_find :: "int \<Rightarrow> config_statement" where
  "deactivate_find i = (\<lambda>w. returnM (Sweeping i (cg_id ` {g \<in> set (generations (db w)). cg_active g \<and> cg_id g \<noteq> i}), id) w)"

definition deactivate_change :: "int \<Rightarrow> int set \<Rightarrow> config_statement" where
  "deactivate_change i S = (\<lambda>w.
     bindM (run_stmt (\<lambda>w. Inr ((), (db w)\<lparr>generations :=
         map (\<lambda>g. if cg_active g \<and> cg_id g \<in> S then g\<lparr>cg_active := False\<rparr> else g) (generations (db w))\<rparr>))) (\<lambda>_.
     returnM (Activating i, \<lambda>\<delta>. \<delta>\<lparr>dl_off := dl_off \<delta> \<union> still_active S (db w)\<rparr>)) w)"

fun config_advance :: "(rat \<Rightarrow> rat) \<Rightarrow> config_call \<Rightarrow> config_progress \<Rightarrow> config_statement" where
  "config_advance f64 (RegisterGeneration description ss activate h) (Ensuring (s # rest)) = ensure_lookup f64 s rest"
| "config_advance f64 (RegisterGeneration description ss activate h) (Storing s spec rest) = ensure_store s spec rest"
| "config_advance f64 (RegisterGeneration description ss activate h) Hashing =
     catchM (q_GetConfigGenerationByIdentityHash h) (\<lambda>r.
       case r of
         Inl e \<Rightarrow> if e = ErrNoRows then returnM (Inserting, id) else failM e
       | Inr row \<Rightarrow> returnM (deciding activate row, id))"
| "config_advance f64 (RegisterGeneration description ss activate h) Inserting =
     bindM (q_InsertConfigGeneration h description) (\<lambda>row.
     returnM (linking activate row 0 ss, \<lambda>\<delta>. \<delta>\<lparr>dl_gen := Some row\<rparr>))"
| "config_advance f64 (RegisterGeneration description ss activate h) (Linking row k (s # rest)) =
     (let r = \<lparr>cgs_generation_id = cg_id row, cgs_name = sc_Name s, cgs_version = sc_Version s, cgs_ordinal = int32 k\<rparr>
      in bindM (q_InsertConfigGenerationSchema r) (\<lambda>_.
         returnM (linking activate row (Suc k) rest, \<lambda>\<delta>. \<delta>\<lparr>dl_refs := dl_refs \<delta> @ [r]\<rparr>)))"
| "config_advance f64 (ActivateGeneration i) Fetching =
     catchM (q_GetConfigGeneration i) (\<lambda>r.
       case r of
         Inl e \<Rightarrow> failM (if e = ErrNoRows then ErrGenerationNotFound else e)
       | Inr gen \<Rightarrow> returnM (if \<not> cg_active gen then Deactivating i else Registered i, id))"
| "config_advance f64 (SetDeprecation label enforced) Labelling =
     bindM (q_UpsertDeprecation label enforced) (\<lambda>_.
     returnM (LabelNoting, \<lambda>\<delta>. \<delta>\<lparr>dl_dep := Some (label, enforced)\<rparr>))"
| "config_advance f64 (SetDeprecation label enforced) LabelNoting =
     bindM (pgNotify NotifyChannelDeprecationUpdate (DeprecationEvent label)) (\<lambda>_.
     returnM (Registered 0, \<lambda>\<delta>. \<delta>\<lparr>dl_notes := dl_notes \<delta> @ [(NotifyChannelDeprecationUpdate, DeprecationEvent label)]\<rparr>))"
| "config_advance f64 c (Deactivating i) = deactivate_find i"
| "config_advance f64 c (Sweeping i S) = deactivate_change i S"
| "config_advance f64 c (Activating i) = (\<lambda>w.
     bindM (q_ActivateConfigGeneration i) (\<lambda>_.
     returnM (Announcing i, \<lambda>\<delta>. \<delta>\<lparr>dl_on := Some (i, sql_now w)\<rparr>)) w)"
| "config_advance f64 c (Announcing i) =
     bindM (notifySchemasUpdated ''activated'') (\<lambda>_.
     returnM (Registered i, \<lambda>\<delta>. \<delta>\<lparr>dl_notes := dl_notes \<delta> @ [(NotifyChannelSchemaUpdate, SchemaEvent ''activated'')]\<rparr>))"
| "config_advance f64 c p = failM ErrNoRows"

section \<open>The transaction bodies are their statements in turn\<close>

fun config_drive :: "nat \<Rightarrow> (rat \<Rightarrow> rat) \<Rightarrow> config_call \<Rightarrow> config_progress \<Rightarrow> int query" where
  "config_drive 0 f64 c p = failM ErrNoRows"
| "config_drive (Suc k) f64 c p =
     (case p of Registered i \<Rightarrow> returnM i | _ \<Rightarrow> bindM (config_advance f64 c p) (\<lambda>(p1, f). config_drive k f64 c p1))"

text \<open>How many statements a transaction can still have, and one.\<close>

fun config_left :: "config_call \<Rightarrow> config_progress \<Rightarrow> nat" where
  "config_left (RegisterGeneration description ss activate h) (Ensuring rest) = 2 * length rest + length ss + 7"
| "config_left (RegisterGeneration description ss activate h) (Storing s spec rest) = 2 * length rest + length ss + 8"
| "config_left (RegisterGeneration description ss activate h) Hashing = length ss + 7"
| "config_left (RegisterGeneration description ss activate h) Inserting = length ss + 6"
| "config_left c (Linking row k rest) = length rest + 5"
| "config_left c Fetching = 6"
| "config_left c (Deactivating i) = 5"
| "config_left c (Sweeping i S) = 4"
| "config_left c (Activating i) = 3"
| "config_left c (Announcing i) = 2"
| "config_left c Labelling = 3"
| "config_left c LabelNoting = 2"
| "config_left c p = 1"

fun config_body :: "(rat \<Rightarrow> rat) \<Rightarrow> config_call \<Rightarrow> int query" where
  "config_body f64 (RegisterGeneration description ss activate h) = registerConfigGeneration_tx f64 description ss activate h"
| "config_body f64 (ActivateGeneration i) = bindM (activateGeneration_tx i) (\<lambda>_. returnM i)"
| "config_body f64 (SetDeprecation label enforced) = bindM (UpdateDeprecation_tx label enforced) (\<lambda>_. returnM 0)"

definition config_rest :: "(rat \<Rightarrow> rat) \<Rightarrow> config_call \<Rightarrow> config_progress \<Rightarrow> int query" where
  "config_rest f64 c p = config_drive (config_left c p) f64 c p"

lemma catchM_Inr_iff:
  "catchM q (\<lambda>r. case r of Inl e \<Rightarrow> F e | Inr x \<Rightarrow> G x) w = (Inr a, w') \<longleftrightarrow>
     (\<exists>e v. q w = (Inl e, v) \<and> F e v = (Inr a, w')) \<or> (\<exists>x v. q w = (Inr x, v) \<and> G x v = (Inr a, w'))"
  by (auto simp: catchM_def split: prod.splits sum.splits)

lemma config_left_pos: "0 < config_left c p"
  by (cases "(c, p)" rule: config_left.cases) simp_all

lemma ensuring_left:
  "config_left (RegisterGeneration d ss a h) (ensuring rest) \<le> 2 * length rest + length ss + 7"
  by (cases rest) simp_all

lemma deciding_left: "config_left c (deciding a row) \<le> 5"
  by (cases c) (simp_all add: deciding_def)

lemma deciding_less: "config_left c (deciding a row) < n + 7"
  by (rule le_less_trans [OF deciding_left]) simp

lemma linking_left: "config_left c (linking a row k rest) \<le> length rest + 5"
  using deciding_left by (cases rest) simp_all

lemma linking_less: "config_left c (linking a row k rest) < length rest + 6"
  by (rule le_less_trans [OF linking_left]) simp

lemma ensure_lookup_Inr:
  "ensure_lookup f64 s rest w = (Inr (p, f), w') \<Longrightarrow> f = id \<and> db w' = db w \<and> sql_now w' = sql_now w \<and>
     ((\<exists>spec. p = Storing s spec rest \<and> sc_Spec s = Some spec \<and> row_at schema_key (sc_Name s, sc_Version s) (schemas (db w)) = None) \<or>
      p = ensuring rest \<and> ensured f64 (schemas (db w)) s)"
  by (auto simp: ensure_lookup_def ensured_def catchM_def q_GetSchema_eq split: if_splits option.splits)

lemma ensure_store_Inr:
  "ensure_store s spec rest w = (Inr (p, f), w') \<Longrightarrow>
     p = ensuring rest \<and> f = (\<lambda>\<delta>. \<delta>\<lparr>dl_schemas := dl_schemas \<delta> @ new_schemas s spec (db w)\<rparr>) \<and>
     db w' = (db w)\<lparr>schemas := schemas (db w) @ new_schemas s spec (db w)\<rparr> \<and> sql_now w' = sql_now w \<and>
     (sc_Name s, sc_Version s) \<in> schema_key ` set (schemas (db w'))"
  by (auto simp: ensure_store_def new_schemas_def bindM_Inr_iff q_EnsureSchema_def run_stmt_Inr_iff row_at_None
      split: if_splits option.splits)

lemma config_advance_less:
  assumes "config_advance f64 c p v = (Inr (p1, f), v')"
  shows "config_left c p1 < config_left c p"
proof (cases "(f64, c, p)" rule: config_advance.cases)
  case (1 r description ss activate h s rest)
  then have "(\<exists>spec. p1 = Storing s spec rest) \<or> p1 = ensuring rest"
    using assms ensure_lookup_Inr [of f64 s rest v p1 f v'] by auto
  then show ?thesis using 1 ensuring_left [of description ss activate h rest] by auto
next
  case (2 r description ss activate h s spec rest)
  then have "p1 = ensuring rest" using assms ensure_store_Inr [of s spec rest v p1 f v'] by simp
  then show ?thesis using 2 ensuring_left [of description ss activate h rest] by simp
next
  case (3 r description ss activate h)
  then show ?thesis
    using assms by (auto simp: catchM_Inr_iff deciding_less split: if_splits)
next
  case (4 r description ss activate h)
  then show ?thesis
    using assms by (auto simp: bindM_Inr_iff linking_less)
next
  case (5 r description ss activate h row k s rest)
  then show ?thesis
    using assms linking_less [of c activate row "Suc k" rest] by (auto simp: bindM_Inr_iff Let_def)
qed (use assms in \<open>auto simp: bindM_Inr_iff catchM_Inr_iff deactivate_find_def deactivate_change_def split: if_splits\<close>)


lemma config_drive_enough:
  "config_left c p \<le> k \<Longrightarrow> config_drive k f64 c p w = config_drive (config_left c p) f64 c p w"
proof (induction k arbitrary: p w rule: less_induct)
  case (less k)
  obtain j where k: "k = Suc j" using less.prems config_left_pos [of c p] by (cases k) auto
  obtain l where l: "config_left c p = Suc l" using config_left_pos [of c p] by (cases "config_left c p") auto
  have "config_drive j f64 c p1 v = config_drive l f64 c p1 v" if "config_advance f64 c p w = (Inr (p1, f), v)" for p1 f v
  proof -
    have "config_left c p1 \<le> l" "l \<le> j" using config_advance_less [OF that] less.prems k l by simp_all
    then show ?thesis using less.IH [of j p1 v] less.IH [of l p1 v] k less.prems l by (cases "l = j") auto
  qed
  then have "bindM (config_advance f64 c p) (\<lambda>(p1, f). config_drive j f64 c p1) w =
      bindM (config_advance f64 c p) (\<lambda>(p1, f). config_drive l f64 c p1) w"
    by (auto simp: bindM_def split: prod.splits sum.splits)
  then show ?case unfolding k l by (auto split: config_progress.splits)
qed

lemma config_rest_Registered: "config_rest f64 c (Registered i) = returnM i"
  by (cases c) (simp_all add: config_rest_def)

lemma config_rest_unfold:
  assumes "\<nexists>i. p = Registered i"
  shows "config_rest f64 c p = bindM (config_advance f64 c p) (\<lambda>(p1, f). config_rest f64 c p1)"
proof (rule ext)
  fix w
  obtain l where l: "config_left c p = Suc l" using config_left_pos [of c p] by (cases "config_left c p") auto
  have "config_drive l f64 c p1 v = config_rest f64 c p1 v" if "config_advance f64 c p w = (Inr (p1, f), v)" for p1 f v
    unfolding config_rest_def using config_drive_enough [of c p1 l] config_advance_less [OF that] l by simp
  then have "bindM (config_advance f64 c p) (\<lambda>(p1, f). config_drive l f64 c p1) w =
      bindM (config_advance f64 c p) (\<lambda>(p1, f). config_rest f64 c p1) w"
    by (auto simp: bindM_def split: prod.splits sum.splits)
  then show "config_rest f64 c p w = bindM (config_advance f64 c p) (\<lambda>(p1, f). config_rest f64 c p1) w"
    using assms unfolding config_rest_def [of f64 c p] l by (auto split: config_progress.splits)
qed


lemma rest_activating:
  "config_rest f64 c (Deactivating i) w =
     bindM (activateConfigGeneration i) (\<lambda>_. bindM (notifySchemasUpdated ''activated'') (\<lambda>_. returnM i)) w"
proof -
  have same: "map (\<lambda>g. if cg_active g \<and> cg_id g \<in> cg_id ` {g \<in> set gs. cg_active g \<and> cg_id g \<noteq> i} then g\<lparr>cg_active := False\<rparr> else g) gs =
      map (\<lambda>g. if cg_active g \<and> cg_id g \<noteq> i then g\<lparr>cg_active := False\<rparr> else g) gs" for gs
    by (rule map_cong) auto
  show ?thesis
    by (simp add: config_rest_unfold config_rest_Registered deactivate_find_def deactivate_change_def
        activateConfigGeneration_def q_DeactivateActiveConfigGeneration_def bindM_def run_stmt_def same split: prod.splits sum.splits)
qed

lemma rest_deciding:
  "config_rest f64 c (deciding activate row) =
     bindM (if activate \<and> \<not> cg_active row then
          bindM (activateConfigGeneration (cg_id row)) (\<lambda>_. notifySchemasUpdated ''activated'')
        else returnM ()) (\<lambda>_. returnM (cg_id row))"
  by (auto simp: fun_eq_iff deciding_def rest_activating config_rest_Registered bindM_assoc)

lemma rest_linking:
  "config_rest f64 (RegisterGeneration d ss activate h) (linking activate row k rest) =
     bindM (insertGenerationSchemas (cg_id row) k rest) (\<lambda>_. config_rest f64 (RegisterGeneration d ss activate h) (deciding activate row))"
  by (induction rest arbitrary: k) (simp_all add: config_rest_unfold bindM_assoc Let_def)

lemma ensure_in_two_parts:
  "bindM (ensure_lookup f64 s rest) (\<lambda>(p1, f). config_rest f64 (RegisterGeneration d ss activate h) p1) =
     bindM (ensureConfigSchema f64 s) (\<lambda>_. config_rest f64 (RegisterGeneration d ss activate h) (ensuring rest))"
  by (rule ext) (auto simp: ensure_lookup_def ensureConfigSchema_def ensure_store_def bindM_def catchM_def config_rest_unfold
      split: prod.splits sum.splits option.splits)

lemma rest_ensuring:
  "config_rest f64 (RegisterGeneration d ss activate h) (ensuring rest) =
     bindM (for_each (ensureConfigSchema f64) rest) (\<lambda>_. config_rest f64 (RegisterGeneration d ss activate h) Hashing)"
  by (induction rest) (simp_all add: config_rest_unfold [of "Ensuring _"] bindM_assoc ensure_in_two_parts)

lemma rest_registered:
  "config_rest f64 (RegisterGeneration description ss activate h) Hashing =
     bindM
       (catchM (q_GetConfigGenerationByIdentityHash h) (\<lambda>r.
          case r of
            Inl e \<Rightarrow>
              if e = ErrNoRows then
                bindM (q_InsertConfigGeneration h description) (\<lambda>row.
                bindM (insertGenerationSchemas (cg_id row) 0 ss) (\<lambda>_.
                returnM row))
              else failM e
          | Inr existing \<Rightarrow> returnM existing)) (\<lambda>row. config_rest f64 (RegisterGeneration description ss activate h) (deciding activate row))"
  by (rule ext) (auto simp: config_rest_unfold [of Hashing] config_rest_unfold [of Inserting] rest_linking bindM_def catchM_def
      split: prod.splits sum.splits)

lemma config_body_statements: "config_body f64 c = config_rest f64 c (config_start c)"
proof (cases c)
  case (RegisterGeneration description ss activate h)
  then show ?thesis
    by (simp add: registerConfigGeneration_tx_def rest_ensuring rest_registered rest_deciding ensureConfigSchemas_def bindM_assoc)
next
  case (ActivateGeneration i)
  show ?thesis
    unfolding ActivateGeneration
    by (rule ext) (auto simp: config_rest_unfold [of Fetching] rest_activating config_rest_Registered activateGeneration_tx_def
        bindM_def catchM_def split: prod.splits sum.splits)
next
  case (SetDeprecation label enforced)
  show ?thesis
    unfolding SetDeprecation
    by (rule ext) (simp add: config_rest_unfold config_rest_Registered UpdateDeprecation_tx_def bindM_assoc bindM_def split: prod.splits sum.splits)
qed

end
