(* ===== verification/Config_Interleaving.thy ===== *)
theory Config_Interleaving
  imports Config_Statements Store_Steps
begin

text \<open>
  Configuration transactions whose statements interleave, under read committed: a statement reads what has
  been committed and what its own transaction has written. A stored schema locks its key until its transaction
  ends, an inserted generation its identity hash, a deactivated or activated one its row, an activation the
  single entry of the unique index on the active flag, a deprecation its label. The identity column draws
  its numbers outside of the transaction.
\<close>

section \<open>Locks\<close>

datatype config_lock =
    SchemaL "string \<times> string"
  | HashL string
  | IdL int
  | GenL int
  | ActiveL
  | DepL string

definition generation_locks :: "generation_row option \<Rightarrow> config_lock set" where
  "generation_locks r = (case r of None \<Rightarrow> {} | Some g \<Rightarrow> {IdL (cg_id g), HashL (cg_identity_hash g)})"

definition active_locks :: "(int \<times> int) option \<Rightarrow> config_lock set" where
  "active_locks r = (case r of None \<Rightarrow> {} | Some (i, now) \<Rightarrow> {GenL i, ActiveL})"

definition label_locks :: "(string \<times> bool) option \<Rightarrow> config_lock set" where
  "label_locks r = (case r of None \<Rightarrow> {} | Some (label, enforced) \<Rightarrow> {DepL label})"

lemmas option_locks = generation_locks_def active_locks_def label_locks_def

definition config_locks :: "config_delta \<Rightarrow> config_lock set" where
  "config_locks \<delta> = SchemaL ` schema_key ` set (dl_schemas \<delta>) \<union> generation_locks (dl_gen \<delta>) \<union>
     GenL ` dl_off \<delta> \<union> active_locks (dl_on \<delta>) \<union> label_locks (dl_dep \<delta>)"

text \<open>The locks the next statement takes.\<close>

fun config_wants :: "config_call \<Rightarrow> config_progress \<Rightarrow> config_lock set" where
  "config_wants c (Storing s spec rest) = {SchemaL (sc_Name s, sc_Version s)}"
| "config_wants (RegisterGeneration description ss activate h) Inserting = {HashL h}"
| "config_wants c (Sweeping i S) = GenL ` S"
| "config_wants c (Activating i) = {GenL i, ActiveL}"
| "config_wants (SetDeprecation label enforced) Labelling = {DepL label}"
| "config_wants c p = {}"

section \<open>The machine\<close>

record config_tx =
  k_call :: config_call
  k_progress :: config_progress
  k_delta :: config_delta
  k_now :: int

record config_machine =
  km_committed :: db
  km_active :: "nat \<rightharpoonup> config_tx"

definition put_config :: "nat \<Rightarrow> config_tx \<Rightarrow> config_machine \<Rightarrow> config_machine" where
  "put_config t x m = m\<lparr>km_active := (km_active m)(t \<mapsto> x)\<rparr>"

definition end_config :: "nat \<Rightarrow> config_machine \<Rightarrow> config_machine" where
  "end_config t m = m\<lparr>km_active := (km_active m)(t := None)\<rparr>"

definition draw_to :: "int \<Rightarrow> config_machine \<Rightarrow> config_machine" where
  "draw_to n m = m\<lparr>km_committed := (km_committed m)\<lparr>generation_seq := n\<rparr>\<rparr>"

lemma config_tx_simps [simp]:
  "km_active (put_config t x m) t' = (if t' = t then Some x else km_active m t')" "km_committed (put_config t x m) = km_committed m"
  "km_active (end_config t m) t' = (if t' = t then None else km_active m t')" "km_committed (end_config t m) = km_committed m"
  "km_active (draw_to n m) = km_active m" "km_committed (draw_to n m) = (km_committed m)\<lparr>generation_seq := n\<rparr>"
  by (simp_all add: put_config_def end_config_def draw_to_def)

definition config_view :: "config_machine \<Rightarrow> config_tx \<Rightarrow> db" where
  "config_view m x = apply_delta (k_delta x) (km_committed m)"

definition config_waits :: "config_machine \<Rightarrow> nat \<Rightarrow> config_tx \<Rightarrow> bool" where
  "config_waits m t x \<longleftrightarrow>
     (\<exists>t' x'. t' \<noteq> t \<and> km_active m t' = Some x' \<and> config_wants (k_call x) (k_progress x) \<inter> config_locks (k_delta x') \<noteq> {})"

definition config_alone :: "db \<Rightarrow> db \<Rightarrow> bool" where
  "config_alone d e \<longleftrightarrow> schemas e = schemas d \<and> generations e = generations d \<and>
     generation_schemas e = generation_schemas d \<and> deprecations e = deprecations d"

text \<open>A step with a given rounding of the numbers that are compared; the machine steps with any.\<close>

inductive rounded_step :: "(rat \<Rightarrow> rat) \<Rightarrow> config_machine \<Rightarrow> config_machine \<Rightarrow> bool" for f64 where
  began: "km_active m t = None \<Longrightarrow>
    rounded_step f64 m (put_config t \<lparr>k_call = c, k_progress = config_start c, k_delta = no_change, k_now = now\<rparr> m)"
| ran: "km_active m t = Some x \<Longrightarrow> \<not> config_waits m t x \<Longrightarrow> db v = config_view m x \<Longrightarrow> sql_now v = k_now x \<Longrightarrow>
    config_advance f64 (k_call x) (k_progress x) v = (Inr (p, f), v') \<Longrightarrow>
    rounded_step f64 m
      (put_config t (x\<lparr>k_progress := p, k_delta := f (k_delta x)\<rparr>) (draw_to (generation_seq (db v')) m))"
| finished: "km_active m t = Some x \<Longrightarrow> k_progress x = Registered i \<Longrightarrow>
    rounded_step f64 m ((end_config t m)\<lparr>km_committed := config_view m x\<rparr>)"
| aborted: "km_active m t = Some x \<Longrightarrow> rounded_step f64 m (end_config t m)"
| elsewhere: "store_step (km_committed m) d \<Longrightarrow> config_alone (km_committed m) d \<Longrightarrow>
    rounded_step f64 m (m\<lparr>km_committed := d\<rparr>)"

definition config_machine_step :: "config_machine \<Rightarrow> config_machine \<Rightarrow> bool" where
  "config_machine_step m m' \<longleftrightarrow> (\<exists>f64. rounded_step f64 m m')"

lemma rounded_machine_step: "rounded_step f64 m m' \<Longrightarrow> config_machine_step m m'"
  unfolding config_machine_step_def by blast

section \<open>What a transaction has done so far\<close>

lemma switched_simps [simp]:
  "cg_id (switched \<delta> g) = cg_id g" "cg_identity_hash (switched \<delta> g) = cg_identity_hash g" "same_generation g (switched \<delta> g)"
  by (auto simp: switched_def same_generation_def Let_def split: option.splits)

lemma apply_delta_simps [simp]:
  "schemas (apply_delta \<delta> d) = schemas d @ dl_schemas \<delta>"
  "generations (apply_delta \<delta> d) = map (switched \<delta>) (generations d) @ (case dl_gen \<delta> of None \<Rightarrow> [] | Some g \<Rightarrow> [switched \<delta> g])"
  "generation_schemas (apply_delta \<delta> d) = generation_schemas d @ dl_refs \<delta>"
  "generation_seq (apply_delta \<delta> d) = generation_seq d"
  "outbox (apply_delta \<delta> d) = outbox d @ dl_notes \<delta>"
  "deprecations (apply_delta \<delta> d) = (case dl_dep \<delta> of None \<Rightarrow> deprecations d
        | Some (label, enforced) \<Rightarrow> put_row dep_label \<lparr>dep_label = label, dep_enforced = enforced\<rparr> (deprecations d))"
  by (auto simp: apply_delta_def split: option.splits)

definition quiet :: "config_delta \<Rightarrow> bool" where
  "quiet \<delta> \<longleftrightarrow> dl_off \<delta> = {} \<and> dl_on \<delta> = None \<and> dl_notes \<delta> = []"

lemma switched_quiet [simp]: "dl_off \<delta> = {} \<Longrightarrow> dl_on \<delta> = None \<Longrightarrow> switched \<delta> g = g"
  by (simp add: switched_def)

lemma generation_frozen: "\<not> cg_active g \<Longrightarrow> g\<lparr>cg_active := False\<rparr> = g"
  by (cases g) simp

text \<open>The changes fit the committed tables: nothing of them is stored yet, and no generation would be active beside the activated one.\<close>

definition delta_fits :: "config_delta \<Rightarrow> db \<Rightarrow> bool" where
  "delta_fits \<delta> d \<longleftrightarrow>
     distinct (map schema_key (schemas d @ dl_schemas \<delta>)) \<and>
     (\<forall>g. dl_gen \<delta> = Some g \<longrightarrow> \<not> cg_active g \<and> 1 \<le> cg_id g \<and> cg_id g \<le> generation_seq d \<and>
        cg_id g \<notin> cg_id ` set (generations d) \<and> cg_identity_hash g \<notin> cg_identity_hash ` set (generations d)) \<and>
     refs_ok (cg_id ` set_option (dl_gen \<delta>)) (schema_key ` set (schemas d @ dl_schemas \<delta>)) (dl_refs \<delta>) \<and>
     (\<forall>i now. dl_on \<delta> = Some (i, now) \<longrightarrow> (\<forall>g \<in> set (generations d). cg_active g \<longrightarrow> cg_id g = i \<or> cg_id g \<in> dl_off \<delta>))"

lemma switched_active:
  "cg_active (switched \<delta> g) \<longleftrightarrow> (case dl_on \<delta> of
     None \<Rightarrow> cg_active g \<and> cg_id g \<notin> dl_off \<delta> | Some (i, now) \<Rightarrow> cg_id g = i \<or> cg_active g \<and> cg_id g \<notin> dl_off \<delta>)"
  by (auto simp: switched_def Let_def split: option.splits)

lemma switched_activated_at:
  "(cg_active g \<longrightarrow> cg_activated_at g \<noteq> None) \<Longrightarrow> cg_active (switched \<delta> g) \<longrightarrow> cg_activated_at (switched \<delta> g) \<noteq> None"
  by (auto simp: switched_def Let_def split: option.splits if_splits)

lemma delta_fitsD:
  assumes "delta_fits \<delta> d"
  shows "distinct (map schema_key (schemas d @ dl_schemas \<delta>))"
    "dl_gen \<delta> = Some g \<Longrightarrow> \<not> cg_active g" "dl_gen \<delta> = Some g \<Longrightarrow> 1 \<le> cg_id g" "dl_gen \<delta> = Some g \<Longrightarrow> cg_id g \<le> generation_seq d"
    "dl_gen \<delta> = Some g \<Longrightarrow> cg_id g \<notin> cg_id ` set (generations d)"
    "dl_gen \<delta> = Some g \<Longrightarrow> cg_identity_hash g \<notin> cg_identity_hash ` set (generations d)"
    "refs_ok (cg_id ` set_option (dl_gen \<delta>)) (schema_key ` set (schemas d @ dl_schemas \<delta>)) (dl_refs \<delta>)"
    "dl_on \<delta> = Some (i, now) \<Longrightarrow> x \<in> set (generations d) \<Longrightarrow> cg_active x \<Longrightarrow> cg_id x = i \<or> cg_id x \<in> dl_off \<delta>"
  using assms unfolding delta_fits_def by blast+

definition all_generations :: "config_delta \<Rightarrow> db \<Rightarrow> generation_row list" where
  "all_generations \<delta> d = generations d @ (case dl_gen \<delta> of None \<Rightarrow> [] | Some g \<Rightarrow> [g])"

lemma generations_applied: "generations (apply_delta \<delta> d) = map (switched \<delta>) (all_generations \<delta> d)"
  by (simp add: all_generations_def split: option.splits)

lemma set_all_generations: "set (all_generations \<delta> d) = set (generations d) \<union> set_option (dl_gen \<delta>)"
  by (cases "dl_gen \<delta>") (simp_all add: all_generations_def)

lemma active_after:
  assumes "delta_fits \<delta> d" "g \<in> set (all_generations \<delta> d)" "cg_active (switched \<delta> g)"
  shows "case dl_on \<delta> of None \<Rightarrow> g \<in> set (generations d) \<and> cg_active g \<and> cg_id g \<notin> dl_off \<delta> | Some (i, now) \<Rightarrow> cg_id g = i"
proof (cases "g \<in> set (generations d)")
  case True
  then show ?thesis using assms(3) delta_fitsD(8) [OF assms(1)] by (auto simp: switched_active split: option.splits)
next
  case False
  then have "\<not> cg_active g" using assms(2) delta_fitsD(2) [OF assms(1)] by (simp add: set_all_generations)
  then show ?thesis using assms(3) by (auto simp: switched_active split: option.splits)
qed

lemma fits_generations:
  assumes "generations_ok (generations d) (generation_seq d)" "delta_fits \<delta> d"
  shows "generations_ok (generations (apply_delta \<delta> d)) (generation_seq d)"
proof -
  note ok = generations_okD [OF assms(1)] and fits = delta_fitsD [OF assms(2)]
  have "distinct (map cg_id (all_generations \<delta> d))" "distinct (map cg_identity_hash (all_generations \<delta> d))"
    using ok(1,2) fits(5,6) by (simp_all add: all_generations_def split: option.splits)
  then have "distinct (map cg_id (generations (apply_delta \<delta> d)))" "distinct (map cg_identity_hash (generations (apply_delta \<delta> d)))"
    unfolding generations_applied by (simp_all add: comp_def)
  moreover have "1 \<le> cg_id g \<and> cg_id g \<le> generation_seq d \<and> (cg_active g \<longrightarrow> cg_activated_at g \<noteq> None)"
    if "g \<in> set (all_generations \<delta> d)" for g
    using that ok(4-6) fits(2-4) by (auto simp: set_all_generations)
  then have "\<forall>g \<in> set (generations (apply_delta \<delta> d)). 1 \<le> cg_id g \<and> cg_id g \<le> generation_seq d \<and> (cg_active g \<longrightarrow> cg_activated_at g \<noteq> None)"
    using switched_activated_at unfolding generations_applied by simp
  moreover have "cg_id g = cg_id h"
    if "g \<in> set (all_generations \<delta> d)" "h \<in> set (all_generations \<delta> d)" "cg_active (switched \<delta> g)" "cg_active (switched \<delta> h)" for g h
  proof (cases "dl_on \<delta>")
    case None
    then have "g \<in> set (generations d)" "cg_active g" "h \<in> set (generations d)" "cg_active h"
      using active_after [OF assms(2) that(1,3)] active_after [OF assms(2) that(2,4)] by simp_all
    then show ?thesis using ok(7) by blast
  next
    case (Some y)
    then show ?thesis using active_after [OF assms(2) that(1,3)] active_after [OF assms(2) that(2,4)] by (cases y) simp
  qed
  then have "\<forall>g \<in> set (generations (apply_delta \<delta> d)). \<forall>h \<in> set (generations (apply_delta \<delta> d)). cg_active g \<and> cg_active h \<longrightarrow> cg_id g = cg_id h"
    unfolding generations_applied set_map ball_simps switched_simps by blast
  ultimately show ?thesis unfolding generations_ok_def using ok(3) by (intro conjI)
qed

lemma set_generations_applied:
  "cg_id ` set (generations (apply_delta \<delta> d)) = cg_id ` set (generations d) \<union> cg_id ` set_option (dl_gen \<delta>)"
  unfolding generations_applied by (simp add: set_all_generations image_image image_Un del: apply_delta_simps)

lemma refs_ok_append:
  assumes "refs_ok ids keys rows" "refs_ok ids' keys' rows'" "ids \<inter> ids' = {}" "keys \<subseteq> keys'"
  shows "refs_ok (ids \<union> ids') keys' (rows @ rows')"
proof -
  have "cgs_generation_id r \<noteq> cgs_generation_id q" if "r \<in> set rows" "q \<in> set rows'" for r q
  proof -
    have "cgs_generation_id r \<in> ids" "cgs_generation_id q \<in> ids'" using assms(1,2) that by (simp_all add: refs_ok_def)
    then show ?thesis using assms(3) by auto
  qed
  then have "distinct (map (\<lambda>r. (cgs_generation_id r, cgs_name r)) (rows @ rows'))"
    using assms(1,2) by (auto simp: refs_ok_def)
  moreover have "\<forall>r \<in> set (rows @ rows'). cgs_generation_id r \<in> ids \<union> ids' \<and> cgs_ref r \<in> keys'"
    using assms(1,2,4) by (simp add: refs_ok_def) blast
  ultimately show ?thesis unfolding refs_ok_def by (rule conjI)
qed

lemma fits_fresh: "delta_fits \<delta> d \<Longrightarrow> cg_id ` set (generations d) \<inter> cg_id ` set_option (dl_gen \<delta>) = {}"
  using delta_fitsD(5) [of \<delta> d] by (cases "dl_gen \<delta>") simp_all

lemma fits_ok:
  assumes "config_ok d" "delta_fits \<delta> d"
  shows "config_ok (apply_delta \<delta> d)"
proof -
  have ok: "generations_ok (generations d) (generation_seq d)"
    "refs_ok (cg_id ` set (generations d)) (schema_key ` set (schemas d)) (generation_schemas d)" "distinct (map dep_label (deprecations d))"
    using assms(1) by (simp_all add: config_ok_def)
  have "refs_ok (cg_id ` set (generations d) \<union> cg_id ` set_option (dl_gen \<delta>)) (schema_key ` set (schemas d @ dl_schemas \<delta>))
      (generation_schemas d @ dl_refs \<delta>)"
    by (rule refs_ok_append [OF ok(2) delta_fitsD(7) [OF assms(2)] fits_fresh [OF assms(2)]]) auto
  then have "refs_ok (cg_id ` set (generations (apply_delta \<delta> d))) (schema_key ` set (schemas (apply_delta \<delta> d))) (generation_schemas (apply_delta \<delta> d))"
    unfolding set_generations_applied by simp
  moreover have "distinct (map dep_label (deprecations (apply_delta \<delta> d)))"
    using ok(3) distinct_put_row [of dep_label "deprecations d"] by (auto split: option.splits)
  ultimately show ?thesis
    using fits_generations [OF ok(1) assms(2)] delta_fitsD(1) [OF assms(2)] unfolding config_ok_def by simp
qed

lemma fits_kept:
  assumes "delta_fits \<delta> d"
  shows "config_kept d (apply_delta \<delta> d)"
proof (rule config_keptI)
  show "row_at schema_key k (schemas (apply_delta \<delta> d)) = Some r" if "row_at schema_key k (schemas d) = Some r" for k r
    using that by (simp add: row_at_append)
  show "\<exists>g' \<in> set (generations (apply_delta \<delta> d)). same_generation g g'" if "g \<in> set (generations d)" for g
    using that by (auto intro: bexI [of _ "switched \<delta> g"])
  show "generation_refs (apply_delta \<delta> d) i = generation_refs d i" if "i \<in> cg_id ` set (generations d)" for i
  proof -
    have "cgs_generation_id r \<noteq> i" if "r \<in> set (dl_refs \<delta>)" for r
      using that fits_fresh [OF assms] delta_fitsD(7) [OF assms] \<open>i \<in> _\<close> unfolding refs_ok_def by blast
    then show ?thesis by (simp add: generation_refs_def filter_empty_conv)
  qed
qed simp

section \<open>What others commit\<close>

lemma fits_other:
  assumes "delta_fits \<delta> d" "delta_fits \<epsilon> d" "config_locks \<delta> \<inter> config_locks \<epsilon> = {}"
  shows "delta_fits \<delta> (apply_delta \<epsilon> d)"
proof -
  note a = delta_fitsD [OF assms(1)] and b = delta_fitsD [OF assms(2)]
  have locks: "schema_key ` set (dl_schemas \<delta>) \<inter> schema_key ` set (dl_schemas \<epsilon>) = {}" 
    "generation_locks (dl_gen \<delta>) \<inter> generation_locks (dl_gen \<epsilon>) = {}" "active_locks (dl_on \<delta>) \<inter> active_locks (dl_on \<epsilon>) = {}"
    using assms(3) unfolding config_locks_def by blast+
  have "distinct (map schema_key (schemas (apply_delta \<epsilon> d) @ dl_schemas \<delta>))"
    using a(1) b(1) locks(1) by auto
  moreover have "\<not> cg_active g \<and> 1 \<le> cg_id g \<and> cg_id g \<le> generation_seq d \<and>
      cg_id g \<notin> cg_id ` set (generations (apply_delta \<epsilon> d)) \<and> cg_identity_hash g \<notin> cg_identity_hash ` set (generations (apply_delta \<epsilon> d))"
    if g: "dl_gen \<delta> = Some g" for g
    using a(2-6) [OF g] locks(2) g by (auto simp: generation_locks_def split: option.splits)
  moreover have "refs_ok (cg_id ` set_option (dl_gen \<delta>)) (schema_key ` set (schemas (apply_delta \<epsilon> d) @ dl_schemas \<delta>)) (dl_refs \<delta>)"
    using a(7) by (rule refs_ok_mono) auto
  moreover have "cg_id g = i \<or> cg_id g \<in> dl_off \<delta>"
    if i: "dl_on \<delta> = Some (i, now)" and g: "g \<in> set (generations (apply_delta \<epsilon> d))" "cg_active g" for i now g
  proof -
    have on: "dl_on \<epsilon> = None" using locks(3) i by (auto simp: active_locks_def split: option.splits)
    obtain x where x: "x \<in> set (all_generations \<epsilon> d)" "g = switched \<epsilon> x" using g(1) unfolding generations_applied by auto
    then have "x \<in> set (generations d)" "cg_active x" using active_after [OF assms(2), of x] g(2) on by simp_all
    then show ?thesis using a(8) [OF i] x(2) by simp
  qed
  ultimately show ?thesis unfolding delta_fits_def by auto
qed

lemma fits_alone:
  assumes "delta_fits \<delta> d" "config_alone d e" "generation_seq d \<le> generation_seq e"
  shows "delta_fits \<delta> e"
  using assms unfolding delta_fits_def config_alone_def by fastforce

end
