(* ===== verification/Config_Interleaving_Inv.thy ===== *)
theory Config_Interleaving_Inv
  imports Config_Interleaving
begin

text \<open>
  The invariant of the machine of \<open>Config_Interleaving\<close>: what holds of a configuration transaction between two
  statements (\<open>config_phase\<close>), that every statement brings it to the next such point (\<open>config_follows_advance\<close>),
  and that what others commit does not disturb it. So the tables meet the invariant of the configuration
  after every step, and what is stored stays.
\<close>

section \<open>What holds of a transaction on its way\<close>

abbreviation sc_key :: "config_schema \<Rightarrow> string \<times> string" where
  "sc_key s \<equiv> (sc_Name s, sc_Version s)"

definition stored_keys :: "config_schema list \<Rightarrow> db \<Rightarrow> bool" where
  "stored_keys ss d \<longleftrightarrow> sc_key ` set ss \<subseteq> schema_key ` set (schemas d)"

definition registers :: "config_schema list \<Rightarrow> string \<Rightarrow> int \<Rightarrow> config_delta \<Rightarrow> db \<Rightarrow> bool" where
  "registers ss h i \<delta> d \<longleftrightarrow> stored_keys ss (apply_delta \<delta> d) \<and>
     (i, h) \<in> (\<lambda>g. (cg_id g, cg_identity_hash g)) ` set (all_generations \<delta> d) \<and>
     (\<forall>row. dl_gen \<delta> = Some row \<longrightarrow> cg_id row = i \<and> dl_refs \<delta> = generation_rows i 0 ss)"

fun progress_target :: "config_progress \<Rightarrow> int option" where
  "progress_target (Deactivating i) = Some i"
| "progress_target (Sweeping i S) = Some i"
| "progress_target (Activating i) = Some i"
| "progress_target (Announcing i) = Some i"
| "progress_target (Registered i) = Some i"
| "progress_target p = None"

fun switch_phase :: "config_progress \<Rightarrow> config_delta \<Rightarrow> bool" where
  "switch_phase (Sweeping i S) \<delta> \<longleftrightarrow> quiet \<delta> \<and> i \<notin> S"
| "switch_phase (Activating i) \<delta> \<longleftrightarrow> dl_on \<delta> = None \<and> i \<notin> dl_off \<delta> \<and> dl_notes \<delta> = []"
| "switch_phase (Announcing i) \<delta> \<longleftrightarrow> (\<exists>now. dl_on \<delta> = Some (i, now)) \<and> dl_notes \<delta> = []"
| "switch_phase (Registered i) \<delta> \<longleftrightarrow> dl_off \<delta> = {} \<and> dl_on \<delta> = None \<or>
     (\<exists>now. dl_on \<delta> = Some (i, now)) \<and> (NotifyChannelSchemaUpdate, SchemaEvent ''activated'') \<in> set (dl_notes \<delta>)"
| "switch_phase p \<delta> \<longleftrightarrow> quiet \<delta>"

definition no_rows :: "config_delta \<Rightarrow> bool" where
  "no_rows \<delta> \<longleftrightarrow> dl_schemas \<delta> = [] \<and> dl_gen \<delta> = None \<and> dl_refs \<delta> = []"

fun register_phase :: "config_schema list \<Rightarrow> string \<Rightarrow> config_progress \<Rightarrow> config_delta \<Rightarrow> db \<Rightarrow> bool" where
  "register_phase ss h (Ensuring rest) \<delta> d \<longleftrightarrow> dl_gen \<delta> = None \<and> (\<exists>past. ss = past @ rest \<and> stored_keys past (apply_delta \<delta> d))"
| "register_phase ss h (Storing s spec rest) \<delta> d \<longleftrightarrow>
     dl_gen \<delta> = None \<and> (\<exists>past. ss = past @ s # rest \<and> stored_keys past (apply_delta \<delta> d))"
| "register_phase ss h Hashing \<delta> d \<longleftrightarrow> dl_gen \<delta> = None \<and> stored_keys ss (apply_delta \<delta> d)"
| "register_phase ss h Inserting \<delta> d \<longleftrightarrow> dl_gen \<delta> = None \<and> stored_keys ss (apply_delta \<delta> d)"
| "register_phase ss h (Linking row k rest) \<delta> d \<longleftrightarrow>
     dl_gen \<delta> = Some row \<and> cg_identity_hash row = h \<and> stored_keys ss (apply_delta \<delta> d) \<and>
     (\<exists>past. ss = past @ rest \<and> k = length past \<and> dl_refs \<delta> = generation_rows (cg_id row) 0 past)"
| "register_phase ss h p \<delta> d \<longleftrightarrow> (\<exists>i. progress_target p = Some i \<and> registers ss h i \<delta> d)"

fun call_phase :: "config_call \<Rightarrow> config_progress \<Rightarrow> config_delta \<Rightarrow> db \<Rightarrow> bool" where
  "call_phase (RegisterGeneration description ss activate h) p \<delta> d \<longleftrightarrow> dl_dep \<delta> = None \<and> register_phase ss h p \<delta> d"
| "call_phase (ActivateGeneration i) p \<delta> d \<longleftrightarrow>
     no_rows \<delta> \<and> dl_dep \<delta> = None \<and> (p = Fetching \<or> progress_target p = Some i \<and> i \<in> cg_id ` set (generations d))"
| "call_phase (SetDeprecation label enforced) p \<delta> d \<longleftrightarrow>
     no_rows \<delta> \<and> dl_off \<delta> = {} \<and> dl_on \<delta> = None \<and>
     (p = Labelling \<and> dl_dep \<delta> = None \<or> p = LabelNoting \<and> dl_dep \<delta> = Some (label, enforced) \<or>
      p = Registered 0 \<and> dl_dep \<delta> = Some (label, enforced) \<and> dl_notes \<delta> = [(NotifyChannelDeprecationUpdate, DeprecationEvent label)])"

definition config_phase :: "config_call \<Rightarrow> config_progress \<Rightarrow> config_delta \<Rightarrow> db \<Rightarrow> bool" where
  "config_phase c p \<delta> d \<longleftrightarrow> switch_phase p \<delta> \<and> call_phase c p \<delta> d"

text \<open>What a statement brings about: the changes describe the tables it leaves, they fit, and only the locks it waited for are new.\<close>

definition config_follows ::
    "config_call \<Rightarrow> config_progress \<Rightarrow> config_delta \<Rightarrow> db \<Rightarrow> config_progress \<Rightarrow> config_delta \<Rightarrow> db \<Rightarrow> bool" where
  "config_follows c p \<delta> d p1 \<delta>1 e \<longleftrightarrow>
     (let d1 = d\<lparr>generation_seq := generation_seq e\<rparr> in
      generation_seq d \<le> generation_seq e \<and> config_phase c p1 \<delta>1 d1 \<and> delta_fits \<delta>1 d1 \<and> e = apply_delta \<delta>1 d1 \<and>
      config_locks \<delta>1 \<subseteq> config_locks \<delta> \<union> config_wants c p \<union> IdL ` {n. generation_seq d < n})"

lemma follows_read:
  "delta_fits \<delta> d \<Longrightarrow> config_phase c p1 \<delta> d \<Longrightarrow> config_follows c p \<delta> d p1 \<delta> (apply_delta \<delta> d)"
  by (auto simp: config_follows_def)

lemma follows_change:
  assumes "config_phase c p1 \<delta>1 d" "delta_fits \<delta>1 d" "e = apply_delta \<delta>1 d" "config_locks \<delta>1 \<subseteq> config_locks \<delta> \<union> config_wants c p"
  shows "config_follows c p \<delta> d p1 \<delta>1 e"
  using assms by (auto simp: config_follows_def)

lemma stored_keys_simps [simp]:
  "stored_keys [] d" "stored_keys (s # ss) d \<longleftrightarrow> sc_key s \<in> schema_key ` set (schemas d) \<and> stored_keys ss d"
  "stored_keys (ss @ rest) d \<longleftrightarrow> stored_keys ss d \<and> stored_keys rest d"
  by (auto simp: stored_keys_def)

lemma stored_keys_mono: "stored_keys ss d \<Longrightarrow> schema_key ` set (schemas d) \<subseteq> schema_key ` set (schemas e) \<Longrightarrow> stored_keys ss e"
  by (auto simp: stored_keys_def)

lemma ensured_stored: "ensured f64 (schemas d) s \<Longrightarrow> sc_key s \<in> schema_key ` set (schemas d)"
  using row_at_None [of schema_key "sc_key s" "schemas d"] by (auto simp: ensured_def)

lemma phase_ensuring:
  "dl_dep \<delta> = None \<Longrightarrow> dl_gen \<delta> = None \<Longrightarrow> quiet \<delta> \<Longrightarrow> stored_keys past (apply_delta \<delta> d) \<Longrightarrow> ss = past @ rest \<Longrightarrow>
     config_phase (RegisterGeneration description ss activate h) (ensuring rest) \<delta> d"
  by (cases rest) (auto simp: config_phase_def)

lemma phase_deciding:
  "dl_dep \<delta> = None \<Longrightarrow> quiet \<delta> \<Longrightarrow> registers ss h (cg_id row) \<delta> d \<Longrightarrow>
     config_phase (RegisterGeneration description ss activate h) (deciding activate row) \<delta> d"
  by (auto simp: config_phase_def deciding_def quiet_def)

lemma phase_linking:
  assumes "dl_dep \<delta> = None" "quiet \<delta>" "dl_gen \<delta> = Some row" "cg_identity_hash row = h" "stored_keys ss (apply_delta \<delta> d)"
    "ss = past @ rest" "k = length past" "dl_refs \<delta> = generation_rows (cg_id row) 0 past"
  shows "config_phase (RegisterGeneration description ss activate h) (linking activate row k rest) \<delta> d"
proof (cases rest)
  case Nil
  then have "registers ss h (cg_id row) \<delta> d" using assms by (auto simp: registers_def set_all_generations)
  then show ?thesis using Nil phase_deciding [OF assms(1,2)] by simp
qed (use assms in \<open>auto simp: config_phase_def\<close>)

lemma follows_store:
  assumes "delta_fits \<delta> d" "config_phase c (Storing s spec rest) \<delta> d" "c = RegisterGeneration description ss activate h"
    "ensure_store s spec rest v = (Inr (p1, f), v')" "db v = apply_delta \<delta> d"
  shows "config_follows c (Storing s spec rest) \<delta> d p1 (f \<delta>) (db v')"
proof -
  let ?new = "new_schemas s spec (db v)"
  note r = ensure_store_Inr [OF assms(4)]
  have f: "f \<delta> = \<delta>\<lparr>dl_schemas := dl_schemas \<delta> @ ?new\<rparr>" and p: "p1 = ensuring rest" using r by simp_all
  have s: "sc_key s \<in> schema_key ` set (schemas (db v'))" using r by blast
  obtain past where ph: "dl_dep \<delta> = None" "quiet \<delta>" "dl_gen \<delta> = None" "ss = past @ s # rest" "stored_keys past (apply_delta \<delta> d)"
    using assms(2,3) by (auto simp: config_phase_def)
  have e: "db v' = apply_delta (f \<delta>) d" using r assms(5) ph(2,3) by (simp add: f apply_delta_def switched_def quiet_def)
  have "distinct (map schema_key (schemas d @ dl_schemas (f \<delta>)))"
    using delta_fitsD(1) [OF assms(1)] assms(5) by (auto simp: f new_schemas_def row_at_None split: option.splits)
  moreover have "refs_ok (cg_id ` set_option (dl_gen \<delta>)) (schema_key ` set (schemas d @ dl_schemas (f \<delta>))) (dl_refs \<delta>)"
    using delta_fitsD(7) [OF assms(1)] by (rule refs_ok_mono) (auto simp: f)
  ultimately have "delta_fits (f \<delta>) d" using assms(1) unfolding delta_fits_def by (simp add: f)
  moreover have "stored_keys past (apply_delta (f \<delta>) d)" by (rule stored_keys_mono [OF ph(5)]) (auto simp: f)
  moreover have "sc_key s \<in> schema_key ` set (schemas (apply_delta (f \<delta>) d))" using s unfolding e .
  ultimately have "delta_fits (f \<delta>) d" "stored_keys (past @ [s]) (apply_delta (f \<delta>) d)" by simp_all
  moreover from this(2) have "config_phase c p1 (f \<delta>) d"
    using ph(1-4) unfolding assms(3) p by (intro phase_ensuring) (auto simp: f quiet_def simp del: apply_delta_simps)
  ultimately show ?thesis by (intro follows_change) (auto simp: e f config_locks_def new_schemas_def split: option.splits if_splits)
qed


lemma follows_insert:
  assumes "delta_fits \<delta> d" "config_ok d" "config_phase c Inserting \<delta> d" "c = RegisterGeneration description ss activate h"
    "q_InsertConfigGeneration h description v = (Inr row, v')" "db v = apply_delta \<delta> d"
  shows "config_follows c Inserting \<delta> d (linking activate row 0 ss) (\<delta>\<lparr>dl_gen := Some row\<rparr>) (db v')"
proof -
  let ?n = "generation_seq d + 1"
  let ?d1 = "d\<lparr>generation_seq := ?n\<rparr>" and ?\<delta>1 = "\<delta>\<lparr>dl_gen := Some row\<rparr>"
  have r: "row = new_generation h description (sql_now v) (apply_delta \<delta> d)" "h \<notin> cg_identity_hash ` set (generations (db v))"
    and v': "db v' = (apply_delta \<delta> d)\<lparr>generation_seq := ?n, generations := generations (apply_delta \<delta> d) @ [row]\<rparr>"
    using assms(5) unfolding q_InsertConfigGeneration_iff by (simp_all add: assms(6))
  have row: "cg_id row = ?n" "cg_identity_hash row = h" "\<not> cg_active row" by (simp_all add: r(1) new_generation_def)
  have ph: "dl_dep \<delta> = None" "quiet \<delta>" "dl_gen \<delta> = None" "stored_keys ss (apply_delta \<delta> d)"
    using assms(3,4) by (auto simp: config_phase_def)
  have refs: "dl_refs \<delta> = []" using delta_fitsD(7) [OF assms(1)] ph(3) by (cases "dl_refs \<delta>") (auto simp: refs_ok_def)
  have e: "db v' = apply_delta ?\<delta>1 ?d1" unfolding v' by (rule db.equality) (use ph(1-3) in \<open>simp_all add: quiet_def apply_delta_def\<close>)
  have "h \<notin> cg_identity_hash ` set (generations d)" using r(2) assms(6) ph(2) by (simp add: quiet_def ph(3))
  moreover have "?n \<notin> cg_id ` set (generations d)" "0 \<le> generation_seq d"
    using assms(2) unfolding config_ok_def by (auto dest: generations_okD)
  ultimately have "delta_fits ?\<delta>1 ?d1"
    using assms(1) refs row ph(2) by (simp add: delta_fits_def refs_ok_def quiet_def)
  moreover have "config_phase c (linking activate row 0 ss) ?\<delta>1 ?d1"
    unfolding assms(4) by (rule phase_linking [where past = "[]"])
      (use ph refs row stored_keys_mono [OF ph(4)] in \<open>auto simp: quiet_def\<close>)
  moreover have "config_locks ?\<delta>1 \<subseteq> config_locks \<delta> \<union> config_wants c Inserting \<union> IdL ` {n. generation_seq d < n}"
    by (auto simp: config_locks_def generation_locks_def assms(4) row)
  moreover have "generation_seq (db v') = ?n" by (simp add: v')
  ultimately show ?thesis unfolding config_follows_def Let_def using e by (metis less_add_one less_imp_le)
qed

lemma follows_link:
  assumes "delta_fits \<delta> d" "config_phase c (Linking row k (s # rest)) \<delta> d" "c = RegisterGeneration description ss activate h"
    "r = \<lparr>cgs_generation_id = cg_id row, cgs_name = sc_Name s, cgs_version = sc_Version s, cgs_ordinal = int32 k\<rparr>"
    "q_InsertConfigGenerationSchema r v = (Inr a, v')" "db v = apply_delta \<delta> d"
  shows "config_follows c (Linking row k (s # rest)) \<delta> d (linking activate row (Suc k) rest) (\<delta>\<lparr>dl_refs := dl_refs \<delta> @ [r]\<rparr>) (db v')"
proof -
  let ?\<delta>1 = "\<delta>\<lparr>dl_refs := dl_refs \<delta> @ [r]\<rparr>"
  obtain past where ph: "dl_dep \<delta> = None" "quiet \<delta>" "dl_gen \<delta> = Some row" "cg_identity_hash row = h" "stored_keys ss (apply_delta \<delta> d)"
    "ss = past @ s # rest" "k = length past" "dl_refs \<delta> = generation_rows (cg_id row) 0 past"
    using assms(2,3) by (auto simp: config_phase_def)
  note q = assms(5) [unfolded q_InsertConfigGenerationSchema_iff]
  have e: "db v' = apply_delta ?\<delta>1 d" using q assms(6) by (simp add: apply_delta_def switched_def)
  have "refs_ok (cg_id ` set_option (dl_gen \<delta>)) (schema_key ` set (schemas d @ dl_schemas \<delta>)) (dl_refs \<delta> @ [r])"
    by (rule refs_ok_snoc [OF delta_fitsD(7) [OF assms(1)]]) (use q assms(4,6) ph(3) in auto)
  then have "delta_fits ?\<delta>1 d" using assms(1) by (simp add: delta_fits_def)
  moreover have "generation_rows (cg_id row) 0 (past @ [s]) = generation_rows (cg_id row) 0 past @ [r]"
    by (simp add: generation_rows_def assms(4) ph(7))
  then have "config_phase c (linking activate row (Suc k) rest) ?\<delta>1 d"
    unfolding assms(3) by (intro phase_linking [where past = "past @ [s]"])
      (use ph stored_keys_mono [OF ph(5)] in \<open>auto simp: quiet_def\<close>)
  ultimately show ?thesis by (intro follows_change) (auto simp: e config_locks_def)
qed


lemma register_phase_target: "progress_target p = Some i \<Longrightarrow> register_phase ss h p \<delta> d \<longleftrightarrow> registers ss h i \<delta> d"
  by (cases p) auto

lemma registers_cong:
  "dl_schemas \<epsilon> = dl_schemas \<delta> \<Longrightarrow> dl_gen \<epsilon> = dl_gen \<delta> \<Longrightarrow> dl_refs \<epsilon> = dl_refs \<delta> \<Longrightarrow> registers ss h i \<epsilon> d \<longleftrightarrow> registers ss h i \<delta> d"
  by (simp add: registers_def stored_keys_def all_generations_def)

lemma call_phase_switch:
  assumes "call_phase c p \<delta> d" "progress_target p = Some i" "p \<noteq> Registered i" "progress_target q = Some i"
    "dl_schemas \<epsilon> = dl_schemas \<delta>" "dl_gen \<epsilon> = dl_gen \<delta>" "dl_refs \<epsilon> = dl_refs \<delta>" "dl_dep \<epsilon> = dl_dep \<delta>"
  shows "call_phase c q \<epsilon> d"
  using assms by (cases c) (auto simp: register_phase_target registers_cong [of \<epsilon> \<delta>] no_rows_def)

lemma target_stored:
  "call_phase c p \<delta> d \<Longrightarrow> progress_target p = Some i \<Longrightarrow> p \<noteq> Registered i \<Longrightarrow> i \<in> cg_id ` set (all_generations \<delta> d)"
  by (cases c) (auto simp: register_phase_target registers_def set_all_generations)

lemma follows_sweep:
  assumes "delta_fits \<delta> d" "config_phase c (Sweeping i S) \<delta> d" "deactivate_change i S v = (Inr (p1, f), v')" "db v = apply_delta \<delta> d"
  shows "config_follows c (Sweeping i S) \<delta> d p1 (f \<delta>) (db v')"
proof -
  let ?off = "still_active S (db v)"
  have r: "p1 = Activating i" "f \<delta> = \<delta>\<lparr>dl_off := dl_off \<delta> \<union> ?off\<rparr>"
    "db v' = (db v)\<lparr>generations := map (\<lambda>g. if cg_active g \<and> cg_id g \<in> S then g\<lparr>cg_active := False\<rparr> else g) (generations (db v))\<rparr>"
    using assms(3) by (auto simp: deactivate_change_def bindM_Inr_iff run_stmt_Inr_iff)
  have ph: "quiet \<delta>" "i \<notin> S" "call_phase c (Sweeping i S) \<delta> d" using assms(2) by (simp_all add: config_phase_def)
  have off: "?off \<subseteq> S" by (auto simp: still_active_def)
  have quiet: "switched \<delta> g = g" for g using ph(1) by (simp add: quiet_def)
  have sw: "(if cg_active g \<and> cg_id g \<in> S then g\<lparr>cg_active := False\<rparr> else g) = switched (f \<delta>) g"
    if "g \<in> set (all_generations \<delta> d)" for g
  proof -
    have "cg_id g \<in> ?off" if "cg_active g" "cg_id g \<in> S"
      using that \<open>g \<in> _\<close> unfolding still_active_def assms(4) generations_applied by (force simp: quiet)
    then show ?thesis
      using off ph(1) by (cases "cg_active g") (auto simp: r(2) switched_def quiet_def Let_def generation_frozen)
  qed
  have "generations (db v') = map (\<lambda>g. if cg_active g \<and> cg_id g \<in> S then g\<lparr>cg_active := False\<rparr> else g) (all_generations \<delta> d)"
    by (simp add: r(3) assms(4) generations_applied quiet del: apply_delta_simps)
  also have "\<dots> = map (switched (f \<delta>)) (all_generations \<delta> d)" using sw by (rule map_cong [OF refl])
  also have "all_generations \<delta> d = all_generations (f \<delta>) d" by (simp add: all_generations_def r(2))
  finally have gens: "generations (db v') = generations (apply_delta (f \<delta>) d)" unfolding generations_applied .
  have e: "db v' = apply_delta (f \<delta>) d"
    by (rule db.equality) (use gens in \<open>simp_all add: r assms(4) apply_delta_def\<close>)
  have "delta_fits (f \<delta>) d" using assms(1) ph(1) by (simp add: delta_fits_def r(2) quiet_def)
  moreover have "call_phase c (Activating i) (f \<delta>) d" by (rule call_phase_switch [OF ph(3)]) (simp_all add: r(2))
  then have "config_phase c p1 (f \<delta>) d"
    using ph off by (auto simp: config_phase_def r quiet_def)
  ultimately show ?thesis using e off by (intro follows_change) (auto simp: r(2) config_locks_def)
qed

lemma follows_activate:
  assumes "delta_fits \<delta> d" "config_phase c (Activating i) \<delta> d" "q_ActivateConfigGeneration i v = (Inr a, v')" "db v = apply_delta \<delta> d"
  shows "config_follows c (Activating i) \<delta> d (Announcing i) (\<delta>\<lparr>dl_on := Some (i, sql_now v)\<rparr>) (db v')"
proof -
  let ?\<delta>1 = "\<delta>\<lparr>dl_on := Some (i, sql_now v)\<rparr>"
  have ph: "dl_on \<delta> = None" "i \<notin> dl_off \<delta>" "dl_notes \<delta> = []" "call_phase c (Activating i) \<delta> d"
    using assms(2) by (simp_all add: config_phase_def)
  have i: "i \<in> cg_id ` set (generations (db v))"
    using target_stored [OF ph(4)] unfolding assms(4) set_generations_applied by (auto simp: set_all_generations)
  then have v': "\<not> other_active i (db v)" "db v' = (db v)\<lparr>generations := map (\<lambda>g. if cg_id g = i
       then g\<lparr>cg_active := True, cg_activated_at := Some (sql_now v)\<rparr> else g) (generations (db v))\<rparr>"
    using assms(3) by (auto simp: q_ActivateConfigGeneration_def run_stmt_Inr_iff split: if_splits)
  have sw: "(if cg_id (switched \<delta> g) = i then (switched \<delta> g)\<lparr>cg_active := True, cg_activated_at := Some (sql_now v)\<rparr> else switched \<delta> g) =
      switched ?\<delta>1 g" for g
    using ph(1) by (auto simp: switched_def Let_def)
  have "all_generations ?\<delta>1 d = all_generations \<delta> d" by (simp add: all_generations_def)
  then have gens: "generations (db v') = generations (apply_delta ?\<delta>1 d)"
    unfolding v'(2) assms(4) generations_applied using sw by simp
  have e: "db v' = apply_delta ?\<delta>1 d"
    by (rule db.equality) (use gens in \<open>simp_all add: v'(2) assms(4) apply_delta_def\<close>)
  have "cg_id g = i \<or> cg_id g \<in> dl_off \<delta>" if "g \<in> set (generations d)" "cg_active g" for g
  proof (rule ccontr)
    assume no: "\<not> (cg_id g = i \<or> cg_id g \<in> dl_off \<delta>)"
    then have "switched \<delta> g = g" using ph(1) by (simp add: switched_def)
    moreover have "switched \<delta> g \<in> set (generations (db v))" using that(1) by (simp add: assms(4))
    ultimately show False using v'(1) that(2) no unfolding other_active_def by auto
  qed
  then have "delta_fits ?\<delta>1 d" using assms(1) by (simp add: delta_fits_def)
  moreover have "call_phase c (Announcing i) ?\<delta>1 d" by (rule call_phase_switch [OF ph(4)]) simp_all
  then have "config_phase c (Announcing i) ?\<delta>1 d" using ph(3) by (simp add: config_phase_def)
  ultimately show ?thesis using e by (intro follows_change) (auto simp: config_locks_def active_locks_def)
qed


lemma phase_start: "config_phase c (config_start c) no_change d"
proof (cases c)
  case (RegisterGeneration description ss activate h)
  show ?thesis
    unfolding RegisterGeneration config_start.simps by (rule phase_ensuring [where past = "[]"]) (simp_all add: quiet_def no_change_def)
qed (simp_all add: config_phase_def quiet_def no_rows_def no_change_def)

lemma delta_fits_start: "config_ok d \<Longrightarrow> delta_fits no_change d"
  by (simp add: config_ok_def delta_fits_def no_change_def refs_ok_def)

lemma registers_stored:
  assumes "row_at cg_identity_hash h (generations (apply_delta \<delta> d)) = Some row" "dl_gen \<delta> = None" "stored_keys ss (apply_delta \<delta> d)"
  shows "registers ss h (cg_id row) \<delta> d"
proof -
  obtain g where "row = switched \<delta> g" "g \<in> set (all_generations \<delta> d)" "cg_identity_hash row = h"
    using row_at_SomeD [OF assms(1)] unfolding generations_applied by auto
  then show ?thesis using assms(2,3) by (auto simp: registers_def)
qed

lemma follows_notes:
  assumes "delta_fits \<delta> d" "config_phase c q (\<delta>\<lparr>dl_notes := dl_notes \<delta> @ x\<rparr>) d"
  shows "config_follows c p \<delta> d q (\<delta>\<lparr>dl_notes := dl_notes \<delta> @ x\<rparr>) ((apply_delta \<delta> d)\<lparr>outbox := outbox d @ dl_notes \<delta> @ x\<rparr>)"
  using assms by (intro follows_change)
    (simp_all add: delta_fits_def apply_delta_def switched_def config_locks_def)

lemma register_follows:
  assumes "delta_fits \<delta> d" "config_ok d" "config_phase c p \<delta> d" "c = RegisterGeneration description ss activate h" "progress_target p = None"
    "config_advance f64 c p v = (Inr (q, f), v')" "db v = apply_delta \<delta> d"
  shows "config_follows c p \<delta> d q (f \<delta>) (db v')"
proof (cases p)
  case (Ensuring rest)
  then obtain s rest' where p: "p = Ensuring (s # rest')" using assms(4,6) by (cases rest) auto
  then obtain past where ph: "quiet \<delta>" "dl_gen \<delta> = None" "dl_dep \<delta> = None" "ss = past @ s # rest'" "stored_keys past (apply_delta \<delta> d)"
    using assms(3,4) by (auto simp: config_phase_def)
  note r = ensure_lookup_Inr [of f64 s rest' v q f v']
  have "f = id" "db v' = db v" and q: "(\<exists>spec. q = Storing s spec rest') \<or> q = ensuring rest' \<and> sc_key s \<in> schema_key ` set (schemas (db v))"
    using r assms(4,6) p ensured_stored by auto
  moreover have "config_phase c q \<delta> d"
    using q
  proof (elim disjE exE conjE)
    fix spec assume "q = Storing s spec rest'"
    then show ?thesis using ph by (auto simp: config_phase_def assms(4))
  next
    assume "q = ensuring rest'" "sc_key s \<in> schema_key ` set (schemas (db v))"
    then show ?thesis using ph unfolding assms(4,7) by (auto intro: phase_ensuring [where past = "past @ [s]"])
  qed
  ultimately show ?thesis using follows_read [OF assms(1)] assms(7) by simp
next
  case (Storing s spec rest)
  then show ?thesis using follows_store [OF assms(1) _ assms(4) _ assms(7)] assms(3,4,6) by simp
next
  case Hashing
  have ph: "quiet \<delta>" "dl_gen \<delta> = None" "dl_dep \<delta> = None" "stored_keys ss (apply_delta \<delta> d)"
    using assms(3,4) Hashing by (auto simp: config_phase_def)
  have "f = id \<and> db v' = db v \<and> (q = Inserting \<or> (\<exists>row. q = deciding activate row \<and> row_at cg_identity_hash h (generations (db v)) = Some row))"
    using assms(4,6) Hashing
    by (auto simp: catchM_Inr_iff q_GetConfigGenerationByIdentityHash_def run_stmt_def split: if_splits option.splits)
  moreover have "config_phase c Inserting \<delta> d" using ph by (simp add: config_phase_def assms(4))
  moreover have "config_phase c (deciding activate row) \<delta> d"
    if "row_at cg_identity_hash h (generations (db v)) = Some row" for row
    unfolding assms(4) by (rule phase_deciding [OF ph(3,1) registers_stored [OF that [unfolded assms(7)] ph(2,4)]])
  ultimately have "f = id" "db v' = db v" "config_phase c q \<delta> d" by auto
  then show ?thesis using follows_read [OF assms(1)] assms(7) by simp
next
  case Inserting
  then show ?thesis using follows_insert [OF assms(1,2) _ assms(4) _ assms(7)] assms(3,4,6) by (auto simp: bindM_Inr_iff)
next
  case (Linking row k rest)
  then obtain s rest' where p: "p = Linking row k (s # rest')" using assms(4,6) by (cases rest) auto
  then show ?thesis using follows_link [OF assms(1) _ assms(4) refl _ assms(7)] assms(3,4,6) by (auto simp: bindM_Inr_iff Let_def)
qed (use assms in \<open>auto simp: config_phase_def\<close>)

lemma switch_follows:
  assumes "delta_fits \<delta> d" "config_phase c p \<delta> d" "progress_target p = Some i" "config_advance f64 c p v = (Inr (q, f), v')" "db v = apply_delta \<delta> d"
  shows "config_follows c p \<delta> d q (f \<delta>) (db v')"
proof -
  have ph: "switch_phase p \<delta>" "call_phase c p \<delta> d" using assms(2) by (simp_all add: config_phase_def)
  show ?thesis
  proof (cases p)
    case (Deactivating j)
    then have r: "f = id" "db v' = db v" "q = Sweeping i (cg_id ` {g \<in> set (generations (db v)). cg_active g \<and> cg_id g \<noteq> i})"
      using assms(3,4) by (auto simp: deactivate_find_def)
    have "call_phase c q \<delta> d" by (rule call_phase_switch [OF ph(2) assms(3)]) (simp_all add: r Deactivating)
    then have "config_phase c q \<delta> d" using ph(1) Deactivating by (auto simp: config_phase_def r)
    then show ?thesis using follows_read [OF assms(1)] assms(5) r by simp
  next
    case (Sweeping j S)
    then show ?thesis using follows_sweep [OF assms(1) _ _ assms(5)] assms(2,4) by simp
  next
    case (Activating j)
    then show ?thesis using follows_activate [OF assms(1) _ _ assms(5)] assms(2,4) by (auto simp: bindM_Inr_iff)
  next
    case (Announcing j)
    then have r: "q = Registered i" "f \<delta> = \<delta>\<lparr>dl_notes := dl_notes \<delta> @ [(NotifyChannelSchemaUpdate, SchemaEvent ''activated'')]\<rparr>"
      "db v' = (db v)\<lparr>outbox := outbox (db v) @ [(NotifyChannelSchemaUpdate, SchemaEvent ''activated'')]\<rparr>"
      using assms(3,4) by (auto simp: bindM_Inr_iff notifySchemasUpdated_def pgNotify_iff)
    have "call_phase c q (f \<delta>) d" by (rule call_phase_switch [OF ph(2) assms(3)]) (simp_all add: r Announcing)
    then have "config_phase c q (f \<delta>) d" using ph(1) Announcing assms(3) by (auto simp: config_phase_def r)
    then show ?thesis using follows_notes [OF assms(1)] by (simp add: r assms(5))
  next
    case (Registered j)
    then show ?thesis using assms(4) by simp
  qed (use assms(3) in simp_all)
qed


lemma config_follows_advance:
  assumes "delta_fits \<delta> d" "config_ok d" "config_phase c p \<delta> d" "config_advance f64 c p v = (Inr (q, f), v')" "db v = apply_delta \<delta> d"
  shows "config_follows c p \<delta> d q (f \<delta>) (db v')"
proof (cases "progress_target p")
  case (Some i)
  then show ?thesis by (rule switch_follows [OF assms(1,3) _ assms(4,5)])
next
  case None
  show ?thesis
  proof (cases c)
    case (RegisterGeneration description ss activate h)
    then show ?thesis by (rule register_follows [OF assms(1-3) _ None assms(4,5)])
  next
    case (ActivateGeneration i)
    then have p: "p = Fetching" and ph: "no_rows \<delta>" "dl_dep \<delta> = None" "quiet \<delta>"
      using assms(3) None by (auto simp: config_phase_def)
    have r: "f = id \<and> db v' = db v \<and> (q = Deactivating i \<or> q = Registered i) \<and> i \<in> cg_id ` set (generations (db v))"
      using assms(4) unfolding p ActivateGeneration
      by (auto simp: catchM_Inr_iff q_GetConfigGeneration_def run_stmt_def dest: row_at_SomeD split: if_splits option.splits)
    moreover from r have "i \<in> cg_id ` set (generations d)"
      using ph(1,3) by (simp add: assms(5) no_rows_def quiet_def)
    then have "config_phase c q \<delta> d" using r ph by (auto simp: config_phase_def ActivateGeneration quiet_def)
    ultimately show ?thesis using follows_read [OF assms(1)] assms(5) by simp
  next
    case (SetDeprecation label enforced)
    then consider "p = Labelling" "dl_dep \<delta> = None" | "p = LabelNoting" "dl_dep \<delta> = Some (label, enforced)"
      using assms(3) None by (auto simp: config_phase_def)
    then show ?thesis
    proof cases
      case 1
      have ph: "no_rows \<delta>" "quiet \<delta>" using assms(3) 1(1) SetDeprecation by (auto simp: config_phase_def)
      have r: "q = LabelNoting" "f \<delta> = \<delta>\<lparr>dl_dep := Some (label, enforced)\<rparr>"
        "db v' = (db v)\<lparr>deprecations := put_row dep_label \<lparr>dep_label = label, dep_enforced = enforced\<rparr> (deprecations (db v))\<rparr>"
        using assms(4) 1(1) SetDeprecation by (auto simp: bindM_Inr_iff q_UpsertDeprecation_def run_stmt_Inr_iff)
      have "db v' = apply_delta (f \<delta>) d"
        by (rule db.equality) (use 1(2) in \<open>simp_all add: r assms(5) apply_delta_def switched_def\<close>)
      moreover have "delta_fits (f \<delta>) d" using assms(1) by (simp add: delta_fits_def r(2))
      moreover have "config_phase c q (f \<delta>) d" using ph by (simp add: config_phase_def SetDeprecation r quiet_def no_rows_def)
      ultimately show ?thesis
        by (intro follows_change) (auto simp: r(2) config_locks_def label_locks_def SetDeprecation 1(1))
    next
      case 2
      have ph: "no_rows \<delta>" "quiet \<delta>" using assms(3) 2(1) SetDeprecation by (auto simp: config_phase_def)
      have r: "q = Registered 0" "f \<delta> = \<delta>\<lparr>dl_notes := dl_notes \<delta> @ [(NotifyChannelDeprecationUpdate, DeprecationEvent label)]\<rparr>"
        "db v' = (db v)\<lparr>outbox := outbox (db v) @ [(NotifyChannelDeprecationUpdate, DeprecationEvent label)]\<rparr>"
        using assms(4) 2(1) SetDeprecation by (auto simp: bindM_Inr_iff pgNotify_iff)
      have "config_phase c q (f \<delta>) d" using ph 2(2) by (simp add: config_phase_def SetDeprecation r quiet_def no_rows_def)
      then show ?thesis using follows_notes [OF assms(1)] by (simp add: r assms(5))
    qed
  qed
qed

text \<open>What is stored grows, and that is all a transaction has relied on.\<close>

definition config_grows :: "db \<Rightarrow> db \<Rightarrow> bool" where
  "config_grows d e \<longleftrightarrow> schema_key ` set (schemas d) \<subseteq> schema_key ` set (schemas e) \<and>
     (\<lambda>g. (cg_id g, cg_identity_hash g)) ` set (generations d) \<subseteq> (\<lambda>g. (cg_id g, cg_identity_hash g)) ` set (generations e)"

lemma grows_stored: "config_grows d e \<Longrightarrow> stored_keys ss (apply_delta \<delta> d) \<Longrightarrow> stored_keys ss (apply_delta \<delta> e)"
  by (erule stored_keys_mono) (auto simp: config_grows_def)

lemma grows_ids: "config_grows d e \<Longrightarrow> i \<in> cg_id ` set (generations d) \<Longrightarrow> i \<in> cg_id ` set (generations e)"
  unfolding config_grows_def by force

lemma grows_generations:
  assumes "config_grows d e"
  shows "(\<lambda>g. (cg_id g, cg_identity_hash g)) ` set (all_generations \<delta> d) \<subseteq> (\<lambda>g. (cg_id g, cg_identity_hash g)) ` set (all_generations \<delta> e)"
  using assms by (auto simp: config_grows_def set_all_generations)

lemma grows_registers:
  assumes "config_grows d e" "registers ss h i \<delta> d"
  shows "registers ss h i \<delta> e"
  using assms(2) grows_stored [OF assms(1)] subsetD [OF grows_generations [OF assms(1)]] by (simp add: registers_def)

lemma phase_grows:
  assumes "config_grows d e" "config_phase c p \<delta> d"
  shows "config_phase c p \<delta> e"
proof -
  have "register_phase ss h p \<delta> e" if "register_phase ss h p \<delta> d" for ss h
    using that grows_stored [OF assms(1)] grows_registers [OF assms(1)] by (cases p) fastforce+
  then show ?thesis using assms grows_ids [OF assms(1)] unfolding config_phase_def by (cases c) auto
qed

lemma grows_applied: "config_grows d (apply_delta \<delta> d)"
proof -
  have "(\<lambda>g. (cg_id g, cg_identity_hash g)) ` set (generations (apply_delta \<delta> d)) = (\<lambda>g. (cg_id g, cg_identity_hash g)) ` set (all_generations \<delta> d)"
    unfolding generations_applied by (simp add: image_image)
  then show ?thesis unfolding config_grows_def by (simp add: set_all_generations image_Un del: apply_delta_simps(2))
qed

lemma grows_alone: "config_alone d e \<Longrightarrow> config_grows d e"
  by (simp add: config_alone_def config_grows_def)


section \<open>The invariant\<close>

definition tx_fits :: "config_tx \<Rightarrow> db \<Rightarrow> bool" where
  "tx_fits x d \<longleftrightarrow> delta_fits (k_delta x) d \<and> config_phase (k_call x) (k_progress x) (k_delta x) d"

definition configs_ok :: "config_machine \<Rightarrow> bool" where
  "configs_ok m \<longleftrightarrow>
     config_ok (km_committed m) \<and> (\<forall>t x. km_active m t = Some x \<longrightarrow> tx_fits x (km_committed m)) \<and>
     (\<forall>t t' x x'. t \<noteq> t' \<longrightarrow> km_active m t = Some x \<longrightarrow> km_active m t' = Some x' \<longrightarrow> config_locks (k_delta x) \<inter> config_locks (k_delta x') = {})"

lemma configs_okD:
  assumes "configs_ok m"
  shows "config_ok (km_committed m)" "km_active m t = Some x \<Longrightarrow> tx_fits x (km_committed m)"
    "t \<noteq> t' \<Longrightarrow> km_active m t = Some x \<Longrightarrow> km_active m t' = Some x' \<Longrightarrow> config_locks (k_delta x) \<inter> config_locks (k_delta x') = {}"
  using assms unfolding configs_ok_def by blast+

lemma configs_okI:
  assumes "config_ok (km_committed m)" "\<And>t x. km_active m t = Some x \<Longrightarrow> tx_fits x (km_committed m)"
    "\<And>t t' x x'. t \<noteq> t' \<Longrightarrow> km_active m t = Some x \<Longrightarrow> km_active m t' = Some x' \<Longrightarrow> config_locks (k_delta x) \<inter> config_locks (k_delta x') = {}"
  shows "configs_ok m"
  using assms unfolding configs_ok_def by blast

lemma tx_fits_alone:
  "tx_fits x d \<Longrightarrow> config_alone d e \<Longrightarrow> generation_seq d \<le> generation_seq e \<Longrightarrow> tx_fits x e"
  using fits_alone phase_grows grows_alone unfolding tx_fits_def by blast

lemma tx_fits_other:
  "tx_fits x d \<Longrightarrow> tx_fits y d \<Longrightarrow> config_locks (k_delta x) \<inter> config_locks (k_delta y) = {} \<Longrightarrow> tx_fits x (apply_delta (k_delta y) d)"
  using fits_other phase_grows grows_applied unfolding tx_fits_def by blast

lemma config_ok_seq: "config_ok d \<Longrightarrow> generation_seq d \<le> n \<Longrightarrow> config_ok (d\<lparr>generation_seq := n\<rparr>) \<and> config_kept d (d\<lparr>generation_seq := n\<rparr>)"
  using sequence_gap_step by (simp add: config_step_def)

lemma configs_ok_end:
  assumes "configs_ok m"
  shows "configs_ok (end_config t m)"
  by (rule configs_okI) (use configs_okD [OF assms] in \<open>auto split: if_splits\<close>)

lemma configs_ok_put:
  assumes "configs_ok m" "tx_fits y (km_committed m)"
    and "\<And>t' x'. t' \<noteq> t \<Longrightarrow> km_active m t' = Some x' \<Longrightarrow> config_locks (k_delta y) \<inter> config_locks (k_delta x') = {}"
  shows "configs_ok (put_config t y m)"
proof (rule configs_okI)
  fix i j a b
  assume "i \<noteq> j" "km_active (put_config t y m) i = Some a" "km_active (put_config t y m) j = Some b"
  then show "config_locks (k_delta a) \<inter> config_locks (k_delta b) = {}"
    using configs_okD(3) [OF assms(1), of i j a b] assms(3) [of j b] assms(3) [of i a] by (auto split: if_splits)
qed (use configs_okD [OF assms(1)] assms(2) in \<open>auto split: if_splits\<close>)

lemma configs_ok_committed:
  assumes "configs_ok m" "config_ok d" "\<And>t x. km_active m t = Some x \<Longrightarrow> tx_fits x (km_committed m) \<Longrightarrow> tx_fits x d"
  shows "configs_ok (m\<lparr>km_committed := d\<rparr>)"
  by (rule configs_okI) (use configs_okD [OF assms(1)] assms(2,3) in auto)

lemma configs_ok_draw:
  assumes "configs_ok m" "generation_seq (km_committed m) \<le> n"
  shows "configs_ok (draw_to n m)"
  unfolding draw_to_def
  by (rule configs_ok_committed [OF assms(1)])
    (use config_ok_seq [OF configs_okD(1) [OF assms(1)] assms(2)] assms(2) in \<open>auto intro: tx_fits_alone simp: config_alone_def\<close>)

lemma drawn_ids:
  assumes "tx_fits x d" "IdL n \<in> config_locks (k_delta x)"
  shows "n \<le> generation_seq d"
  using assms delta_fitsD(4) [of "k_delta x" d]
  by (auto simp: tx_fits_def config_locks_def option_locks split: option.splits)

lemma configs_ok_rounded:
  assumes "rounded_step f64 m m'" "configs_ok m"
  shows "configs_ok m' \<and> config_kept (km_committed m) (km_committed m')"
  using assms(1)
proof (cases rule: rounded_step.cases)
  case (began t c now)
  have "configs_ok m'"
    unfolding began(1) by (rule configs_ok_put [OF assms(2)])
      (use configs_okD(1) [OF assms(2)] in \<open>simp_all add: tx_fits_def delta_fits_start phase_start\<close>, simp add: config_locks_def option_locks no_change_def)
  then show ?thesis by (simp add: began(1))
next
  case (ran t x v p f v')
  let ?d = "km_committed m" and ?n = "generation_seq (db v')"
  have fits: "delta_fits (k_delta x) ?d" "config_phase (k_call x) (k_progress x) (k_delta x) ?d"
    using configs_okD(2) [OF assms(2) ran(2)] by (simp_all add: tx_fits_def)
  have f: "config_follows (k_call x) (k_progress x) (k_delta x) ?d p (f (k_delta x)) (db v')"
    by (rule config_follows_advance [OF fits(1) configs_okD(1) [OF assms(2)] fits(2) ran(6)]) (simp add: ran(4) config_view_def)
  then have n: "generation_seq ?d \<le> ?n" by (simp add: config_follows_def Let_def)
  have "config_locks (f (k_delta x)) \<inter> config_locks (k_delta x') = {}" if "t' \<noteq> t" "km_active m t' = Some x'" for t' x'
  proof -
    have "config_wants (k_call x) (k_progress x) \<inter> config_locks (k_delta x') = {}" using ran(3) that unfolding config_waits_def by blast
    moreover have "config_locks (k_delta x) \<inter> config_locks (k_delta x') = {}" using configs_okD(3) [OF assms(2)] that ran(2) by metis
    moreover have "IdL ` {n. generation_seq ?d < n} \<inter> config_locks (k_delta x') = {}"
      using drawn_ids [OF configs_okD(2) [OF assms(2) that(2)]] by fastforce
    moreover have "config_locks (f (k_delta x)) \<subseteq>
        config_locks (k_delta x) \<union> config_wants (k_call x) (k_progress x) \<union> IdL ` {n. generation_seq ?d < n}"
      using f by (simp add: config_follows_def Let_def)
    ultimately show ?thesis by blast
  qed
  then have "configs_ok m'"
    unfolding ran(1) using f by (intro configs_ok_put configs_ok_draw assms(2) n) (simp_all add: config_follows_def tx_fits_def Let_def)
  then show ?thesis using config_ok_seq [OF configs_okD(1) [OF assms(2)] n] by (simp add: ran(1))
next
  case (finished t x i)
  have fits: "tx_fits x (km_committed m)" by (rule configs_okD(2) [OF assms(2) finished(2)])
  then have ok: "config_ok (config_view m x)" "config_kept (km_committed m) (config_view m x)"
    using fits_ok [OF configs_okD(1) [OF assms(2)]] fits_kept by (simp_all add: config_view_def tx_fits_def)
  have "configs_ok m'"
    unfolding finished(1)
  proof (rule configs_ok_committed [OF configs_ok_end [OF assms(2)] ok(1)])
    fix t' y assume y: "km_active (end_config t m) t' = Some y" "tx_fits y (km_committed (end_config t m))"
    then have "t' \<noteq> t" "km_active m t' = Some y" by (auto split: if_splits)
    then show "tx_fits y (config_view m x)"
      unfolding config_view_def using y(2) fits configs_okD(3) [OF assms(2) _ _ finished(2)] by (intro tx_fits_other) simp_all
  qed
  then show ?thesis using ok(2) by (simp add: finished(1))
next
  case (aborted t x)
  then show ?thesis using configs_ok_end [OF assms(2)] by simp
next
  case (elsewhere d)
  have ok: "config_ok d \<and> config_kept (km_committed m) d"
    using store_effect_config [OF store_step_effect [OF elsewhere(2)]] configs_okD(1) [OF assms(2)] by blast
  then have "configs_ok m'"
    unfolding elsewhere(1) using config_keptD(4) tx_fits_alone [OF _ elsewhere(3)] by (intro configs_ok_committed [OF assms(2)]) auto
  then show ?thesis using ok by (simp add: elsewhere(1))
qed

lemma configs_ok_step:
  "config_machine_step m m' \<Longrightarrow> configs_ok m \<Longrightarrow> configs_ok m' \<and> config_kept (km_committed m) (km_committed m')"
  unfolding config_machine_step_def using configs_ok_rounded by blast

lemma configs_ok_steps:
  "config_machine_step\<^sup>*\<^sup>* m m' \<Longrightarrow> configs_ok m \<Longrightarrow> configs_ok m' \<and> config_kept (km_committed m) (km_committed m')"
proof (induction rule: rtranclp_induct)
  case (step m1 m2)
  then show ?case using configs_ok_step [OF step.hyps(2)] config_kept_trans by blast
qed simp

text \<open>What a statement leaves is what the machine records of it, and keeps everything that is committed.\<close>

lemma statement_recorded:
  assumes "configs_ok m" "km_active m t = Some x" "db v = config_view m x"
    and "config_advance f64 (k_call x) (k_progress x) v = (Inr (p, f), v')"
  shows "db v' = apply_delta (f (k_delta x)) ((km_committed m)\<lparr>generation_seq := generation_seq (db v')\<rparr>)"
    and "config_kept (km_committed m) (db v')"
proof -
  have fits: "delta_fits (k_delta x) (km_committed m)" "config_phase (k_call x) (k_progress x) (k_delta x) (km_committed m)"
    using configs_okD(2) [OF assms(1,2)] by (simp_all add: tx_fits_def)
  have f: "config_follows (k_call x) (k_progress x) (k_delta x) (km_committed m) p (f (k_delta x)) (db v')"
    by (rule config_follows_advance [OF fits(1) configs_okD(1) [OF assms(1)] fits(2) assms(4)]) (simp add: assms(3) config_view_def)
  then show rec: "db v' = apply_delta (f (k_delta x)) ((km_committed m)\<lparr>generation_seq := generation_seq (db v')\<rparr>)"
    unfolding config_follows_def Let_def by blast
  have "config_kept (km_committed m) ((km_committed m)\<lparr>generation_seq := generation_seq (db v')\<rparr>)"
    using config_ok_seq [OF configs_okD(1) [OF assms(1)]] f unfolding config_follows_def Let_def by blast
  moreover have "config_kept ((km_committed m)\<lparr>generation_seq := generation_seq (db v')\<rparr>)
      (apply_delta (f (k_delta x)) ((km_committed m)\<lparr>generation_seq := generation_seq (db v')\<rparr>))"
    by (rule fits_kept) (use f in \<open>simp add: config_follows_def Let_def\<close>)
  ultimately have "config_kept (km_committed m) (apply_delta (f (k_delta x)) ((km_committed m)\<lparr>generation_seq := generation_seq (db v')\<rparr>))"
    by (rule config_kept_trans)
  then show "config_kept (km_committed m) (db v')" unfolding rec [symmetric] .
qed

definition idle_configs :: "config_machine" where
  "idle_configs = \<lparr>km_committed = empty_db, km_active = Map.empty\<rparr>"

definition configs_reachable :: "config_machine \<Rightarrow> bool" where
  "configs_reachable m \<longleftrightarrow> config_machine_step\<^sup>*\<^sup>* idle_configs m"

lemma configs_idle_ok: "configs_ok idle_configs"
  by (simp add: configs_ok_def idle_configs_def config_ok_empty)

lemma configs_reachable_ok: "configs_reachable m \<Longrightarrow> configs_ok m"
  unfolding configs_reachable_def using configs_ok_steps configs_idle_ok by blast

end
