(* ===== verification/Config_Interleaving_Props.thy ===== *)
theory Config_Interleaving_Props
  imports Config_Interleaving_Inv Config_Props
begin

text \<open>
  The properties of configuration transactions that interleave, and the runs that show what the code does not
  retry: two registrations that wait for each other, an activation that is refused because another one came first, and a
  registration that succeeds although its spec is not the stored one.
\<close>

section \<open>Runs of two transactions\<close>

datatype config_act = Begin config_call | Next | Commit

fun duo_act :: "nat \<Rightarrow> config_act \<Rightarrow> config_machine \<Rightarrow> config_machine option" where
  "duo_act t (Begin c) m =
     (if km_active m t = None
      then Some (put_config t \<lparr>k_call = c, k_progress = config_start c, k_delta = no_change, k_now = 0\<rparr> m) else None)"
| "duo_act t Next m =
     (case km_active m t of
        None \<Rightarrow> None
      | Some x \<Rightarrow>
          if k_now x \<noteq> 0 \<or> (case km_active m (1 - t) of None \<Rightarrow> False
               | Some y \<Rightarrow> config_wants (k_call x) (k_progress x) \<inter> config_locks (k_delta y) \<noteq> {}) then None
          else (case config_advance id (k_call x) (k_progress x) (snapshot (config_view m x)) of
              (Inl e, v) \<Rightarrow> None
            | (Inr (p, f), v) \<Rightarrow> Some (put_config t (x\<lparr>k_progress := p, k_delta := f (k_delta x)\<rparr>) (draw_to (generation_seq (db v)) m))))"
| "duo_act t Commit m =
     (case km_active m t of
        None \<Rightarrow> None
      | Some x \<Rightarrow> (case k_progress x of Registered i \<Rightarrow> Some ((end_config t m)\<lparr>km_committed := config_view m x\<rparr>) | _ \<Rightarrow> None))"

fun duo_run :: "(nat \<times> config_act) list \<Rightarrow> config_machine \<Rightarrow> config_machine option" where
  "duo_run [] m = Some m"
| "duo_run ((t, a) # as) m = (case duo_act t a m of None \<Rightarrow> None | Some m1 \<Rightarrow> duo_run as m1)"

definition at_most_two :: "config_machine \<Rightarrow> bool" where
  "at_most_two m \<longleftrightarrow> (\<forall>t. 1 < t \<longrightarrow> km_active m t = None)"

lemma duo_act_rounded:
  assumes "duo_act t a m = Some m'" "t \<le> 1" "at_most_two m"
  shows "rounded_step id m m' \<and> at_most_two m'"
proof (cases a)
  case (Begin c)
  then show ?thesis
    using assms rounded_step.began [of m t id c 0] by (auto simp: at_most_two_def split: if_splits)
next
  case Next
  then obtain x p f v where x: "km_active m t = Some x" "k_now x = 0"
    "km_active m (1 - t) = Some y \<Longrightarrow> config_wants (k_call x) (k_progress x) \<inter> config_locks (k_delta y) = {}"
    and r: "config_advance id (k_call x) (k_progress x) (snapshot (config_view m x)) = (Inr (p, f), v)"
    "m' = put_config t (x\<lparr>k_progress := p, k_delta := f (k_delta x)\<rparr>) (draw_to (generation_seq (db v)) m)" for y
    using assms(1) by (auto split: option.splits if_splits prod.splits sum.splits)
  have "s = 1 - t" if "s \<noteq> t" "km_active m s = Some y" for s y
    using that assms(2,3) unfolding at_most_two_def by (metis Suc_leI diff_0_eq_0 diff_is_0_eq' le_SucE le_zero_eq not_le_imp_less numeral_nat(7) One_nat_def diff_Suc_1' minus_nat.diff_0 option.simps(3))
  then have "\<not> config_waits m t x" using x(3) unfolding config_waits_def by metis
  then have "rounded_step id m m'" unfolding r(2) by (rule rounded_step.ran [OF x(1) _ _ _ r(1)]) (simp_all add: x(2))
  then show ?thesis using assms(2,3) by (simp add: r(2) at_most_two_def)
next
  case Commit
  then show ?thesis
    using assms rounded_step.finished [of m t] by (auto simp: at_most_two_def split: option.splits config_progress.splits)
qed

lemma duo_act_step:
  "duo_act t a m = Some m' \<Longrightarrow> t \<le> 1 \<Longrightarrow> at_most_two m \<Longrightarrow> config_machine_step m m' \<and> at_most_two m'"
  using duo_act_rounded rounded_machine_step by blast

lemma duo_run_steps:
  assumes "duo_run as m = Some m'" "list_all (\<lambda>(t, a). t \<le> 1) as" "at_most_two m"
  shows "config_machine_step\<^sup>*\<^sup>* m m' \<and> at_most_two m'"
  using assms
proof (induction as arbitrary: m)
  case (Cons ta as)
  obtain t a where ta: "ta = (t, a)" by (cases ta)
  obtain m1 where m1: "duo_act t a m = Some m1" "duo_run as m1 = Some m'"
    using Cons.prems(1) ta by (auto split: option.splits)
  have "config_machine_step m m1 \<and> at_most_two m1" using duo_act_step [OF m1(1)] Cons.prems(2,3) ta by simp
  then show ?case using Cons.IH [OF m1(2)] Cons.prems(2) by (auto intro: converse_rtranclp_into_rtranclp)
qed simp

lemma idle_two: "at_most_two idle_configs"
  by (simp add: at_most_two_def idle_configs_def)

section \<open>What holds however they interleave\<close>

definition active_ids :: "db \<Rightarrow> int set" where
  "active_ids d = cg_id ` set (filter cg_active (generations d))"

lemma active_ids_view:
  assumes "delta_fits \<delta> d"
  shows "active_ids (apply_delta \<delta> d) = (case dl_on \<delta> of
     None \<Rightarrow> active_ids d - dl_off \<delta> | Some (i, now) \<Rightarrow> {i} \<inter> cg_id ` set (all_generations \<delta> d))"
proof -
  have "g \<in> set (all_generations \<delta> d) \<Longrightarrow> cg_active (switched \<delta> g) \<longleftrightarrow> (case dl_on \<delta> of
      None \<Rightarrow> g \<in> set (generations d) \<and> cg_active g \<and> cg_id g \<notin> dl_off \<delta> | Some (i, now) \<Rightarrow> cg_id g = i)" for g
    using active_after [OF assms, of g] by (auto simp: switched_active split: option.splits)
  moreover have "active_ids (apply_delta \<delta> d) = cg_id ` {g \<in> set (all_generations \<delta> d). cg_active (switched \<delta> g)}"
    unfolding active_ids_def generations_applied by (simp add: filter_map comp_def image_image)
  ultimately show ?thesis
    by (auto simp: active_ids_def set_all_generations split: option.splits)
qed

lemma committed_target:
  assumes "config_phase c (Registered i) \<delta> d" "dl_on \<delta> = Some y"
  shows "i \<in> cg_id ` set (all_generations \<delta> d)" "fst y = i"
    "(NotifyChannelSchemaUpdate, SchemaEvent ''activated'') \<in> set (dl_notes \<delta>)"
proof -
  have "switch_phase (Registered i) \<delta>" and call: "call_phase c (Registered i) \<delta> d" using assms(1) by (simp_all add: config_phase_def)
  then show "fst y = i" "(NotifyChannelSchemaUpdate, SchemaEvent ''activated'') \<in> set (dl_notes \<delta>)" using assms(2) by auto
  show "i \<in> cg_id ` set (all_generations \<delta> d)"
    using call assms(2) by (cases c) (auto simp: registers_def set_all_generations)
qed

text \<open>C3: however the statements of registrations, activations and changes of deprecations interleave with each other and with
  the rest of the service, at most one generation is active after every step, what has been stored of schemas and
  generations stays as it is, and which generation is active changes only when a transaction
  commits that has activated one: then that one alone is active, and the commit announces it.\<close>

theorem configuration_interleaved:
  assumes "config_machine_step\<^sup>*\<^sup>* idle_configs m" "config_machine_step m m'"
  shows "length (filter cg_active (generations (km_committed m'))) \<le> 1 \<and> config_kept (km_committed m) (km_committed m') \<and>
    (active_ids (km_committed m') = active_ids (km_committed m) \<or>
     (\<exists>t x i. km_active m t = Some x \<and> k_progress x = Registered i \<and> active_ids (km_committed m') = {i} \<and>
        outbox (km_committed m') = outbox (km_committed m) @ dl_notes (k_delta x) \<and>
        (NotifyChannelSchemaUpdate, SchemaEvent ''activated'') \<in> set (dl_notes (k_delta x))))"
proof -
  have ok: "configs_ok m" using assms(1) configs_reachable_ok by (simp add: configs_reachable_def)
  note step = configs_ok_step [OF assms(2) ok]
  obtain f64 where by_step: "rounded_step f64 m m'" using assms(2) by (auto simp: config_machine_step_def)
  have "length (filter cg_active (generations (km_committed m'))) \<le> 1"
    unfolding filter_active [OF configs_okD(1) [OF conjunct1 [OF step]]] by (simp split: option.splits)
  moreover have "active_ids (km_committed m') = active_ids (km_committed m) \<or>
     (\<exists>t x i. km_active m t = Some x \<and> k_progress x = Registered i \<and> active_ids (km_committed m') = {i} \<and>
        outbox (km_committed m') = outbox (km_committed m) @ dl_notes (k_delta x) \<and>
        (NotifyChannelSchemaUpdate, SchemaEvent ''activated'') \<in> set (dl_notes (k_delta x)))"
    using by_step
  proof (cases rule: rounded_step.cases)
    case (finished t x i)
    have fits: "delta_fits (k_delta x) (km_committed m)" and ph: "config_phase (k_call x) (Registered i) (k_delta x) (km_committed m)"
      using configs_okD(2) [OF ok finished(2)] finished(3) by (simp_all add: tx_fits_def)
    have m': "km_committed m' = apply_delta (k_delta x) (km_committed m)" by (simp add: finished(1) config_view_def)
    show ?thesis
    proof (cases "dl_on (k_delta x)")
      case None
      then have "dl_off (k_delta x) = {}" using ph by (auto simp: config_phase_def)
      then show ?thesis using None by (simp add: m' active_ids_view [OF fits])
    next
      case (Some y)
      note on = committed_target [OF ph Some]
      have "active_ids (km_committed m') = {i}" unfolding m' active_ids_view [OF fits] using on(1,2) Some by (cases y) simp
      then show ?thesis using finished(2,3) on(3) m' by (intro disjI2 exI [of _ t] exI [of _ x] exI [of _ i]) simp
    qed
  qed (simp_all add: active_ids_def config_alone_def)
  ultimately show ?thesis using step by blast
qed

definition register_alone :: "(nat \<times> config_act) list" where
  "register_alone = (0, Begin (RegisterGeneration ''first'' [sample_schema] True ''hash'')) # replicate 9 (0, Next)"

lemma register_alone_runs:
  "case duo_run register_alone idle_configs of None \<Rightarrow> False | Some m \<Rightarrow>
     active_ids (km_committed m) = {} \<and> (case duo_act 0 Commit m of None \<Rightarrow> False | Some m' \<Rightarrow> active_ids (km_committed m') = {1})"
  by code_simp

lemma register_alone_both: "list_all (\<lambda>(t, a). t \<le> 1) register_alone"
  by (simp add: list_all_iff register_alone_def)

theorem configuration_interleaved_witness:
  "\<exists>m m'. config_machine_step m m' \<and> active_ids (km_committed m) = {} \<and> active_ids (km_committed m') = {1} \<and>
     length (filter cg_active (generations (km_committed m'))) \<le> 1 \<and>
     (\<exists>t x. km_active m t = Some x \<and> (NotifyChannelSchemaUpdate, SchemaEvent ''activated'') \<in> set (dl_notes (k_delta x)))"
proof -
  obtain m m' where m: "duo_run register_alone idle_configs = Some m" "active_ids (km_committed m) = {}"
    "duo_act 0 Commit m = Some m'" "active_ids (km_committed m') = {1}"
    using register_alone_runs by (auto split: option.splits)
  have run: "config_machine_step\<^sup>*\<^sup>* idle_configs m" "at_most_two m"
    using duo_run_steps [OF m(1) register_alone_both idle_two] by simp_all
  have "config_machine_step m m'" using duo_act_step [OF m(3) _ run(2)] by simp
  from this configuration_interleaved [OF run(1) this] m(2,4) show ?thesis by auto
qed

section \<open>What a registration has brought about\<close>

text \<open>When a registration commits, there is exactly one generation of its identity, the one it answers with, and all its
  schemas are stored; a generation it has inserted itself has exactly its schemas, in the order of the request.\<close>

lemma registration_done:
  assumes ok: "configs_ok m" and "km_active m t = Some x"
    and "k_call x = RegisterGeneration description ss activate h" "k_progress x = Registered i"
  shows "\<exists>g. filter (\<lambda>g. cg_identity_hash g = h) (generations (config_view m x)) = [g] \<and> cg_id g = i \<and>
    (\<forall>s \<in> set ss. row_at schema_key (sc_key s) (schemas (config_view m x)) \<noteq> None) \<and>
    (i \<notin> cg_id ` set (generations (km_committed m)) \<longrightarrow> generation_refs (config_view m x) i = generation_rows i 0 ss)"
proof -
  have fits: "delta_fits (k_delta x) (km_committed m)" and reg: "registers ss h i (k_delta x) (km_committed m)"
    using configs_okD(2) [OF ok assms(2)] assms(3,4) by (auto simp: tx_fits_def config_phase_def)
  have view: "config_ok (config_view m x)"
    unfolding config_view_def by (rule fits_ok [OF configs_okD(1) [OF ok] fits])
  obtain g0 where g0: "g0 \<in> set (all_generations (k_delta x) (km_committed m))" "cg_id g0 = i" "cg_identity_hash g0 = h"
    using reg by (auto simp: registers_def)
  let ?g = "switched (k_delta x) g0"
  have g: "?g \<in> set (generations (config_view m x))" "cg_id ?g = i" "cg_identity_hash ?g = h"
    using g0 unfolding config_view_def generations_applied by simp_all
  have "filter (\<lambda>y. cg_identity_hash y = cg_identity_hash ?g) (generations (config_view m x)) = [?g]"
    using view g(1) by (intro filter_unique_key) (auto simp: config_ok_def dest: generations_okD(2))
  moreover have "row_at schema_key (sc_key s) (schemas (config_view m x)) \<noteq> None" if "s \<in> set ss" for s
    using reg that by (auto simp: registers_def stored_keys_def config_view_def row_at_None)
  moreover have "generation_refs (config_view m x) i = generation_rows i 0 ss" if new: "i \<notin> cg_id ` set (generations (km_committed m))"
  proof -
    obtain row where "dl_gen (k_delta x) = Some row" using g0(1,2) new by (auto simp: set_all_generations)
    then have "dl_refs (k_delta x) = generation_rows i 0 ss" using reg by (simp add: registers_def)
    moreover have "cgs_generation_id r \<noteq> i" if "r \<in> set (generation_schemas (km_committed m))" for r
      using configs_okD(1) [OF ok] that new by (auto simp: config_ok_def refs_ok_def)
    moreover have "filter (\<lambda>r. cgs_generation_id r = i) (generation_rows i 0 ss) = generation_rows i 0 ss"
      by (auto simp: generation_rows_def filter_id_conv)
    ultimately show ?thesis by (simp add: generation_refs_def config_view_def filter_empty_conv)
  qed
  ultimately show ?thesis using g(2,3) by (intro exI [of _ ?g]) simp
qed

section \<open>What is not retried\<close>

definition planning_schema :: config_schema where
  "planning_schema = \<lparr>sc_Name = ''planning'', sc_Version = ''1'', sc_Spec = Some (Some JNull), sc_Usage = SchemaUsageSettings\<rparr>"

text \<open>
  The schemas of a request are stored in its order. Two registrations of the same new schemas in opposite
  orders, which have the same identity, each hold the key the other one waits for.
\<close>

definition opposite_orders :: "(nat \<times> config_act) list" where
  "opposite_orders = [(0, Begin (RegisterGeneration ''a'' [sample_schema, planning_schema] True ''hash'')),
     (1, Begin (RegisterGeneration ''b'' [planning_schema, sample_schema] True ''hash'')),
     (0, Next), (1, Next), (0, Next), (1, Next), (0, Next), (1, Next)]"

definition waits_for :: "config_machine \<Rightarrow> nat \<Rightarrow> nat \<Rightarrow> bool" where
  "waits_for m t t' = (case km_active m t of None \<Rightarrow> False | Some x \<Rightarrow> (case km_active m t' of None \<Rightarrow> False
     | Some y \<Rightarrow> config_wants (k_call x) (k_progress x) \<inter> config_locks (k_delta y) \<noteq> {}))"

lemma waits_for_waits: "waits_for m t t' \<Longrightarrow> t' \<noteq> t \<Longrightarrow> \<exists>x. km_active m t = Some x \<and> config_waits m t x"
  by (auto simp: waits_for_def config_waits_def split: option.splits)

lemma registrations_deadlock:
  "\<exists>m x y. config_machine_step\<^sup>*\<^sup>* idle_configs m \<and> km_active m 0 = Some x \<and> config_waits m 0 x \<and> km_active m 1 = Some y \<and> config_waits m 1 y"
proof -
  have "case duo_run opposite_orders idle_configs of None \<Rightarrow> False | Some m \<Rightarrow> waits_for m 0 1 \<and> waits_for m 1 0" by code_simp
  then obtain m where m: "duo_run opposite_orders idle_configs = Some m" "waits_for m 0 1" "waits_for m 1 0"
    by (auto split: option.splits)
  have "list_all (\<lambda>(t, a). t \<le> 1) opposite_orders" by (simp add: list_all_iff opposite_orders_def)
  from duo_run_steps [OF m(1) this idle_two] waits_for_waits [OF m(2)] waits_for_waits [OF m(3)] show ?thesis by auto
qed

text \<open>
  Two activations of different generations while none is active: each finds nothing to deactivate, and the second
  one is refused by the unique index once the first has committed, although its generation could be activated.
\<close>

definition two_generations :: "(nat \<times> config_act) list" where
  "two_generations =
     ((0, Begin (RegisterGeneration ''a'' [sample_schema] False ''hash a'')) # replicate 5 (0, Next) @ [(0, Commit)]) @
     ((0, Begin (RegisterGeneration ''b'' [planning_schema] False ''hash b'')) # replicate 5 (0, Next) @ [(0, Commit)])"

definition two_activations :: "(nat \<times> config_act) list" where
  "two_activations = [(0, Begin (ActivateGeneration 1)), (1, Begin (ActivateGeneration 2))] @ replicate 3 (1, Next) @
     replicate 5 (0, Next) @ [(0, Commit)]"

definition next_result :: "config_machine \<Rightarrow> nat \<Rightarrow> store_error option" where
  "next_result m t = (case km_active m t of None \<Rightarrow> None | Some x \<Rightarrow>
     (case fst (config_advance id (k_call x) (k_progress x) (snapshot (config_view m x))) of Inl e \<Rightarrow> Some e | Inr _ \<Rightarrow> None))"

lemma second_activation_refused:
  "\<exists>m. config_machine_step\<^sup>*\<^sup>* idle_configs m \<and> map cg_id (generations (km_committed m)) = [1, 2] \<and>
     active_ids (km_committed m) = {1} \<and> map_option k_call (km_active m 1) = Some (ActivateGeneration 2) \<and>
     next_result m 1 = Some (UniqueViolation singleActiveKey)"
proof -
  have "case duo_run (two_generations @ two_activations) idle_configs of None \<Rightarrow> False | Some m \<Rightarrow>
      map cg_id (generations (km_committed m)) = [1, 2] \<and> active_ids (km_committed m) = {1} \<and>
      map_option k_call (km_active m 1) = Some (ActivateGeneration 2) \<and> next_result m 1 = Some (UniqueViolation singleActiveKey)"
    by code_simp
  then obtain m where m: "duo_run (two_generations @ two_activations) idle_configs = Some m"
    "map cg_id (generations (km_committed m)) = [1, 2] \<and> active_ids (km_committed m) = {1} \<and>
      map_option k_call (km_active m 1) = Some (ActivateGeneration 2) \<and> next_result m 1 = Some (UniqueViolation singleActiveKey)"
    by (auto split: option.splits)
  have "list_all (\<lambda>(t, a). t \<le> 1) (two_generations @ two_activations)"
    by (simp add: list_all_iff two_generations_def two_activations_def)
  from conjI [OF conjunct1 [OF duo_run_steps [OF m(1) this idle_two]] m(2)] show ?thesis by (rule exI)
qed

text \<open>
  Two registrations of one new name and version with different specs that have both looked for it before
  either has stored it: the second one stores nothing, finds the generation of the first by the identity, and succeeds.
\<close>

definition other_spec :: config_schema where
  "other_spec = sample_schema\<lparr>sc_Spec := Some (Some (JBool True))\<rparr>"

definition same_version :: "(nat \<times> config_act) list" where
  "same_version = [(0, Begin (RegisterGeneration ''a'' [sample_schema] False ''hash'')), (1, Begin (RegisterGeneration ''b'' [other_spec] False ''hash'')),
     (0, Next), (1, Next)] @ replicate 4 (0, Next) @ [(0, Commit), (1, Next), (1, Next)]"

lemma registered_spec_lost:
  "\<exists>m x. config_machine_step\<^sup>*\<^sup>* idle_configs m \<and> km_active m 1 = Some x \<and> k_progress x = Registered 1 \<and>
     k_call x = RegisterGeneration ''b'' [other_spec] False ''hash'' \<and>
     map ds_spec (schemas (config_view m x)) = [JNull] \<and> jsonEqual id (Some (JBool True)) (Some JNull) = Some False"
proof -
  have "case duo_run same_version idle_configs of None \<Rightarrow> False | Some m \<Rightarrow> (case km_active m 1 of None \<Rightarrow> False | Some x \<Rightarrow>
      k_progress x = Registered 1 \<and> k_call x = RegisterGeneration ''b'' [other_spec] False ''hash'' \<and>
      map ds_spec (schemas (config_view m x)) = [JNull] \<and> jsonEqual id (Some (JBool True)) (Some JNull) = Some False)"
    by code_simp
  then obtain m where m: "duo_run same_version idle_configs = Some m"
    "case km_active m 1 of None \<Rightarrow> False | Some x \<Rightarrow>
      k_progress x = Registered 1 \<and> k_call x = RegisterGeneration ''b'' [other_spec] False ''hash'' \<and>
      map ds_spec (schemas (config_view m x)) = [JNull] \<and> jsonEqual id (Some (JBool True)) (Some JNull) = Some False"
    by (auto split: option.splits)
  have "list_all (\<lambda>(t, a). t \<le> 1) same_version" by (simp add: list_all_iff same_version_def)
  from duo_run_steps [OF m(1) this idle_two] m(2) show ?thesis by (auto split: option.splits)
qed

section \<open>What is stored stays\<close>

text \<open>C19: a schema read by name and version is what every later read of it answers, and so are the schemas, the description
  and the creation time of a generation that was read, however the statements of registrations, activations
  and everything else have interleaved before the first read and between the two; only a database error can
  keep a read from it. (Which generation is active, and since when, does change.) At no point can the next statement
  of any transaction leave it a database in which something committed has changed.\<close>

theorem configuration_immutable:
  assumes "config_machine_step\<^sup>*\<^sup>* idle_configs m" "config_machine_step\<^sup>*\<^sup>* m m'"
    and "db w = km_committed m" "db w2 = km_committed m'"
  shows "(version \<noteq> [] \<and> fst (GetSchema name version w) = Inr s \<longrightarrow> fst (GetSchema name version w2) \<in> {Inr s, Inl DbFault}) \<and>
    (fst (GetConfigGeneration i w) = Inr gen \<longrightarrow>
      fst (GetConfigGeneration i w2) = Inl DbFault \<or>
      (\<exists>gen2. fst (GetConfigGeneration i w2) = Inr gen2 \<and> gen_Schemas gen2 = gen_Schemas gen \<and>
        gen_Description gen2 = gen_Description gen \<and> gen_Created gen2 = gen_Created gen)) \<and>
    (km_active m' t = Some x \<and> db v = config_view m' x \<and> config_advance f64 (k_call x) (k_progress x) v = (Inr (p, f), v') \<longrightarrow>
      config_kept (db w2) (db v'))"
proof -
  have ok: "configs_ok m" using assms(1) configs_reachable_ok by (simp add: configs_reachable_def)
  note later = configs_ok_steps [OF assms(2) ok]
  have "config_kept (db w) (db w2)" "config_ok (db w)" "config_ok (db w2)"
    using later configs_okD(1) ok assms(3,4) by simp_all
  note reads = reads_kept [OF this]
  have "config_kept (db w2) (db v')" if "km_active m' t = Some x" "db v = config_view m' x"
      "config_advance f64 (k_call x) (k_progress x) v = (Inr (p, f), v')"
    using statement_recorded(2) [OF conjunct1 [OF later] that] assms(4) by simp
  then show ?thesis using reads by blast
qed

theorem configuration_immutable_witness:
  "\<exists>m m'. config_machine_step\<^sup>*\<^sup>* m m' \<and> km_active m 1 \<noteq> None \<and> km_active m' 1 = None \<and>
     fst (GetSchema ''core'' ''1'' (snapshot (km_committed m'))) \<in>
       {Inr \<lparr>sc_Name = ''core'', sc_Version = ''1'', sc_Spec = Some (Some JNull), sc_Usage = SchemaUsageSettings\<rparr>, Inl DbFault}"
proof -
  let ?s = "\<lparr>sc_Name = ''core'', sc_Version = ''1'', sc_Spec = Some (Some JNull), sc_Usage = SchemaUsageSettings\<rparr>"
  have "case duo_run same_version idle_configs of None \<Rightarrow> False | Some m \<Rightarrow>
      km_active m 1 \<noteq> None \<and> fst (GetSchema ''core'' ''1'' (snapshot (km_committed m))) = Inr ?s \<and>
      (case duo_act 1 Commit m of None \<Rightarrow> False | Some m' \<Rightarrow> km_active m' 1 = None)"
    by code_simp
  then obtain m m' where m: "duo_run same_version idle_configs = Some m" "km_active m 1 \<noteq> None"
      "fst (GetSchema ''core'' ''1'' (snapshot (km_committed m))) = Inr ?s"
    and m': "duo_act 1 Commit m = Some m'" "km_active m' 1 = None"
    by (auto split: option.splits)
  have "list_all (\<lambda>(t, a). t \<le> 1) same_version" by (simp add: list_all_iff same_version_def)
  note run = duo_run_steps [OF m(1) this idle_two]
  have step: "config_machine_step\<^sup>*\<^sup>* m m'"
    using duo_act_step [OF m'(1) _ conjunct2 [OF run]] by (intro r_into_rtranclp) simp
  have "fst (GetSchema ''core'' ''1'' (snapshot (km_committed m'))) \<in> {Inr ?s, Inl DbFault}"
    using conjunct1 [OF configuration_immutable [OF conjunct1 [OF run] step, of "snapshot (km_committed m)" "snapshot (km_committed m')"
      "''1''" "''core''" ?s]] m(3) by simp
  then show ?thesis using m(2) m'(2) step by (intro exI conjI) simp_all
qed

end
