(* ===== verification/Config_Registration.thy ===== *)
theory Config_Registration
  imports Config_Interleaving_Props
begin

text \<open>
  What a registration whose statements interleave with those of others has brought about when it commits. It is
  followed from its beginning (\<open>on_way\<close>): the schemas it has looked at are stored with equal specs, unless
  another transaction has stored one of them since; the generation it has inserted or found is the one of its
  identity; and that one is active if it was asked for, unless another activation came after it was
  found active.
\<close>

section \<open>A registration on its way\<close>

text \<open>A name and version that another transaction has stored since the tables were \<open>d0\<close>.\<close>

definition stored_since :: "db \<Rightarrow> db \<Rightarrow> string \<times> string \<Rightarrow> bool" where
  "stored_since d0 d k \<longleftrightarrow> row_at schema_key k (schemas d) \<noteq> row_at schema_key k (schemas d0)"

definition met :: "(rat \<Rightarrow> rat) \<Rightarrow> db \<Rightarrow> config_delta \<Rightarrow> db \<Rightarrow> config_schema \<Rightarrow> bool" where
  "met f64 d0 \<delta> d s \<longleftrightarrow> ensured f64 (schemas d @ dl_schemas \<delta>) s \<or> stored_since d0 d (sc_key s)"

fun unseen :: "config_progress \<Rightarrow> config_schema list" where
  "unseen (Ensuring rest) = rest"
| "unseen (Storing s spec rest) = s # rest"
| "unseen p = []"

fun decided :: "config_progress \<Rightarrow> bool" where
  "decided (Deactivating i) = True"
| "decided (Sweeping i S) = True"
| "decided (Activating i) = True"
| "decided (Announcing i) = True"
| "decided p = False"

text \<open>A registration on its way, begun when the tables were \<open>d0\<close>; \<open>sw\<close> says whether another generation has become active since.\<close>

definition on_way :: "(rat \<Rightarrow> rat) \<Rightarrow> string \<Rightarrow> config_schema list \<Rightarrow> bool \<Rightarrow> db \<Rightarrow> bool \<Rightarrow> config_progress \<Rightarrow> config_delta \<Rightarrow> db \<Rightarrow> bool" where
  "on_way f64 description ss activate d0 sw p \<delta> d \<longleftrightarrow>
     (\<exists>past. ss = past @ unseen p \<and> (\<forall>s \<in> set past. met f64 d0 \<delta> d s)) \<and>
     (\<forall>s spec rest. p = Storing s spec rest \<longrightarrow> sc_Spec s = Some spec \<and>
        (row_at schema_key (sc_key s) (schemas d @ dl_schemas \<delta>) = None \<or> stored_since d0 d (sc_key s))) \<and>
     (\<forall>row. dl_gen \<delta> = Some row \<longrightarrow> cg_description row = description) \<and>
     (\<not> activate \<longrightarrow> \<not> decided p \<and> dl_on \<delta> = None) \<and>
     (\<forall>i. activate \<and> p = Registered i \<and> dl_on \<delta> = None \<longrightarrow> dl_gen \<delta> = None \<and> (active_ids d = {i} \<or> sw))"

lemma on_wayI:
  "ss = past @ unseen p \<Longrightarrow> (\<And>s. s \<in> set past \<Longrightarrow> met f64 d0 \<delta> d s) \<Longrightarrow>
   (\<And>s spec rest. p = Storing s spec rest \<Longrightarrow> sc_Spec s = Some spec \<and>
      (row_at schema_key (sc_key s) (schemas d @ dl_schemas \<delta>) = None \<or> stored_since d0 d (sc_key s))) \<Longrightarrow>
   (\<And>row. dl_gen \<delta> = Some row \<Longrightarrow> cg_description row = description) \<Longrightarrow>
   (\<not> activate \<Longrightarrow> \<not> decided p \<and> dl_on \<delta> = None) \<Longrightarrow>
   (\<And>i. activate \<Longrightarrow> p = Registered i \<Longrightarrow> dl_on \<delta> = None \<Longrightarrow> dl_gen \<delta> = None \<and> (active_ids d = {i} \<or> sw)) \<Longrightarrow>
   on_way f64 description ss activate d0 sw p \<delta> d"
  unfolding on_way_def by blast

lemma on_wayD:
  assumes "on_way f64 description ss activate d0 sw p \<delta> d"
  shows "\<exists>past. ss = past @ unseen p \<and> (\<forall>s \<in> set past. met f64 d0 \<delta> d s)"
    "p = Storing s spec rest \<Longrightarrow> sc_Spec s = Some spec"
    "p = Storing s spec rest \<Longrightarrow> row_at schema_key (sc_key s) (schemas d @ dl_schemas \<delta>) = None \<or> stored_since d0 d (sc_key s)"
    "dl_gen \<delta> = Some row \<Longrightarrow> cg_description row = description" "\<not> activate \<Longrightarrow> \<not> decided p" "\<not> activate \<Longrightarrow> dl_on \<delta> = None"
    "activate \<Longrightarrow> p = Registered i \<Longrightarrow> dl_on \<delta> = None \<Longrightarrow> dl_gen \<delta> = None \<and> (active_ids d = {i} \<or> sw)"
  using assms unfolding on_way_def by (elim conjE, blast)+

lemma stored_since_kept:
  assumes "config_kept d0 d" "config_kept d e" "stored_since d0 d k"
  shows "stored_since d0 e k"
proof -
  have none: "row_at schema_key k (schemas d0) = None"
    using config_keptD(1) [OF assms(1)] assms(3) unfolding stored_since_def by (metis option.exhaust)
  then obtain r where "row_at schema_key k (schemas d) = Some r"
    using assms(3) unfolding stored_since_def by (metis option.exhaust)
  then show ?thesis using config_keptD(1) [OF assms(2)] none unfolding stored_since_def by simp
qed

lemma row_of_view_kept:
  assumes "config_kept d e" "distinct (map schema_key (schemas e @ new))" "row_at schema_key k (schemas d @ new) = Some r"
  shows "row_at schema_key k (schemas e @ new) = Some r"
proof (cases "row_at schema_key k (schemas d)")
  case None
  then have r: "row_at schema_key k new = Some r" using assms(3) by (simp add: row_at_append)
  then have "k \<in> schema_key ` set new" using row_at_SomeD [OF r] by force
  then have "row_at schema_key k (schemas e) = None" using assms(2) by (auto simp: row_at_None)
  with r show ?thesis by (simp add: row_at_append)
next
  case (Some r1)
  then show ?thesis using assms(3) config_keptD(1) [OF assms(1) Some] by (simp add: row_at_append)
qed

lemma met_kept:
  assumes "config_kept d0 d" "config_kept d e" "distinct (map schema_key (schemas e @ dl_schemas \<delta>))" "met f64 d0 \<delta> d s"
  shows "met f64 d0 \<delta> e s"
  using assms(4) row_of_view_kept [OF assms(2,3)] stored_since_kept [OF assms(1,2)]
  unfolding met_def ensured_def by blast

lemma not_stored_since: "config_kept d0 d \<Longrightarrow> row_at schema_key k (schemas d) = None \<Longrightarrow> row_at schema_key k (schemas d0) = None"
  using config_keptD(1) [of d0 d k] by (cases "row_at schema_key k (schemas d0)") auto

section \<open>Others commit\<close>

lemma on_way_others:
  assumes "config_kept d0 d" "config_kept d e" "distinct (map schema_key (schemas e @ dl_schemas \<delta>))"
    and "on_way f64 description ss activate d0 sw p \<delta> d" "active_ids e \<noteq> active_ids d \<longrightarrow> sw1" "sw \<longrightarrow> sw1"
  shows "on_way f64 description ss activate d0 sw1 p \<delta> e"
proof -
  have new: "row_at schema_key k (schemas e @ dl_schemas \<delta>) = None \<or> stored_since d0 e k"
    if "row_at schema_key k (schemas d @ dl_schemas \<delta>) = None" for k
  proof -
    have k: "row_at schema_key k (schemas d) = None" "row_at schema_key k (dl_schemas \<delta>) = None"
      using that by (simp_all add: row_at_append split: option.splits)
    then show ?thesis using not_stored_since [OF assms(1) k(1)] by (simp add: row_at_append stored_since_def split: option.splits)
  qed
  note w = on_wayD [OF assms(4)]
  obtain past where past: "ss = past @ unseen p" "\<forall>s \<in> set past. met f64 d0 \<delta> d s" using w(1) by blast
  show ?thesis
  proof (rule on_wayI [OF past(1)])
    show "met f64 d0 \<delta> e s" if "s \<in> set past" for s using past(2) that met_kept [OF assms(1-3)] by blast
    show "sc_Spec s = Some spec \<and> (row_at schema_key (sc_key s) (schemas e @ dl_schemas \<delta>) = None \<or> stored_since d0 e (sc_key s))"
      if "p = Storing s spec rest" for s spec rest
      using w(2,3) [OF that] new stored_since_kept [OF assms(1,2)] by blast
    show "cg_description row = description" if "dl_gen \<delta> = Some row" for row by (rule w(4) [OF that])
    show "\<not> decided p \<and> dl_on \<delta> = None" if "\<not> activate" using w(5,6) that by blast
    show "dl_gen \<delta> = None \<and> (active_ids e = {i} \<or> sw1)" if "activate" "p = Registered i" "dl_on \<delta> = None" for i
      using w(7) [OF that] assms(5,6) by auto
  qed
qed


section \<open>Its own statements\<close>

lemma met_more: "met f64 d0 \<delta> d s \<Longrightarrow> dl_schemas \<epsilon> = dl_schemas \<delta> @ new \<Longrightarrow> met f64 d0 \<epsilon> d s"
  by (auto simp: met_def ensured_def row_at_append split: option.splits)

lemma unseen_ensuring [simp]: "unseen (ensuring rest) = rest" "\<not> decided (ensuring rest)" "ensuring rest \<noteq> Registered i"
    "ensuring rest \<noteq> Storing s spec xs"
  by (cases rest; simp)+

lemma way_ensuring:
  assumes "ss = past @ rest" "\<And>s. s \<in> set past \<Longrightarrow> met f64 d0 \<delta> d s" "dl_gen \<delta> = None" "dl_on \<delta> = None"
  shows "on_way f64 description ss activate d0 sw (ensuring rest) \<delta> d"
  by (rule on_wayI [where past = past]) (use assms in simp_all)

lemma way_deciding:
  assumes "\<And>s. s \<in> set ss \<Longrightarrow> met f64 d0 \<delta> d s" "\<And>g. dl_gen \<delta> = Some g \<Longrightarrow> cg_description g = description" "dl_on \<delta> = None"
    and "activate \<Longrightarrow> cg_active row \<Longrightarrow> dl_gen \<delta> = None \<and> active_ids d = {cg_id row}"
  shows "on_way f64 description ss activate d0 sw (deciding activate row) \<delta> d"
  by (rule on_wayI [where past = ss]) (use assms in \<open>auto simp: deciding_def split: if_splits\<close>)

lemma way_linking:
  assumes "\<And>s. s \<in> set ss \<Longrightarrow> met f64 d0 \<delta> d s" "dl_gen \<delta> = Some row" "cg_description row = description" "dl_on \<delta> = None" "\<not> cg_active row"
  shows "on_way f64 description ss activate d0 sw (linking activate row k rest) \<delta> d"
proof (cases rest)
  case Nil
  then show ?thesis using way_deciding [OF assms(1), where row = row and description = description] assms(2-5) by simp
next
  case (Cons s xs)
  show ?thesis by (rule on_wayI [where past = ss]) (use assms Cons in simp_all)
qed

lemma way_switching:
  assumes "on_way f64 description ss activate d0 sw p \<delta> d" "decided p"
    and "unseen p = []" "unseen q = []" "\<And>s spec rest. q \<noteq> Storing s spec rest" "dl_schemas \<epsilon> = dl_schemas \<delta>" "dl_gen \<epsilon> = dl_gen \<delta>"
    and "\<And>i. q = Registered i \<Longrightarrow> dl_on \<epsilon> \<noteq> None"
  shows "on_way f64 description ss activate d0 sw q \<epsilon> d"
proof (rule on_wayI [where past = ss])
  note w = on_wayD [OF assms(1)]
  show "met f64 d0 \<epsilon> d s" if "s \<in> set ss" for s
    using w(1) that assms(3,6) by (simp add: met_def)
  show "cg_description row = description" if "dl_gen \<epsilon> = Some row" for row using w(4) assms(7) that by simp
  have "activate" using w(5) assms(2) by blast
  then show "\<not> decided q \<and> dl_on \<epsilon> = None" if "\<not> activate" using that by blast
qed (use assms(4,5,8) in simp_all)

lemma way_storing:
  assumes "on_way f64 description ss activate d0 sw (Storing s spec rest) \<delta> d" "dl_gen \<delta> = None" "dl_on \<delta> = None"
    and "ensure_store s spec rest v = (Inr (q, f), v')" "schemas (db v) = schemas d @ dl_schemas \<delta>"
  shows "on_way f64 description ss activate d0 sw q (f \<delta>) d"
proof -
  note r = ensure_store_Inr [OF assms(4)] and w = on_wayD [OF assms(1)]
  have f: "f \<delta> = \<delta>\<lparr>dl_schemas := dl_schemas \<delta> @ new_schemas s spec (db v)\<rparr>" and q: "q = ensuring rest" using r by simp_all
  obtain past where past: "ss = past @ s # rest" "\<forall>s \<in> set past. met f64 d0 \<delta> d s" using w(1) by auto
  have "met f64 d0 (f \<delta>) d s"
  proof (cases "stored_since d0 d (sc_key s)")
    case False
    then have none: "row_at schema_key (sc_key s) (schemas (db v)) = None" using w(3) [OF refl] assms(5) by simp
    obtain j where j: "spec = Some j" using r none by (auto simp: new_schemas_def row_at_None split: option.splits)
    have "schemas d @ dl_schemas (f \<delta>) = schemas (db v) @ [\<lparr>ds_name = sc_Name s, ds_version = sc_Version s, ds_spec = jsonb_norm j, ds_usage = sc_Usage s\<rparr>]"
      using none by (simp add: f new_schemas_def j assms(5))
    then have "ensured f64 (schemas d @ dl_schemas (f \<delta>)) s"
      using none w(2) [OF refl] j by (simp add: ensured_def row_at_append row_at_Cons jsonEqual_stored)
    then show ?thesis by (simp add: met_def)
  qed (simp add: met_def)
  moreover have "met f64 d0 (f \<delta>) d x" if "x \<in> set past" for x
    using past(2) that met_more [of f64 d0 \<delta> d x "f \<delta>"] by (simp add: f)
  ultimately show ?thesis
    unfolding q using past(1) assms(2,3) by (intro way_ensuring [where past = "past @ [s]"]) (auto simp: f)
qed

lemma active_ids_found:
  assumes "config_ok d" "row \<in> set (generations d)" "cg_active row"
  shows "active_ids d = {cg_id row}"
proof -
  have same: "cg_id g = cg_id row" if "g \<in> set (generations d)" "cg_active g" for g
    using assms(1) unfolding config_ok_def by (intro generations_okD(7) [OF _ that(1) assms(2) that(2) assms(3)]) (elim conjE)
  show ?thesis
  proof
    show "active_ids d \<subseteq> {cg_id row}" using same unfolding active_ids_def by auto
    show "{cg_id row} \<subseteq> active_ids d" using assms(2,3) unfolding active_ids_def by simp
  qed
qed

lemma way_looking:
  assumes "on_way f64 description ss activate d0 sw (Ensuring (s # rest)) \<delta> d" "dl_gen \<delta> = None" "dl_on \<delta> = None"
    and "ensure_lookup f64 s rest v = (Inr (q, f), v')" "schemas (db v) = schemas d @ dl_schemas \<delta>"
  shows "on_way f64 description ss activate d0 sw q (f \<delta>) d"
proof -
  obtain past where past: "ss = past @ s # rest" "\<forall>s \<in> set past. met f64 d0 \<delta> d s" using on_wayD(1) [OF assms(1)] by auto
  note r = ensure_lookup_Inr [OF assms(4), unfolded assms(5)]
  show ?thesis
  proof (cases "ensured f64 (schemas d @ dl_schemas \<delta>) s \<and> q = ensuring rest")
    case True
    then show ?thesis using r past assms(2,3) by (auto intro!: way_ensuring [where past = "past @ [s]"] simp: met_def)
  next
    case False
    then obtain spec where q: "q = Storing s spec rest" "sc_Spec s = Some spec" "row_at schema_key (sc_key s) (schemas d @ dl_schemas \<delta>) = None"
      and f: "f = id" using r by blast
    show ?thesis by (rule on_wayI [where past = past]) (use past assms(2,3) q f in auto)
  qed
qed

lemma way_hashing:
  assumes "on_way f64 description ss activate d0 sw Hashing \<delta> d" "quiet \<delta>" "dl_gen \<delta> = None" "config_ok d"
    and "config_advance f64 (RegisterGeneration description ss activate h) Hashing v = (Inr (q, f), v')" "db v = apply_delta \<delta> d"
  shows "on_way f64 description ss activate d0 sw q (f \<delta>) d"
proof -
  have met: "met f64 d0 \<delta> d s" if "s \<in> set ss" for s using on_wayD(1) [OF assms(1)] that by simp
  have "f = id \<and> (q = Inserting \<or> (\<exists>row. q = deciding activate row \<and> row_at cg_identity_hash h (generations (db v)) = Some row))"
    using assms(5)
    by (auto simp: catchM_Inr_iff q_GetConfigGenerationByIdentityHash_def run_stmt_def split: if_splits option.splits)
  moreover have "on_way f64 description ss activate d0 sw (deciding activate row) \<delta> d"
    if "row_at cg_identity_hash h (generations (db v)) = Some row" for row
  proof (rule way_deciding [OF met])
    have "row \<in> set (generations d)"
      using row_at_SomeD [OF that] assms(2,3) by (simp add: assms(6) quiet_def)
    then show "dl_gen \<delta> = None \<and> active_ids d = {cg_id row}" if "cg_active row"
      using active_ids_found [OF assms(4) _ that] assms(3) by simp
  qed (use assms(2,3) in \<open>simp_all add: quiet_def\<close>)
  moreover have "on_way f64 description ss activate d0 sw Inserting \<delta> d"
    by (rule on_wayI [where past = ss]) (use met assms(2,3) in \<open>simp_all add: quiet_def\<close>)
  ultimately show ?thesis by auto
qed

text \<open>From an inserted generation on.\<close>

lemma way_inserting:
  assumes "on_way f64 description ss activate d0 sw p \<delta> d" "quiet \<delta>" "delta_fits \<delta> d" "p = Inserting \<or> p = Linking row k rest \<and> dl_gen \<delta> = Some row"
    and "config_advance f64 (RegisterGeneration description ss activate h) p v = (Inr (q, f), v')"
  shows "on_way f64 description ss activate d0 sw q (f \<delta>) d"
  using assms(4)
proof (elim disjE conjE)
  note w = on_wayD [OF assms(1)]
  assume p: "p = Inserting"
  have met: "met f64 d0 \<delta> d s" if "s \<in> set ss" for s using w(1) that by (simp add: p)
  obtain row where q: "q = linking activate row 0 ss" "f \<delta> = \<delta>\<lparr>dl_gen := Some row\<rparr>" and row: "\<not> cg_active row" "cg_description row = description"
    using assms(5) p by (auto simp: bindM_Inr_iff q_InsertConfigGeneration_iff new_generation_def)
  show ?thesis unfolding q
    by (rule way_linking) (use met row assms(2) in \<open>simp_all add: met_def quiet_def\<close>)
next
  note w = on_wayD [OF assms(1)]
  assume link: "p = Linking row k rest" "dl_gen \<delta> = Some row"
  then obtain s xs where p: "p = Linking row k (s # xs)" using assms(5) by (cases rest) auto
  have met: "met f64 d0 \<delta> d s" if "s \<in> set ss" for s using w(1) that by (simp add: p)
  obtain r where q: "q = linking activate row (Suc k) xs" "f \<delta> = \<delta>\<lparr>dl_refs := dl_refs \<delta> @ [r]\<rparr>"
    using assms(5) p by (auto simp: bindM_Inr_iff Let_def)
  show ?thesis unfolding q
    by (rule way_linking) (use met assms(2) link(2) w(4) [OF link(2)] delta_fitsD(2) [OF assms(3) link(2)] in \<open>simp_all add: met_def quiet_def\<close>)
qed

lemma on_way_advance:
  assumes "config_phase c p \<delta> d" "delta_fits \<delta> d" "config_ok d" "c = RegisterGeneration description ss activate h"
    and "on_way f64 description ss activate d0 sw p \<delta> d"
    and "config_advance f64 c p v = (Inr (q, f), v')" "db v = apply_delta \<delta> d"
  shows "on_way f64 description ss activate d0 sw q (f \<delta>) d"
proof -
  have sch: "schemas (db v) = schemas d @ dl_schemas \<delta>" by (simp add: assms(7))
  note step = assms(6) [unfolded assms(4)] and way = assms(5)
  show ?thesis
  proof (cases p)
    case (Ensuring rest)
    then obtain s xs where p: "p = Ensuring (s # xs)" using step by (cases rest) auto
    then show ?thesis using way_looking [OF way [unfolded p] _ _ _ sch] assms(1,4) step by (auto simp: config_phase_def quiet_def)
  next
    case (Storing s spec rest)
    then show ?thesis
      using way_storing [OF way [unfolded Storing] _ _ _ sch] assms(1,4) step by (auto simp: config_phase_def quiet_def)
  next
    case Hashing
    then show ?thesis
      using way_hashing [OF way [unfolded Hashing] _ _ assms(3) step [unfolded Hashing] assms(7)] assms(1,4) by (auto simp: config_phase_def)
  next
    case Inserting
    then have "quiet \<delta>" using assms(1,4) by (auto simp: config_phase_def)
    then show ?thesis using way_inserting [OF way _ assms(2) _ step] Inserting by blast
  next
    case (Linking row k rest)
    then have "quiet \<delta>" "dl_gen \<delta> = Some row" using assms(1,4) by (auto simp: config_phase_def)
    then show ?thesis using way_inserting [OF way _ assms(2) _ step] Linking by blast
  next
    case (Announcing i)
    have "dl_on \<delta> \<noteq> None" using assms(1) by (auto simp: config_phase_def Announcing)
    then show ?thesis using assms(6) Announcing by (intro way_switching [OF way]) (auto simp: bindM_Inr_iff)
  qed (use step in \<open>auto simp: deactivate_find_def deactivate_change_def bindM_Inr_iff intro: way_switching [OF way]\<close>)
qed

section \<open>From the beginning to the commit\<close>

text \<open>A run of the machine in which transaction \<open>t\<close> stays active, its comparisons rounding numbers alike.\<close>

fun tx_run :: "(rat \<Rightarrow> rat) \<Rightarrow> nat \<Rightarrow> config_machine \<Rightarrow> config_machine list \<Rightarrow> bool" where
  "tx_run f64 t m [] = True"
| "tx_run f64 t m (m1 # ms) \<longleftrightarrow> rounded_step f64 m m1 \<and> km_active m1 t \<noteq> None \<and> tx_run f64 t m1 ms"

lemma tx_distinct: "configs_ok m \<Longrightarrow> km_active m t = Some x \<Longrightarrow> distinct (map schema_key (schemas (km_committed m) @ dl_schemas (k_delta x)))"
  using configs_okD(2) delta_fitsD(1) unfolding tx_fits_def by blast

lemma on_way_step:
  assumes "rounded_step f64 m m'" "configs_ok m" "km_active m t = Some x" "km_active m' t = Some x'"
    and "k_call x = RegisterGeneration description ss activate h" "config_kept d0 (km_committed m)"
    and "on_way f64 description ss activate d0 sw (k_progress x) (k_delta x) (km_committed m)"
    and "active_ids (km_committed m') \<noteq> active_ids (km_committed m) \<longrightarrow> sw1" "sw \<longrightarrow> sw1"
  shows "k_call x' = k_call x \<and> on_way f64 description ss activate d0 sw1 (k_progress x') (k_delta x') (km_committed m')"
proof -
  note step = configs_ok_rounded [OF assms(1,2)]
  have others: "on_way f64 description ss activate d0 sw1 (k_progress x') (k_delta x') (km_committed m')"
    if "on_way f64 description ss activate d0 sw (k_progress x') (k_delta x') (km_committed m)"
    by (rule on_way_others [OF assms(6) conjunct2 [OF step] tx_distinct [OF conjunct1 [OF step] assms(4)] that assms(8,9)])
  have "k_call x' = k_call x \<and> on_way f64 description ss activate d0 sw (k_progress x') (k_delta x') (km_committed m)"
    using assms(1)
  proof (cases rule: rounded_step.cases)
    case (ran u y v p f v')
    show ?thesis
    proof (cases "u = t")
      case True
      then have y: "y = x" using ran(2) assms(3) by simp
      have x': "x' = x\<lparr>k_progress := p, k_delta := f (k_delta x)\<rparr>" using ran(1) assms(4) True y by simp
      have fits: "delta_fits (k_delta x) (km_committed m)" "config_phase (k_call x) (k_progress x) (k_delta x) (km_committed m)"
        using configs_okD(2) [OF assms(2,3)] by (simp_all add: tx_fits_def)
      show ?thesis
        using on_way_advance [OF fits(2,1) configs_okD(1) [OF assms(2)] assms(5,7)] ran(4,6) y x' by (simp add: config_view_def)
    next
      case False
      then show ?thesis using assms(3,4,7) ran(1) by simp
    qed
  qed (use assms(3,4,7) in \<open>auto split: if_splits\<close>)
  then show ?thesis using others by blast
qed

lemma on_way_run:
  assumes "tx_run f64 t m ms" "configs_ok m" "km_active m t = Some x"
    and "k_call x = RegisterGeneration description ss activate h" "config_kept d0 (km_committed m)"
    and "on_way f64 description ss activate d0 sw (k_progress x) (k_delta x) (km_committed m)"
    and "active_ids (km_committed m) \<noteq> active_ids d0 \<longrightarrow> sw"
  shows "\<exists>x'. km_active (last (m # ms)) t = Some x' \<and> k_call x' = k_call x \<and> configs_ok (last (m # ms)) \<and>
    config_kept d0 (km_committed (last (m # ms))) \<and>
    on_way f64 description ss activate d0 (sw \<or> (\<exists>y \<in> set ms. active_ids (km_committed y) \<noteq> active_ids d0))
      (k_progress x') (k_delta x') (km_committed (last (m # ms)))"
  using assms
proof (induction ms arbitrary: m x sw)
  case (Cons m1 ms)
  have run: "rounded_step f64 m m1" "tx_run f64 t m1 ms" using Cons.prems(1) by simp_all
  obtain x1 where x1: "km_active m1 t = Some x1" using Cons.prems(1) by auto
  let ?sw = "sw \<or> active_ids (km_committed m1) \<noteq> active_ids d0"
  note step = configs_ok_rounded [OF run(1) Cons.prems(2)]
  have way: "k_call x1 = k_call x \<and> on_way f64 description ss activate d0 ?sw (k_progress x1) (k_delta x1) (km_committed m1)"
    by (rule on_way_step [OF run(1) Cons.prems(2,3) x1 Cons.prems(4-6)]) (use Cons.prems(7) in auto)
  have kept: "config_kept d0 (km_committed m1)" by (rule config_kept_trans [OF Cons.prems(5) conjunct2 [OF step]])
  have ih: "\<exists>x'. km_active (last (m1 # ms)) t = Some x' \<and> k_call x' = k_call x1 \<and> configs_ok (last (m1 # ms)) \<and>
    config_kept d0 (km_committed (last (m1 # ms))) \<and>
    on_way f64 description ss activate d0 (?sw \<or> (\<exists>y \<in> set ms. active_ids (km_committed y) \<noteq> active_ids d0))
      (k_progress x') (k_delta x') (km_committed (last (m1 # ms)))"
    by (rule Cons.IH [OF run(2) conjunct1 [OF step] x1 _ kept conjunct2 [OF way]]) (use way Cons.prems(4) in auto)
  then show ?case using way by (simp add: disj_assoc)
qed simp

definition begin_config :: "nat \<Rightarrow> int \<Rightarrow> config_call \<Rightarrow> config_machine \<Rightarrow> config_machine" where
  "begin_config t now c m = put_config t \<lparr>k_call = c, k_progress = config_start c, k_delta = no_change, k_now = now\<rparr> m"

text \<open>What a registration that is ready to commit has made: a generation of its own as asked for, and the activation.\<close>

lemma inserted_generation:
  assumes "delta_fits \<delta> d" "config_phase (RegisterGeneration description ss activate h) (Registered i) \<delta> d"
    and "on_way f64 description ss activate d0 sw (Registered i) \<delta> d" "i \<notin> cg_id ` set (generations d)"
    and "filter (\<lambda>g. cg_identity_hash g = h) (generations (apply_delta \<delta> d)) = [g]"
  shows "cg_description g = description \<and> (cg_active g \<longleftrightarrow> activate)"
proof -
  note w = on_wayD [OF assms(3)]
  have "(i, h) \<in> (\<lambda>g. (cg_id g, cg_identity_hash g)) ` set (all_generations \<delta> d)"
    using assms(2) by (auto simp: config_phase_def registers_def)
  then obtain row where row: "dl_gen \<delta> = Some row" "cg_id row = i" "cg_identity_hash row = h"
    using assms(4) by (auto simp: set_all_generations)
  then have "switched \<delta> row \<in> set (filter (\<lambda>g. cg_identity_hash g = h) (generations (apply_delta \<delta> d)))" by simp
  then have sw: "g = switched \<delta> row" unfolding assms(5) by simp
  have "cg_active g \<longleftrightarrow> activate"
  proof (cases "dl_on \<delta>")
    case None
    then have "\<not> activate" using w(7) row(1) by auto
    then show ?thesis using delta_fitsD(2) [OF assms(1) row(1)] None by (simp add: sw switched_active)
  next
    case (Some y)
    then have "activate" using w(6) by auto
    then show ?thesis using Some committed_target(2) [OF assms(2) Some] row(2) by (cases y) (simp add: sw switched_active)
  qed
  then show ?thesis using w(4) [OF row(1)] switched_simps(3) [of row \<delta>] by (simp add: sw same_generation_def)
qed

lemma activation_done:
  assumes "delta_fits \<delta> d" "config_phase c (Registered i) \<delta> d" "on_way f64 description ss activate d0 sw (Registered i) \<delta> d" activate
  shows "active_ids (apply_delta \<delta> d) = {i} \<or> sw"
proof (cases "dl_on \<delta>")
  case None
  then have "dl_off \<delta> = {}" using assms(2) by (auto simp: config_phase_def)
  then show ?thesis using on_wayD(7) [OF assms(3,4) refl None] None by (simp add: active_ids_view [OF assms(1)])
next
  case (Some y)
  then show ?thesis using committed_target [OF assms(2) Some] by (cases y) (simp add: active_ids_view [OF assms(1)])
qed


lemma duo_next_run:
  "duo_run (replicate n (0, Next)) m = Some m' \<Longrightarrow> at_most_two m \<Longrightarrow> \<exists>ms. tx_run id 0 m ms \<and> m' = last (m # ms)"
proof (induction n arbitrary: m)
  case 0
  then show ?case by (intro exI [of _ "[]"]) simp
next
  case (Suc n)
  obtain m1 where m1: "duo_act 0 Next m = Some m1" "duo_run (replicate n (0, Next)) m1 = Some m'"
    using Suc.prems(1) by (auto simp del: duo_act.simps split: option.splits)
  have step: "rounded_step id m m1 \<and> at_most_two m1" by (rule duo_act_rounded [OF m1(1) _ Suc.prems(2)]) simp
  have "km_active m1 0 \<noteq> None" using m1(1) by (auto split: option.splits if_splits prod.splits sum.splits)
  moreover obtain ms where "tx_run id 0 m1 ms" "m' = last (m1 # ms)" using Suc.IH [OF m1(2) conjunct2 [OF step]] by blast
  ultimately have "tx_run id 0 m (m1 # ms)" "m' = last (m # m1 # ms)"
    unfolding tx_run.simps last_ConsR [OF list.distinct(2)] using step by blast+
  then show ?case by blast
qed


end
