(* ===== verification/Enums.thy ===== *)
theory Enums
  imports Database
begin

text \<open>
  The enums of \<open>postgres/models.go\<close> between the database and the program. In Go they are strings, and
  \<open>Scan\<close> takes over any text the driver hands it; the rest of the development has a datatype with the
  constants of each. What a column of the enum type holds is one of the constants, so nothing else is ever
  scanned (\<open>enum_text\<close> and its interpretations).
\<close>

section \<open>Scan and Value\<close>

text \<open>What a driver hands over, and what \<open>Value\<close> hands to it.\<close>

datatype driver_value = NilValue | BytesValue string | TextValue string | IntValue int | BoolValue bool

text \<open>\<open>Scan\<close> of an enum type: the error, and the value after it.\<close>

fun enum_Scan :: "string \<Rightarrow> driver_value \<Rightarrow> string \<Rightarrow> string option \<times> string" where
  "enum_Scan type_name (BytesValue s) e = (None, s)"
| "enum_Scan type_name (TextValue s) e = (None, s)"
| "enum_Scan type_name src e = (Some (''unsupported scan type for '' @ type_name @ '': %T''), e)"

record null_enum =
  ne_Value :: string
  ne_Valid :: bool

definition null_Scan :: "(driver_value \<Rightarrow> string \<Rightarrow> string option \<times> string) \<Rightarrow> driver_value \<Rightarrow> null_enum \<Rightarrow> string option \<times> null_enum" where
  "null_Scan scan value ns =
     (if value = NilValue then (None, \<lparr>ne_Value = [], ne_Valid = False\<rparr>)
      else (case scan value (ne_Value ns) of (err, s) \<Rightarrow> (err, \<lparr>ne_Value = s, ne_Valid = True\<rparr>)))"

definition null_Value :: "null_enum \<Rightarrow> driver_value" where
  "null_Value ns = (if ne_Valid ns then TextValue (ne_Value ns) else NilValue)"

text \<open>
  A round trip: what \<open>Value\<close> hands over, \<open>Scan\<close> reads back, whatever was there before. A value of another type is
  refused, but leaves \<open>Valid\<close> set, so the error has to be looked at.
\<close>

lemma null_Scan_Value:
  "(ne_Valid ns \<or> ne_Value ns = []) \<Longrightarrow> null_Scan (enum_Scan name) (null_Value ns) before = (None, ns)"
  by (cases ns) (auto simp: null_Scan_def null_Value_def)

lemma null_Scan_refused:
  "null_Scan (enum_Scan name) (IntValue i) before = (Some (''unsupported scan type for '' @ name @ '': %T''), before\<lparr>ne_Valid := True\<rparr>)"
  by (cases before) (simp add: null_Scan_def)

section \<open>The constants\<close>

text \<open>An enum of the database: its constants, as texts. What \<open>Scan\<close> reads from its columns is one of them.\<close>

locale enum_text =
  fixes constants :: "'a list" and text_of :: "'a \<Rightarrow> string" and scan :: "driver_value \<Rightarrow> string \<Rightarrow> string option \<times> string"
  assumes constants: "a \<in> set constants" and text_inject: "text_of a = text_of b \<Longrightarrow> a = b"
    and scan_text: "scan (TextValue s) e = (None, s)" "scan (BytesValue s) e = (None, s)"
begin

definition of_text :: "string \<Rightarrow> 'a option" where
  "of_text s = find (\<lambda>a. text_of a = s) constants"

lemma of_text_of [simp]: "of_text (text_of a) = Some a"
proof (cases "of_text (text_of a)")
  case None
  then show ?thesis using constants by (auto simp: of_text_def find_None_iff)
next
  case (Some b)
  then have "text_of b = text_of a" by (auto simp: of_text_def find_Some_iff)
  then show ?thesis using Some text_inject by blast
qed

lemma scan_constant: "of_text (snd (scan (TextValue (text_of a)) e)) = Some a"
  "of_text (snd (scan (BytesValue (text_of a)) e)) = Some a"
  by (simp_all add: scan_text)

end

fun EventType_text :: "event_type \<Rightarrow> string" where
  "EventType_text EventTypeUpdate = ''update''"
| "EventType_text EventTypeDelete = ''delete''"

definition EventType_Scan :: "driver_value \<Rightarrow> string \<Rightarrow> string option \<times> string" where
  "EventType_Scan = enum_Scan ''EventType''"

definition NullEventType_Scan :: "driver_value \<Rightarrow> null_enum \<Rightarrow> string option \<times> null_enum" where
  "NullEventType_Scan = null_Scan EventType_Scan"

definition NullEventType_Value :: "null_enum \<Rightarrow> driver_value" where
  "NullEventType_Value = null_Value"

interpretation eventtype_enum: enum_text "[EventTypeUpdate, EventTypeDelete]" EventType_text EventType_Scan
proof
  show "a \<in> set [EventTypeUpdate, EventTypeDelete]" for a by (cases a) simp_all
  show "a = b" if "EventType_text a = EventType_text b" for a b using that by (cases a; cases b) simp_all
qed (simp_all add: EventType_Scan_def)

fun ResourceKind_text :: "resource_kind \<Rightarrow> string" where
  "ResourceKind_text ResourceKindDocument = ''document''"
| "ResourceKind_text ResourceKindProperty = ''property''"

definition ResourceKind_Scan :: "driver_value \<Rightarrow> string \<Rightarrow> string option \<times> string" where
  "ResourceKind_Scan = enum_Scan ''ResourceKind''"

definition NullResourceKind_Scan :: "driver_value \<Rightarrow> null_enum \<Rightarrow> string option \<times> null_enum" where
  "NullResourceKind_Scan = null_Scan ResourceKind_Scan"

definition NullResourceKind_Value :: "null_enum \<Rightarrow> driver_value" where
  "NullResourceKind_Value = null_Value"

interpretation resourcekind_enum: enum_text "[ResourceKindDocument, ResourceKindProperty]" ResourceKind_text ResourceKind_Scan
proof
  show "a \<in> set [ResourceKindDocument, ResourceKindProperty]" for a by (cases a) simp_all
  show "a = b" if "ResourceKind_text a = ResourceKind_text b" for a b using that by (cases a; cases b) simp_all
qed (simp_all add: ResourceKind_Scan_def)

fun SchemaUsage_text :: "schema_usage \<Rightarrow> string" where
  "SchemaUsage_text SchemaUsageSettings = ''settings''"
| "SchemaUsage_text SchemaUsageMessages = ''messages''"

definition SchemaUsage_Scan :: "driver_value \<Rightarrow> string \<Rightarrow> string option \<times> string" where
  "SchemaUsage_Scan = enum_Scan ''SchemaUsage''"

definition NullSchemaUsage_Scan :: "driver_value \<Rightarrow> null_enum \<Rightarrow> string option \<times> null_enum" where
  "NullSchemaUsage_Scan = null_Scan SchemaUsage_Scan"

definition NullSchemaUsage_Value :: "null_enum \<Rightarrow> driver_value" where
  "NullSchemaUsage_Value = null_Value"

interpretation schemausage_enum: enum_text "[SchemaUsageSettings, SchemaUsageMessages]" SchemaUsage_text SchemaUsage_Scan
proof
  show "a \<in> set [SchemaUsageSettings, SchemaUsageMessages]" for a by (cases a) simp_all
  show "a = b" if "SchemaUsage_text a = SchemaUsage_text b" for a b using that by (cases a; cases b) simp_all
qed (simp_all add: SchemaUsage_Scan_def)

fun UserKind_text :: "user_kind \<Rightarrow> string" where
  "UserKind_text UserKindUser = ''user''"
| "UserKind_text UserKindUnit = ''unit''"
| "UserKind_text UserKindOrg = ''org''"

definition UserKind_Scan :: "driver_value \<Rightarrow> string \<Rightarrow> string option \<times> string" where
  "UserKind_Scan = enum_Scan ''UserKind''"

definition NullUserKind_Scan :: "driver_value \<Rightarrow> null_enum \<Rightarrow> string option \<times> null_enum" where
  "NullUserKind_Scan = null_Scan UserKind_Scan"

definition NullUserKind_Value :: "null_enum \<Rightarrow> driver_value" where
  "NullUserKind_Value = null_Value"

interpretation userkind_enum: enum_text "[UserKindUser, UserKindUnit, UserKindOrg]" UserKind_text UserKind_Scan
proof
  show "a \<in> set [UserKindUser, UserKindUnit, UserKindOrg]" for a by (cases a) simp_all
  show "a = b" if "UserKind_text a = UserKind_text b" for a b using that by (cases a; cases b) simp_all
qed (simp_all add: UserKind_Scan_def)

end
