(* ===== verification/Spec2Isabelle.thy ===== *)
theory Spec2Isabelle
  imports Polling App_Props Interleaving_Props Message_Interleaving_Props Config_Registration Enums
begin

text \<open>
  A verification development for the user service: user messages, inboxes, settings and the
  configuration the service validates its documents with. It is a Go program over a PostgreSQL
  database. Its handlers (Twirp and Connect) check the caller, call a store, and turn the store's
  errors into rpc errors; the stores run transactions of generated SQL statements; a transaction
  announces what it wrote on a notification channel, and the long polls wait for announcements.

  \<^bold>\<open>Parts and theories.\<close> The order is that of the calls, the database first.

  \<^item> \<open>Prelude\<close>: results and the error/state monad the code is written in (one \<open>bindM\<close> per
    \<open>if err != nil\<close>, \<open>catchM\<close> where the code looks at the error), tables as lists of rows with a
    key, pages of rows, 64-bit ranges. \<open>Json\<close>: JSON values, what a jsonb column keeps of them, and
    the comparison \<open>jsonEqual\<close> (\<open>internal/config_store.go\<close>).
  \<^item> \<open>Database\<close>: the rows (\<open>postgres/models.go\<close>), the database, the world a call sees (database,
    server time, clock, which statements fail), notifications (\<open>internal/store.go\<close>), and
    transactions. \<open>Access\<close>: \<open>internal/access.go\<close> and \<open>internal/handlers.go\<close>.
  \<^item> \<open>Messages_Store\<close>, \<open>Settings_Store\<close>, \<open>Config_Store\<close>: the statements of
    \<open>postgres/queries.sql.go\<close> (\<open>q_...\<close>) with the constraints of the tables, the transaction bodies
    (\<open>..._tx\<close>) and the operations of \<open>internal/*_store.go\<close>, under the names of the code.
  \<^item> \<open>Messages_Service\<close>, \<open>Settings_Service\<close>, \<open>Config_Service\<close>: the handlers of
    \<open>internal/*_service.go\<close> over a record of store operations, one field per method of the Go
    interface; \<open>pg_messages_store\<close> and its siblings fill the record with the model of the store.
    A handler whose name a store operation has is called \<open>svc_...\<close>.
  \<^item> \<open>Validator\<close>: \<open>internal/validator.go\<close>, its reload loop and refresh requests. \<open>Retention\<close>: the
    sweeps, \<open>stopScoped\<close> (\<open>internal/app.go\<close>) and \<open>schemasReadyCheck\<close> (\<open>cmd/user/main.go\<close>). \<open>App\<close>: flags and
    set-up of \<open>cmd/user/main.go\<close>, \<open>internal/metrics.go\<close>, the services and tasks of \<open>Run\<close>, and what their
    returns do to the group. \<open>Enums\<close>: \<open>Scan\<close> and \<open>Value\<close> of the enums in \<open>postgres/models.go\<close>.
  \<^item> \<open>Channels\<close>: the fan-outs of the store and its subscriber (\<open>internal/store.go\<close>), and that every commit
    announces what it changed to the right one. \<open>Polling\<close>: a waiting call with its listener goroutine and its
    channel of one event, while others commit; the locale \<open>wake_source\<close> is what waiting relies on.
  \<^item> \<open>Messages_Facts\<close>, \<open>Messages_Inv\<close>, \<open>Settings_Facts\<close>, \<open>Settings_Inv\<close>, \<open>Config_Facts\<close>: what each
    transaction does to the tables as an equation (\<open>..._effect\<close>), on every outcome, and the
    invariants it keeps. \<open>Store_Steps\<close>: the store as a state machine whose steps are committed
    transactions of all components, reachability, and the invariant of all of them (\<open>store_ok\<close>).
    \<open>Runner\<close>: from the body of a transaction to the operation that runs it.
  \<^item> \<open>Streams\<close>: what a client of a stream relies on. The locale \<open>cursor_stream\<close> is the contract of
    pages (sorted, past the cursor, leaving out only later rows), \<open>commit_ordered_stream\<close> adds that
    ids follow the order of commits; the loops of a client that drains or tails a stream are proved
    inside. They are interpreted on the system messages, the inbox and the eventlog.
    \<open>Service_Contracts\<close> and \<open>Document_Contract\<close> hold the interfaces between handlers and stores
    (\<open>inbox_provider\<close>, \<open>document_provider\<close> and others), interpreted on the model of the store.
  \<^item> \<open>Statements\<close>, \<open>Interleaving\<close>, \<open>Interleaving_Progress\<close>: the settings transactions statement by
    statement. \<open>Statements\<close> splits the bodies of \<open>internal/settings_store.go\<close> into data statements and
    the logging at the end, and proves that this is what they are (\<open>call_body_statements\<close>);
    \<open>Interleaving\<close> is a machine in which the statements of any number of transactions alternate under
    row locks, with its invariant; \<open>Interleaving_Progress\<close> orders the locks. \<open>Message_Statements\<close> and
    \<open>Message_Interleaving\<close> do the same for the transactions of \<open>internal/messages_store.go\<close>, among which sweeps
    and other components commit (\<open>message_body_statements\<close> relates them to the bodies). \<open>Config_Statements\<close>,
    \<open>Config_Interleaving\<close> and \<open>Config_Interleaving_Inv\<close> do it for \<open>internal/config_store.go\<close>: a transaction is the record of
    the changes it has made so far (\<open>config_delta\<close>), which fit what the others commit (\<open>fits_other\<close>).
    \<open>Config_Registration\<close> follows one registration through that machine to its commit.
  \<^item> \<open>Messages_Props\<close>, \<open>Settings_Spec\<close>, \<open>Settings_Props\<close>, \<open>Eventlog_Props\<close>, \<open>Config_Props\<close>,
    \<open>Config_Service_Props\<close>, \<open>Interleaving_Props\<close>, \<open>Message_Interleaving_Props\<close>, \<open>Config_Interleaving_Props\<close>,
    \<open>Config_Registration\<close>, \<open>Store_Props\<close>, \<open>Notifications\<close>, \<open>App_Props\<close>: the properties, each numbered in the text
    before it and followed by a witness on concrete data (\<open>Samples\<close>).

  \<^bold>\<open>What is shown.\<close> Messages: a push is stored once, retried safely, refused when it conflicts or is
  not allowed, and arrives; a poll is an ordered bounded page that skips nothing, also while others
  write; read states belong to one reader and deletions are final; retention removes exactly what
  has expired. Settings: who may write what, what an update, a deletion and a batch of properties
  do to the tables and to the eventlog, the eventlog as a gapless history from which the tables can
  be rebuilt, by a client page by page too, and a refinement of an abstract table with a log; under
  interleaving, commits that are steps of the store, entries in the order of their times, and no deadlock.
  Configuration: while registrations and activations interleave, at most one active generation, schemas and generations that
  never change, and what a registration has brought about when it commits; idempotent registration, what identifies a set of schemas, and that what is registered can be loaded; the
  validator's reloads; the wait for a change. The whole store: every outcome of every call keeps the
  tables well formed, and every commit announces what polls wait for, on a channel that decodes it; a poll whose
  listener is registered in time is woken, one whose goroutine is late waits for its timer (\<open>late_listener_waits\<close>).
  The program: it starts without schemas, becomes ready through its own API, and stops only for the reasons it means to.

  \<^bold>\<open>Transactions and concurrency.\<close> \<open>pg.WithTX\<close> is not part of the repository: a store operation
  takes the runner as an argument, with a contract (\<open>tx_contract\<close>): begin at a database other calls
  may have reached since, run the body, commit on success and roll back on failure; beginning and
  committing may fail, and a failed commit may have been applied. A body runs atomically.
  For the settings and the message transactions this is proved of interleaved statements (\<open>interleaved_commits_atomic\<close>,
  \<open>message_commits_atomic\<close>), with the locks PostgreSQL takes under read committed as the rules of the machines; the one
  exception is a batch of deletions, which acts on the rows it finds statement by statement (\<open>batch_drop_not_serial\<close>).
  Each machine lets the other components commit between its statements as long as they touch no locked row. The
  configuration transactions are not atomic in this sense: two of them can miss what the other one stores
  (\<open>registered_spec_lost\<close>), wait for each other (\<open>registrations_deadlock\<close>) or refuse each other (\<open>second_activation_refused\<close>).
  What holds of them all the same is proved of their statements (\<open>configuration_interleaved\<close>, \<open>configuration_immutable\<close>,
  \<open>register_generation\<close>): the invariant of the tables, that what is stored stays, that a change of the active generation is
  announced, and what a registration leaves, with the exceptions that another transaction can cause. In that
  machine the number of a generation is drawn when its identity is free, not before waiting for it. The other theorems on
  the configuration take each transaction as one step, among them \<open>registration_atomic\<close>, which the properties of the
  configuration service rest on.
  Transactions of other calls may come before the one of a call begins and while a call waits; they
  do not come between two statements a call makes outside a transaction (two reads, or the two deletions of a sweep, which
  have one server time in the model and each its own in the code). \<open>run_tx\<close> is a runner that meets the contract.

  \<^bold>\<open>Bounds and fuel.\<close> Ids are checked against the 64-bit range where the database does
  (\<open>in_bigint\<close>); the ordinal of a schema is converted to 32 bits as in the code (\<open>int32\<close>). A \<open>switch\<close> over an enum has no default branch in the model, where the type has no other value.
  \<open>waitForGenerationChange\<close> is the one loop without a bound: it has fuel, and running out is an
  outcome of its own. As many rounds as notifications are still to come, and one, are enough;
  without a bound on them no number is (\<open>wait_unbounded\<close>). The loops of a client (\<open>drain\<close>) have
  fuel too; the number of rows past the cursor is enough.

  \<^bold>\<open>Parameters.\<close> Not under \<open>src/\<close>, and arguments of the definitions: \<open>RequireAnyScope\<close> and the claims
  of a token, the codec of documents (\<open>doc_api\<close>), revisor's constraint sets and validators
  (\<open>revisor_api\<close>), SHA-256 with its hex encoding, the rounding of \<open>float64\<close>, the order in which Go
  ranges over a map, the collation of the database, who ends a wait, what the libraries answer during set-up
  (\<open>set_up\<close>), which returns of a task end its group (\<open>group_contract\<close>). A sort promises a sorted
  permutation (\<open>sort_contract\<close>).

  \<^bold>\<open>Not modelled.\<close> The LISTEN subscriber, the fan-out of notifications to channels and the job lock
  (third party; the code promises no delivery, and \<open>Polling\<close> lets a notification come late); logging; HTTP, TLS
  and the pools themselves; the SQL migrations.
\<close>

section \<open>Page sizes\<close>

text \<open>
  Every page size a request asks for is served as a size from 1 to 100; sizes in that range are served
  as asked, and only a request with a size that is not positive gets the default of 10.
\<close>

lemma clampSize_spec:
  "1 \<le> clampSize n \<and> clampSize n \<le> 100 \<and> (n \<in> {1..100} \<longleftrightarrow> clampSize n = n) \<and>
   (if n \<le> 0 then clampSize n = 10 else clampSize n = min n 100)"
  by (auto simp: clampSize_def pollDefaultSize_def pollMaxSize_def)

end
